(* ===== verification/Prelude.thy ===== *)
theory Prelude
  imports Main "HOL-Library.Word" "HOL-Library.AList" "HOL-Library.Multiset" "HOL-Library.Sublist"
begin

text \<open>
  The vocabulary every component shares: Rust's \<open>Result\<close> with its \<open>?\<close> operator, the outcome
  of an \<open>.await\<close> under a deadline, \<open>HashMap\<close> as an association list with distinct keys,
  the machine-integer names, two interfaces for process-global maps, and reachability of a step
  relation.  Components prove their laws against these and rest on the derived lemmas.
\<close>

section \<open>Collections of facts\<close>

named_theorems result_split \<open>when a computation with the ? operator returns Ok or Err\<close>
named_theorems store_simps \<open>lookup and well-formedness of the association-list maps\<close>

section \<open>Machine integers\<close>

type_synonym i32 = "32 word"
type_synonym u32 = "32 word"
type_synonym i64 = "64 word"
type_synonym u64 = "64 word"

text \<open>The largest values of the signed and unsigned types, as mathematical integers.\<close>

abbreviation i32_max :: int where "i32_max \<equiv> 2147483647"
abbreviation u32_max :: int where "u32_max \<equiv> 4294967295"
abbreviation i64_max :: int where "i64_max \<equiv> 9223372036854775807"

lemma sint_i64_bounds: "- (2 ^ 63) \<le> sint (n :: i64) \<and> sint n < 2 ^ 63"
  using sint_greater_eq [of n] sint_less [of n] by simp

lemma uint_eq_sint_of_nonneg: "0 \<le> sint (n :: 'a::len word) \<Longrightarrow> uint n = sint n"
proof -
  assume nonneg: "0 \<le> sint n"
  have "sint n < 2 ^ (LENGTH('a) - 1)" using sint_less [of n] by simp
  also have "(2 :: int) ^ (LENGTH('a) - 1) \<le> 2 ^ LENGTH('a)" by (rule power_increasing) simp_all
  finally show ?thesis using nonneg by (simp add: uint_sint take_bit_int_eq_self_iff)
qed

lemma unat_eq_nat_sint_of_nonneg: "0 \<le> sint (n :: 'a::len word) \<Longrightarrow> unat n = nat (sint n)"
  by (simp add: uint_eq_sint_of_nonneg flip: nat_uint_eq)

section \<open>Results, and the ? operator\<close>

datatype ('a, 'e) result = Ok 'a | Err 'e

fun bind_result :: "('a, 'e) result \<Rightarrow> ('a \<Rightarrow> ('b, 'e) result) \<Rightarrow> ('b, 'e) result" where
  "bind_result (Ok x) f = f x"
| "bind_result (Err e) f = Err e"

fun map_err :: "('e \<Rightarrow> 'f) \<Rightarrow> ('a, 'e) result \<Rightarrow> ('a, 'f) result" where
  "map_err g (Ok x) = Ok x"
| "map_err g (Err e) = Err (g e)"

fun map_ok :: "('a \<Rightarrow> 'b) \<Rightarrow> ('a, 'e) result \<Rightarrow> ('b, 'e) result" where
  "map_ok f (Ok x) = Ok (f x)"
| "map_ok f (Err e) = Err e"

fun ok_or :: "'a option \<Rightarrow> 'e \<Rightarrow> ('a, 'e) result" where
  "ok_or (Some x) e = Ok x"
| "ok_or None e = Err e"

fun is_ok :: "('a, 'e) result \<Rightarrow> bool" where
  "is_ok (Ok _) = True"
| "is_ok (Err _) = False"

lemma bind_result_Ok [result_split]:
  "bind_result r f = Ok y \<longleftrightarrow> (\<exists>x. r = Ok x \<and> f x = Ok y)"
  by (cases r) auto

lemma bind_result_Err [result_split]:
  "bind_result r f = Err e \<longleftrightarrow> r = Err e \<or> (\<exists>x. r = Ok x \<and> f x = Err e)"
  by (cases r) auto

lemma map_err_Ok [result_split, simp]: "map_err g r = Ok x \<longleftrightarrow> r = Ok x"
  by (cases r) auto

lemma map_err_Err [result_split]: "map_err g r = Err e \<longleftrightarrow> (\<exists>d. r = Err d \<and> e = g d)"
  by (cases r) auto

lemma map_ok_Ok [result_split]: "map_ok f r = Ok y \<longleftrightarrow> (\<exists>x. r = Ok x \<and> y = f x)"
  by (cases r) auto

lemma map_ok_Err [result_split, simp]: "map_ok f r = Err e \<longleftrightarrow> r = Err e"
  by (cases r) auto

lemma ok_or_Ok [result_split, simp]: "ok_or z e = Ok x \<longleftrightarrow> z = Some x"
  by (cases z) auto

lemma ok_or_Err [result_split, simp]: "ok_or z e = Err d \<longleftrightarrow> z = None \<and> d = e"
  by (cases z) auto

lemma is_ok_iff: "is_ok r \<longleftrightarrow> (\<exists>x. r = Ok x)"
  by (cases r) auto

lemma not_is_ok_iff: "\<not> is_ok r \<longleftrightarrow> (\<exists>e. r = Err e)"
  by (cases r) auto

text \<open>
  A future polled under \<open>tokio::time::timeout\<close> either becomes ready with a value or is still
  pending when the deadline passes, in which case it is dropped where it stands.
\<close>

datatype 'a poll = Ready 'a | Elapsed

section \<open>Hash maps\<close>

text \<open>
  A \<open>HashMap\<close> is an association list with distinct keys; the order of the list is the (arbitrary)
  iteration order.
\<close>

type_synonym ('k, 'v) hash_map = "('k \<times> 'v) list"

definition hm_wf :: "('k, 'v) hash_map \<Rightarrow> bool" where
  "hm_wf m \<longleftrightarrow> distinct (map fst m)"

definition hm_get :: "('k, 'v) hash_map \<Rightarrow> 'k \<Rightarrow> 'v option" where
  "hm_get m k = map_of m k"

definition hm_insert :: "'k \<Rightarrow> 'v \<Rightarrow> ('k, 'v) hash_map \<Rightarrow> ('k, 'v) hash_map" where
  "hm_insert k v m = AList.update k v m"

definition hm_remove :: "'k \<Rightarrow> ('k, 'v) hash_map \<Rightarrow> ('k, 'v) hash_map" where
  "hm_remove k m = AList.delete k m"

text \<open>\<open>map.entry(k).or_insert(v)\<close>: the map keeps an existing value and returns what it holds.\<close>

definition hm_or_insert :: "'k \<Rightarrow> 'v \<Rightarrow> ('k, 'v) hash_map \<Rightarrow> 'v \<times> ('k, 'v) hash_map" where
  "hm_or_insert k v m =
     (case hm_get m k of Some old \<Rightarrow> (old, m) | None \<Rightarrow> (v, hm_insert k v m))"

lemma hm_get_Nil [store_simps, simp]: "hm_get [] k = None"
  by (simp add: hm_get_def)

lemma hm_get_Cons [simp]: "hm_get ((a, b) # m) k = (if a = k then Some b else hm_get m k)"
  by (simp add: hm_get_def)

lemma hm_wf_Nil [store_simps, simp]: "hm_wf []"
  by (simp add: hm_wf_def)

lemma hm_get_insert [store_simps, simp]: "hm_get (hm_insert k v m) = (hm_get m)(k \<mapsto> v)"
  by (rule ext) (simp add: hm_get_def hm_insert_def update_conv)

lemma hm_get_remove [store_simps, simp]: "hm_get (hm_remove k m) = (hm_get m)(k := None)"
  by (rule ext) (simp add: hm_get_def hm_remove_def delete_conv)

lemma hm_wf_insert [store_simps, simp]: "hm_wf m \<Longrightarrow> hm_wf (hm_insert k v m)"
  by (simp add: hm_wf_def hm_insert_def distinct_update)

lemma hm_wf_remove [store_simps, simp]: "hm_wf m \<Longrightarrow> hm_wf (hm_remove k m)"
  by (simp add: hm_wf_def hm_remove_def distinct_delete)

lemma hm_get_or_insert [store_simps]:
  "hm_get (snd (hm_or_insert k v m)) = (if hm_get m k = None then (hm_get m)(k \<mapsto> v) else hm_get m)"
  by (auto simp: hm_or_insert_def split: option.splits)

lemma fst_hm_or_insert [store_simps]:
  "fst (hm_or_insert k v m) = (case hm_get m k of None \<Rightarrow> v | Some old \<Rightarrow> old)"
  by (simp add: hm_or_insert_def split: option.splits)

lemma hm_wf_or_insert [store_simps, simp]: "hm_wf m \<Longrightarrow> hm_wf (snd (hm_or_insert k v m))"
  by (simp add: hm_or_insert_def split: option.splits)

lemma hm_entries: "hm_wf m \<Longrightarrow> (k, v) \<in> set m \<longleftrightarrow> hm_get m k = Some v"
  by (simp add: hm_wf_def hm_get_def)

lemma hm_get_map_values:
  "hm_get (map (\<lambda>(k, v). (k, f v)) m) k = map_option f (hm_get m k)"
  by (induction m) auto

text \<open>What an update and a removal do to a projection of the entries.\<close>

lemma hm_map_update:
  "hm_get m k = Some v \<Longrightarrow> f w = f v \<Longrightarrow> map (\<lambda>e. f (snd e)) (hm_insert k w m) = map (\<lambda>e. f (snd e)) m"
  by (induction m) (auto simp: hm_insert_def)

lemma hm_sum_update:
  fixes f :: "'v \<Rightarrow> nat"
  shows "hm_get m k = Some v \<Longrightarrow>
    sum_list (map (\<lambda>e. f (snd e)) (hm_insert k w m)) + f v = sum_list (map (\<lambda>e. f (snd e)) m) + f w"
  by (induction m) (auto simp: hm_insert_def)

lemma hm_mset_remove:
  "hm_wf m \<Longrightarrow> hm_get m k = Some v \<Longrightarrow>
     mset (map (\<lambda>e. f (snd e)) m) = add_mset (f v) (mset (map (\<lambda>e. f (snd e)) (hm_remove k m)))"
proof (induction m)
  case (Cons e m)
  then show ?case
    by (cases e) (auto simp: hm_remove_def hm_wf_def delete_id)
qed simp

lemma hm_sum_remove:
  fixes f :: "'v \<Rightarrow> nat"
  assumes "hm_wf m" "hm_get m k = Some v"
  shows "sum_list (map (\<lambda>e. f (snd e)) m) = f v + sum_list (map (\<lambda>e. f (snd e)) (hm_remove k m))"
  using arg_cong [OF hm_mset_remove [OF assms, of f], of sum_mset] by (simp only: sum_mset_sum_list sum_mset.add_mset)

lemma hm_get_append: "hm_get (m @ n) k = (case hm_get m k of Some v \<Rightarrow> Some v | None \<Rightarrow> hm_get n k)"
  by (induction m) auto

lemma find_Some_in: "find P xs = Some x \<Longrightarrow> x \<in> set xs \<and> P x"
  by (induction xs) (auto split: if_splits)

section \<open>The interface of a process-global map\<close>

text \<open>
  What the clients of the staging area, the proto registry and the channel cache rely on.
  \<open>keyed_map\<close> is the part all three share: reading a key, listing the entries.
\<close>

locale keyed_map =
  fixes empty_map :: "'m"
    and get :: "'m \<Rightarrow> 'k \<Rightarrow> 'v option"
    and entries :: "'m \<Rightarrow> ('k \<times> 'v) list"
    and wf :: "'m \<Rightarrow> bool"
  assumes get_empty: "get empty_map k = None"
    and wf_empty: "wf empty_map"
    and entries_get: "wf m \<Longrightarrow> (k, v) \<in> set (entries m) \<longleftrightarrow> get m k = Some v"
    and entries_distinct: "wf m \<Longrightarrow> distinct (map fst (entries m))"
begin

lemma dom_get: "wf m \<Longrightarrow> dom (get m) = fst ` set (entries m)"
  by (auto simp: entries_get [symmetric] dom_def intro: rev_image_eqI)

lemma finite_dom: "wf m \<Longrightarrow> finite (dom (get m))"
  by (simp add: dom_get)

lemma length_entries: "wf m \<Longrightarrow> length (entries m) = card (dom (get m))"
proof -
  assume w: "wf m"
  then have "dom (get m) = fst ` set (entries m)"
    by (rule dom_get)
  moreover have "card (fst ` set (entries m)) = length (entries m)"
    using distinct_card [OF entries_distinct [OF w]] by simp
  ultimately show ?thesis by simp
qed

lemma entries_empty_iff: "wf m \<Longrightarrow> entries m = [] \<longleftrightarrow> (\<forall>k. get m k = None)"
  by (metis entries_get last_in_set list.set(1) empty_iff option.exhaust option.simps(3) surj_pair)

end

text \<open>A map whose entries the program overwrites and removes (staging, registry).\<close>

locale mutable_map = keyed_map +
  fixes put :: "'k \<Rightarrow> 'v \<Rightarrow> 'm \<Rightarrow> 'm"
    and del :: "'k \<Rightarrow> 'm \<Rightarrow> 'm"
  assumes get_put: "get (put k v m) = (get m)(k \<mapsto> v)"
    and get_del: "get (del k m) = (get m)(k := None)"
    and wf_put: "wf m \<Longrightarrow> wf (put k v m)"
    and wf_del: "wf m \<Longrightarrow> wf (del k m)"
begin

lemma wf_put_all: "wf m \<Longrightarrow> wf (fold (\<lambda>(k, v). put k v) kvs m)"
  by (induction kvs arbitrary: m) (auto simp: wf_put)

text \<open>Writing a list of entries one by one: the last write to a key wins.\<close>

lemma get_put_all:
  "get (fold (\<lambda>(k, v). put k v) kvs m) k =
     (case map_of (rev kvs) k of Some v \<Rightarrow> Some v | None \<Rightarrow> get m k)"
proof (induction kvs arbitrary: m)
  case Nil
  then show ?case by simp
next
  case (Cons kv kvs)
  then show ?case
    by (cases kv) (auto simp: get_put map_add_def split: option.splits)
qed

lemma put_del_commute: "k \<noteq> j \<Longrightarrow> get (put k v (del j m)) = get (del j (put k v m))"
  by (rule ext) (simp add: get_put get_del)

lemma get_after_del_put: "get (del k (put k v m)) k = None" "get (put k v (del k m)) k = Some v"
  by (simp_all add: get_put get_del)

end

text \<open>A map the program only ever adds to, never replacing a present value (channel cache).\<close>

locale write_once_map = keyed_map +
  fixes add :: "'k \<Rightarrow> 'v \<Rightarrow> 'm \<Rightarrow> 'm"
  assumes get_add: "get (add k v m) = (if get m k = None then (get m)(k \<mapsto> v) else get m)"
    and wf_add: "wf m \<Longrightarrow> wf (add k v m)"
begin

lemma add_keeps: "get m k = Some v \<Longrightarrow> get (add j w m) k = Some v"
  by (auto simp: get_add)

lemma adds_keep: "get m k = Some v \<Longrightarrow> get (fold (\<lambda>(j, w). add j w) kvs m) k = Some v"
  by (induction kvs arbitrary: m) (auto simp: add_keeps)

lemma add_present: "get m k = Some v \<Longrightarrow> get (add k w m) = get m"
  by (simp add: get_add)

text \<open>The first value written to a fresh key is the one every later reader sees.\<close>

lemma first_add_wins:
  "get m k = None \<Longrightarrow> get (fold (\<lambda>(j, w). add j w) ((k, v) # kvs) m) k = Some v"
  by (simp add: adds_keep get_add)

end

section \<open>Reachability\<close>

inductive reachable :: "('s \<Rightarrow> bool) \<Rightarrow> ('s \<Rightarrow> 's \<Rightarrow> bool) \<Rightarrow> 's \<Rightarrow> bool"
  for start :: "'s \<Rightarrow> bool" and step :: "'s \<Rightarrow> 's \<Rightarrow> bool" where
  reachable_start: "start s \<Longrightarrow> reachable start step s"
| reachable_step: "reachable start step s \<Longrightarrow> step s t \<Longrightarrow> reachable start step t"

text \<open>The contract of an inductive invariant, and what it gives in every reachable state.\<close>

locale inductive_invariant =
  fixes start :: "'s \<Rightarrow> bool"
    and step :: "'s \<Rightarrow> 's \<Rightarrow> bool"
    and inv :: "'s \<Rightarrow> bool"
  assumes inv_start: "start s \<Longrightarrow> inv s"
    and inv_step: "step s t \<Longrightarrow> inv s \<Longrightarrow> inv t"
begin

lemma reachable_inv: "reachable start step s \<Longrightarrow> inv s"
  by (induction rule: reachable.induct) (auto intro: inv_start inv_step)

lemma steps_inv: "step\<^sup>*\<^sup>* s t \<Longrightarrow> inv s \<Longrightarrow> inv t"
  by (induction rule: rtranclp_induct) (auto intro: inv_step)

end

text \<open>
  Forward simulation: every concrete step from a reachable state is matched by an abstract step or by
  none, and what is concretely reachable keeps a matching abstract state.
\<close>

locale simulation = inductive_invariant start step inv
  for start :: "'s \<Rightarrow> bool" and step :: "'s \<Rightarrow> 's \<Rightarrow> bool" and inv :: "'s \<Rightarrow> bool" +
  fixes rel :: "'s \<Rightarrow> 'a \<Rightarrow> bool"
    and astep :: "'a \<Rightarrow> 'a \<Rightarrow> bool"
  assumes sim_total: "inv s \<Longrightarrow> \<exists>a. rel s a"
    and sim_unique: "inv s \<Longrightarrow> rel s a \<Longrightarrow> rel s b \<Longrightarrow> a = b"
    and sim_step: "inv s \<Longrightarrow> step s t \<Longrightarrow> rel s a \<Longrightarrow> \<exists>b. rel t b \<and> astep\<^sup>=\<^sup>= a b"
begin

lemma reachable_rel: "reachable start step s \<Longrightarrow> \<exists>!a. rel s a"
  using reachable_inv sim_total sim_unique by blast

lemma sim_step_to:
  assumes "reachable start step s" and "step s t" and "rel s a" and "rel t b"
  shows "astep\<^sup>=\<^sup>= a b"
proof -
  have inv: "inv s" "inv t"
    using reachable_inv [OF assms(1)] reachable_inv [OF reachable_step [OF assms(1,2)]] .
  obtain c where "rel t c" "astep\<^sup>=\<^sup>= a c" using sim_step [OF inv(1) assms(2,3)] by blast
  moreover have "b = c" using sim_unique [OF inv(2) assms(4) \<open>rel t c\<close>] .
  ultimately show ?thesis by simp
qed

lemma sim_steps:
  assumes "step\<^sup>*\<^sup>* s t" and "inv s" and "rel s a"
  shows "\<exists>b. rel t b \<and> astep\<^sup>*\<^sup>* a b"
  using assms(1)
proof (induction rule: rtranclp_induct)
  case base
  with assms(3) show ?case by blast
next
  case (step t u)
  then obtain b where b: "rel t b" "astep\<^sup>*\<^sup>* a b" by blast
  have "inv t" using steps_inv [OF step.hyps(1) assms(2)] .
  from sim_step [OF this step.hyps(2) b(1)] obtain c where "rel u c" "astep\<^sup>=\<^sup>= b c" by blast
  with b(2) have "astep\<^sup>*\<^sup>* a c" by (auto intro: rtranclp.rtrancl_into_rtrancl)
  with \<open>rel u c\<close> show ?case by blast
qed

lemma sim_steps_to:
  assumes "reachable start step s" and "step\<^sup>*\<^sup>* s t" and "rel s a" and "rel t b"
  shows "astep\<^sup>*\<^sup>* a b"
proof -
  have inv: "inv s" using reachable_inv [OF assms(1)] .
  obtain c where "rel t c" "astep\<^sup>*\<^sup>* a c" using sim_steps [OF assms(2) inv assms(3)] by blast
  moreover have "b = c" using sim_unique [OF steps_inv [OF assms(2) inv] assms(4) \<open>rel t c\<close>] .
  ultimately show ?thesis by simp
qed

end

end
