(* ===== verification/Rust_Str.thy ===== *)
theory Rust_Str
  imports Prelude
begin

text \<open>
  Rust's \<open>str\<close> as its UTF-8 bytes (a HOL \<open>string\<close>, one \<open>char\<close> per byte), with the methods the
  program calls: \<open>trim\<close> over the Unicode White_Space set, \<open>contains\<close>, \<open>rsplit_once\<close>,
  \<open>to_ascii_lowercase\<close>, \<open>join\<close>, \<open>CStr::to_string_lossy\<close>, and the decimal formatting of integers.
  A separator such as \<open>/\<close> is a single ASCII byte, so cutting at it never splits a character.
\<close>

section \<open>Decimal formatting\<close>

definition digit :: "nat \<Rightarrow> char" where
  "digit d = char_of (48 + d)"

fun show_nat :: "nat \<Rightarrow> string" where
  "show_nat n = (if n < 10 then [digit n] else show_nat (n div 10) @ [digit (n mod 10)])"

declare show_nat.simps [simp del]

definition show_int :: "int \<Rightarrow> string" where
  "show_int i = (if i < 0 then ''-'' @ show_nat (nat (- i)) else show_nat (nat i))"

definition read_nat :: "string \<Rightarrow> nat" where
  "read_nat s = foldl (\<lambda>a c. 10 * a + (of_char c - 48)) 0 s"

lemma read_nat_snoc: "read_nat (s @ [c]) = 10 * read_nat s + (of_char c - 48)"
  by (simp add: read_nat_def)

lemma of_char_digit: "d < 10 \<Longrightarrow> (of_char (digit d) :: nat) = 48 + d"
  by (simp add: digit_def)

lemma read_show_nat [simp]: "read_nat (show_nat n) = n"
proof (induction n rule: show_nat.induct)
  case (1 n)
  show ?case
  proof (cases "n < 10")
    case True
    then show ?thesis
      by (subst show_nat.simps) (simp add: read_nat_def of_char_digit)
  next
    case False
    then have "read_nat (show_nat (n div 10)) = n div 10" by (rule "1.IH")
    with False show ?thesis
      by (subst show_nat.simps) (simp add: read_nat_snoc of_char_digit)
  qed
qed

lemma show_nat_inject [simp]: "show_nat m = show_nat n \<longleftrightarrow> m = n"
  by (metis read_show_nat)

lemma show_nat_not_Nil [simp]: "show_nat n \<noteq> []"
  by (subst show_nat.simps) simp

section \<open>White space and trim\<close>

text \<open>The UTF-8 encodings of the 25 characters with the White_Space property.\<close>

definition white_space :: "string list" where
  "white_space =
     [[CHR 0x09], [CHR 0x0A], [CHR 0x0B], [CHR 0x0C], [CHR 0x0D], [CHR 0x20],
      [CHR 0xC2, CHR 0x85], [CHR 0xC2, CHR 0xA0], [CHR 0xE1, CHR 0x9A, CHR 0x80],
      [CHR 0xE2, CHR 0x80, CHR 0x80], [CHR 0xE2, CHR 0x80, CHR 0x81],
      [CHR 0xE2, CHR 0x80, CHR 0x82], [CHR 0xE2, CHR 0x80, CHR 0x83],
      [CHR 0xE2, CHR 0x80, CHR 0x84], [CHR 0xE2, CHR 0x80, CHR 0x85],
      [CHR 0xE2, CHR 0x80, CHR 0x86], [CHR 0xE2, CHR 0x80, CHR 0x87],
      [CHR 0xE2, CHR 0x80, CHR 0x88], [CHR 0xE2, CHR 0x80, CHR 0x89],
      [CHR 0xE2, CHR 0x80, CHR 0x8A], [CHR 0xE2, CHR 0x80, CHR 0xA8],
      [CHR 0xE2, CHR 0x80, CHR 0xA9], [CHR 0xE2, CHR 0x80, CHR 0xAF],
      [CHR 0xE2, CHR 0x81, CHR 0x9F], [CHR 0xE3, CHR 0x80, CHR 0x80]]"

lemma white_space_not_Nil: "w \<in> set white_space \<Longrightarrow> w \<noteq> []"
  by (auto simp: white_space_def)

definition starts_ws :: "string \<Rightarrow> bool" where
  "starts_ws s \<longleftrightarrow> (\<exists>w \<in> set white_space. prefix w s)"

definition ends_ws :: "string \<Rightarrow> bool" where
  "ends_ws s \<longleftrightarrow> (\<exists>w \<in> set white_space. suffix w s)"

lemma find_prefix_Some:
  "find (\<lambda>w. prefix w s) white_space = Some w \<Longrightarrow> w \<in> set white_space \<and> prefix w s \<and> w \<noteq> []"
  by (auto simp: find_Some_iff white_space_not_Nil)

lemma find_suffix_Some:
  "find (\<lambda>w. suffix w s) white_space = Some w \<Longrightarrow> w \<in> set white_space \<and> suffix w s \<and> w \<noteq> []"
  by (auto simp: find_Some_iff white_space_not_Nil)

function trim_start :: "string \<Rightarrow> string" where
  "trim_start s =
     (case find (\<lambda>w. prefix w s) white_space of
        None \<Rightarrow> s
      | Some w \<Rightarrow> trim_start (drop (length w) s))"
  by pat_completeness auto
termination
proof (relation "measure length")
  fix s w
  assume "find (\<lambda>w. prefix w s) white_space = Some w"
  then have "prefix w s" and "w \<noteq> []" by (auto dest: find_prefix_Some)
  then show "(drop (length w) s, s) \<in> measure length"
    by (auto simp: prefix_def)
qed simp

function trim_end :: "string \<Rightarrow> string" where
  "trim_end s =
     (case find (\<lambda>w. suffix w s) white_space of
        None \<Rightarrow> s
      | Some w \<Rightarrow> trim_end (take (length s - length w) s))"
  by pat_completeness auto
termination
proof (relation "measure length")
  fix s w
  assume "find (\<lambda>w. suffix w s) white_space = Some w"
  then have "suffix w s" and "w \<noteq> []" by (auto dest: find_suffix_Some)
  then show "(take (length s - length w) s, s) \<in> measure length"
    by (auto simp: suffix_def)
qed simp

declare trim_start.simps [simp del] trim_end.simps [simp del]

definition trim :: "string \<Rightarrow> string" where
  "trim s = trim_end (trim_start s)"

lemma find_prefix_None: "find (\<lambda>w. prefix w s) white_space = None \<longleftrightarrow> \<not> starts_ws s"
  by (auto simp: starts_ws_def find_None_iff)

lemma find_suffix_None: "find (\<lambda>w. suffix w s) white_space = None \<longleftrightarrow> \<not> ends_ws s"
  by (auto simp: ends_ws_def find_None_iff)

lemma trim_start_clean: "\<not> starts_ws (trim_start s) \<and> suffix (trim_start s) s"
proof (induction s rule: trim_start.induct)
  case (1 s)
  show ?case
  proof (cases "find (\<lambda>w. prefix w s) white_space")
    case None
    then show ?thesis
      using find_prefix_None [of s] by (subst (1 2) trim_start.simps) simp
  next
    case (Some w)
    note ih = "1.IH" [OF Some]
    have "suffix (drop (length w) s) s" by (rule suffix_drop)
    with ih have "suffix (trim_start (drop (length w) s)) s" by (blast intro: suffix_order.trans)
    with ih Some show ?thesis by (subst (1 2) trim_start.simps) simp
  qed
qed

lemma trim_end_clean: "\<not> ends_ws (trim_end s) \<and> prefix (trim_end s) s"
proof (induction s rule: trim_end.induct)
  case (1 s)
  show ?case
  proof (cases "find (\<lambda>w. suffix w s) white_space")
    case None
    then show ?thesis
      using find_suffix_None [of s] by (subst (1 2) trim_end.simps) simp
  next
    case (Some w)
    note ih = "1.IH" [OF Some]
    have "prefix (take (length s - length w) s) s" by (rule take_is_prefix)
    with ih have "prefix (trim_end (take (length s - length w) s)) s"
      by (blast intro: prefix_order.trans)
    with ih Some show ?thesis by (subst (1 2) trim_end.simps) simp
  qed
qed

lemma starts_ws_prefix: "prefix t s \<Longrightarrow> starts_ws t \<Longrightarrow> starts_ws s"
  by (auto simp: starts_ws_def intro: prefix_order.trans)

lemma trim_start_id: "\<not> starts_ws s \<Longrightarrow> trim_start s = s"
  by (subst trim_start.simps) (simp add: find_prefix_None [symmetric])

lemma trim_end_id: "\<not> ends_ws s \<Longrightarrow> trim_end s = s"
  by (subst trim_end.simps) (simp add: find_suffix_None [symmetric])

text \<open>What \<open>trim\<close> returns neither starts nor ends with white space, and such strings are its fixpoints.\<close>

lemma trim_clean: "\<not> starts_ws (trim s) \<and> \<not> ends_ws (trim s)"
  using trim_end_clean [of "trim_start s"] trim_start_clean [of s] starts_ws_prefix
  by (auto simp: trim_def)

lemma trim_id: "\<not> starts_ws s \<Longrightarrow> \<not> ends_ws s \<Longrightarrow> trim s = s"
  by (simp add: trim_def trim_start_id trim_end_id)

lemma trim_id_iff: "trim s = s \<longleftrightarrow> \<not> starts_ws s \<and> \<not> ends_ws s"
  by (metis trim_clean trim_id)

lemma trim_idem [simp]: "trim (trim s) = trim s"
  by (simp add: trim_clean trim_id)

lemma trim_Nil [simp]: "trim [] = []"
  by (simp add: trim_id_iff starts_ws_def ends_ws_def white_space_def)

text \<open>A byte that is no part of a white-space character survives trimming.\<close>

definition ws_byte :: "char \<Rightarrow> bool" where
  "ws_byte c \<longleftrightarrow> (\<exists>w \<in> set white_space. c \<in> set w)"

lemma trim_start_keeps: "\<not> ws_byte c \<Longrightarrow> c \<in> set (trim_start s) \<longleftrightarrow> c \<in> set s"
proof (induction s rule: trim_start.induct)
  case (1 s)
  show ?case
  proof (cases "find (\<lambda>w. prefix w s) white_space")
    case None
    then show ?thesis by (subst trim_start.simps) simp
  next
    case (Some w)
    from find_prefix_Some [OF Some] obtain t where s: "s = w @ t" and w: "w \<in> set white_space"
      by (auto simp: prefix_def)
    have "c \<in> set (trim_start s) \<longleftrightarrow> c \<in> set (trim_start (drop (length w) s))"
      using Some by (subst trim_start.simps) simp
    also have "\<dots> \<longleftrightarrow> c \<in> set s"
      using "1.IH" [OF Some "1.prems"] s w "1.prems" by (auto simp: ws_byte_def)
    finally show ?thesis .
  qed
qed

lemma trim_end_keeps: "\<not> ws_byte c \<Longrightarrow> c \<in> set (trim_end s) \<longleftrightarrow> c \<in> set s"
proof (induction s rule: trim_end.induct)
  case (1 s)
  show ?case
  proof (cases "find (\<lambda>w. suffix w s) white_space")
    case None
    then show ?thesis by (subst trim_end.simps) simp
  next
    case (Some w)
    from find_suffix_Some [OF Some] obtain t where s: "s = t @ w" and w: "w \<in> set white_space"
      by (auto simp: suffix_def)
    have "c \<in> set (trim_end s) \<longleftrightarrow> c \<in> set (trim_end (take (length s - length w) s))"
      using Some by (subst trim_end.simps) simp
    also have "\<dots> \<longleftrightarrow> c \<in> set s"
      using "1.IH" [OF Some "1.prems"] s w "1.prems" by (auto simp: ws_byte_def)
    finally show ?thesis .
  qed
qed

lemma trim_keeps: "\<not> ws_byte c \<Longrightarrow> c \<in> set (trim s) \<longleftrightarrow> c \<in> set s"
  by (simp add: trim_def trim_end_keeps trim_start_keeps)

lemma slash_not_ws [simp]: "\<not> ws_byte (CHR ''/'')"
  by (simp add: ws_byte_def white_space_def)

section \<open>Searching and splitting\<close>

definition contains_str :: "string \<Rightarrow> string \<Rightarrow> bool" where
  "contains_str sub s \<longleftrightarrow> list_ex (prefix sub) (suffixes s)"

lemma contains_str_iff: "contains_str sub s \<longleftrightarrow> (\<exists>a b. s = a @ sub @ b)"
proof
  assume "contains_str sub s"
  then show "\<exists>a b. s = a @ sub @ b" 
    by (auto simp: contains_str_def list_ex_iff prefix_def suffix_def) blast
next
  assume "\<exists>a b. s = a @ sub @ b"
  then obtain a b where "s = a @ sub @ b" by blast
  then have "sub @ b \<in> set (suffixes s)" by (simp add: suffix_def)
  moreover have "prefix sub (sub @ b)" by simp
  ultimately show "contains_str sub s" unfolding contains_str_def list_ex_iff by (rule bexI [rotated])
qed

lemma contains_str_set: "contains_str sub s \<Longrightarrow> set sub \<subseteq> set s"
  by (auto simp: contains_str_iff)

text \<open>\<open>s.rsplit_once(c)\<close>: cut at the last occurrence.\<close>

fun rsplit_once :: "char \<Rightarrow> string \<Rightarrow> (string \<times> string) option" where
  "rsplit_once c [] = None"
| "rsplit_once c (x # xs) =
     (case rsplit_once c xs of
        Some (a, b) \<Rightarrow> Some (x # a, b)
      | None \<Rightarrow> if x = c then Some ([], xs) else None)"

lemma rsplit_once_None: "rsplit_once c s = None \<longleftrightarrow> c \<notin> set s"
  by (induction s) (auto split: option.splits)

lemma rsplit_once_Some: "rsplit_once c s = Some (a, b) \<longleftrightarrow> s = a @ c # b \<and> c \<notin> set b"
proof (induction s arbitrary: a b)
  case Nil
  then show ?case by simp
next
  case (Cons x xs)
  show ?case
  proof (cases "rsplit_once c xs")
    case None
    then have "c \<notin> set xs" by (simp add: rsplit_once_None)
    with None show ?thesis by (auto simp: Cons_eq_append_conv)
  next
    case (Some ab)
    then obtain a' b' where ab: "rsplit_once c xs = Some (a', b')" by (cases ab) auto
    then have xs: "xs = a' @ c # b'" "c \<notin> set b'" using Cons.IH by auto
    show ?thesis
    proof
      assume "rsplit_once c (x # xs) = Some (a, b)"
      with ab xs show "x # xs = a @ c # b \<and> c \<notin> set b" by auto
    next
      assume r: "x # xs = a @ c # b \<and> c \<notin> set b"
      then obtain a'' where "a = x # a''" "xs = a'' @ c # b"
        using xs by (cases a) auto
      with r have "rsplit_once c xs = Some (a'', b)" using Cons.IH by auto
      with \<open>a = x # a''\<close> show "rsplit_once c (x # xs) = Some (a, b)" by simp
    qed
  qed
qed

fun join_str :: "string \<Rightarrow> string list \<Rightarrow> string" where
  "join_str sep [] = []"
| "join_str sep [x] = x"
| "join_str sep (x # y # ys) = x @ sep @ join_str sep (y # ys)"

definition ascii_lower :: "char \<Rightarrow> char" where
  "ascii_lower c =
     (if 65 \<le> (of_char c :: nat) \<and> (of_char c :: nat) \<le> 90 then char_of ((of_char c :: nat) + 32) else c)"

definition to_ascii_lowercase :: "string \<Rightarrow> string" where
  "to_ascii_lowercase s = map ascii_lower s"

lemma of_ascii_lower:
  "(of_char (ascii_lower c) :: nat) =
     (if 65 \<le> (of_char c :: nat) \<and> (of_char c :: nat) \<le> 90 then of_char c + 32 else of_char c)"
  by (simp add: ascii_lower_def)

lemma to_ascii_lowercase_idem [simp]:
  "to_ascii_lowercase (to_ascii_lowercase s) = to_ascii_lowercase s"
proof -
  have "ascii_lower (ascii_lower c) = ascii_lower c" for c
    using of_ascii_lower [of c] by (auto simp: ascii_lower_def [of "ascii_lower c"] split: if_splits)
  then show ?thesis by (simp add: to_ascii_lowercase_def)
qed

section \<open>Lossy decoding of C strings\<close>

text \<open>
  \<open>to_string_lossy\<close>: well-formed UTF-8 sequences are kept, every maximal ill-formed piece becomes
  U+FFFD.  \<open>utf8_head s\<close> is the length of the first piece and whether it is well-formed.
\<close>

definition byte_in :: "nat \<Rightarrow> nat \<Rightarrow> char \<Rightarrow> bool" where
  "byte_in lo hi c \<longleftrightarrow> lo \<le> of_char c \<and> of_char c \<le> hi"

definition utf8_width :: "char \<Rightarrow> nat" where
  "utf8_width b =
     (if byte_in 0 0x7F b then 1 else if byte_in 0xC2 0xDF b then 2
      else if byte_in 0xE0 0xEF b then 3 else if byte_in 0xF0 0xF4 b then 4 else 0)"

definition utf8_second :: "char \<Rightarrow> char \<Rightarrow> bool" where
  "utf8_second b c \<longleftrightarrow>
     (if byte_in 0xE0 0xE0 b then byte_in 0xA0 0xBF c
      else if byte_in 0xED 0xED b then byte_in 0x80 0x9F c
      else if byte_in 0xF0 0xF0 b then byte_in 0x90 0xBF c
      else if byte_in 0xF4 0xF4 b then byte_in 0x80 0x8F c
      else byte_in 0x80 0xBF c)"

fun utf8_tail :: "nat \<Rightarrow> nat \<Rightarrow> string \<Rightarrow> nat \<times> bool" where
  "utf8_tail n 0 s = (n, True)"
| "utf8_tail n (Suc k) [] = (n, False)"
| "utf8_tail n (Suc k) (c # s) =
     (if byte_in 0x80 0xBF c then utf8_tail (Suc n) k s else (n, False))"

fun utf8_head :: "string \<Rightarrow> nat \<times> bool" where
  "utf8_head [] = (0, True)"
| "utf8_head (b # s) =
     (if utf8_width b = 0 then (1, False)
      else if utf8_width b = 1 then (1, True)
      else (case s of
              [] \<Rightarrow> (1, False)
            | c # s' \<Rightarrow>
                if utf8_second b c then utf8_tail 2 (utf8_width b - 2) s' else (1, False)))"

lemma utf8_tail_ge: "n \<le> fst (utf8_tail n k s)"
  by (induction n k s rule: utf8_tail.induct) auto

lemma utf8_head_pos: "s \<noteq> [] \<Longrightarrow> 0 < fst (utf8_head s)"
proof (cases s)
  case (Cons b t)
  have "0 < fst (utf8_tail 2 k u)" for k u
    using utf8_tail_ge [of 2 k u] by simp
  with Cons show ?thesis by (auto split: list.splits)
qed simp

lemma utf8_drop_less: "s \<noteq> [] \<Longrightarrow> length (drop (fst (utf8_head s)) s) < length s"
  using utf8_head_pos [of s] by (simp add: diff_less)

function to_string_lossy :: "string \<Rightarrow> string" where
  "to_string_lossy s =
     (if s = [] then []
      else (if snd (utf8_head s) then take (fst (utf8_head s)) s
            else [CHR 0xEF, CHR 0xBF, CHR 0xBD]) @ to_string_lossy (drop (fst (utf8_head s)) s))"
  by pat_completeness auto
termination
  by (relation "measure length") (auto simp: utf8_drop_less simp del: length_drop)

declare to_string_lossy.simps [simp del]

function is_utf8 :: "string \<Rightarrow> bool" where
  "is_utf8 s =
     (if s = [] then True else snd (utf8_head s) \<and> is_utf8 (drop (fst (utf8_head s)) s))"
  by pat_completeness auto
termination
  by (relation "measure length") (auto simp: utf8_drop_less simp del: length_drop)

declare is_utf8.simps [simp del]

lemma to_string_lossy_utf8: "is_utf8 s \<Longrightarrow> to_string_lossy s = s"
proof (induction s rule: to_string_lossy.induct)
  case (1 s)
  show ?case
  proof (cases "s = []")
    case True
    then show ?thesis by (simp add: to_string_lossy.simps)
  next
    case False
    with "1.prems" have "snd (utf8_head s)" "is_utf8 (drop (fst (utf8_head s)) s)"
      by (simp_all add: is_utf8.simps [of s])
    with "1.IH" False show ?thesis by (simp add: to_string_lossy.simps [of s])
  qed
qed

end
