(* ===== verification/Grpc_Error.thy ===== *)
theory Grpc_Error
  imports Rust_Str
begin

text \<open>
  The error type of \<open>src/src/error.rs\<close> with the \<open>Display\<close> text each variant derives, and the
  fact that the text determines the error: callers match on its stable prefix.
\<close>

datatype grpc_error =
    Connection string
  | Proto string
  | ProtoCompile string
  | Call string
  | Timeout u64

type_synonym 'a grpc_result = "('a, grpc_error) result"

definition show_u64 :: "u64 \<Rightarrow> string" where
  "show_u64 n = show_nat (unat n)"

definition show_i64 :: "i64 \<Rightarrow> string" where
  "show_i64 n = show_int (sint n)"

fun display_error :: "grpc_error \<Rightarrow> string" where
  "display_error (Connection s) = ''Connection error: '' @ s"
| "display_error (Proto s) = ''Proto error: '' @ s"
| "display_error (ProtoCompile s) = ''Proto compile error: '' @ s"
| "display_error (Call s) = ''gRPC call failed: '' @ s"
| "display_error (Timeout n) = ''Request timeout: '' @ show_u64 n @ ''ms''"

lemma show_u64_inject [simp]: "show_u64 m = show_u64 n \<longleftrightarrow> m = n"
  by (simp add: show_u64_def word_unat_eq_iff)

text \<open>
  The rendered text of an error determines the error, variant and payload: no two distinct
  errors are reported to SQL in the same words.
\<close>

theorem display_error_inject: "display_error d = display_error e \<longleftrightarrow> d = e"
  by (cases d; cases e) auto

end
