(* ===== verification/Endpoint.thy ===== *)
theory Endpoint
  imports Grpc_Error
begin

text \<open>Endpoint validation (\<open>src/src/endpoint.rs\<close>) and exactly which strings it accepts.\<close>

definition validate_endpoint :: "string \<Rightarrow> string grpc_result" where
  "validate_endpoint endpoint =
     (let trimmed = trim endpoint in
      if trimmed = [] then Err (Connection ''endpoint must not be empty'')
      else if contains_str ''://'' trimmed then
        Err (Connection (''endpoint must not contain scheme (found '' @ [CHR 0x27] @ ''://'' @ [CHR 0x27] @ ''): '' @ trimmed))
      else if CHR ''/'' \<in> set trimmed then
        Err (Connection (''endpoint must not contain path (found '' @ [CHR 0x27] @ ''/'' @ [CHR 0x27] @ ''): '' @ trimmed))
      else Ok trimmed)"

lemma validate_endpoint_Ok:
  "validate_endpoint e = Ok h \<longleftrightarrow> h = trim e \<and> h \<noteq> [] \<and> CHR ''/'' \<notin> set h"
proof -
  have "contains_str ''://'' h \<Longrightarrow> CHR ''/'' \<in> set h"
    using contains_str_set [of "''://''" h] by simp
  then show ?thesis by (auto simp: validate_endpoint_def Let_def)
qed

lemma validate_endpoint_Err: "validate_endpoint e = Err d \<Longrightarrow> \<exists>s. d = Connection s"
  by (auto simp: validate_endpoint_def Let_def split: if_splits)

text \<open>
  C31: \<open>validate_endpoint\<close> accepts exactly the strings that, with surrounding white space removed,
  are non-empty and hold no slash (so no path and no \<open>scheme://\<close>); it returns the trimmed
  string, and everything else is a \<open>Connection\<close> error.
\<close>

theorem validate_endpoint_spec:
  "validate_endpoint e = Ok h \<longleftrightarrow> h = trim e \<and> trim e \<noteq> [] \<and> CHR ''/'' \<notin> set e"
  using trim_keeps [of "CHR ''/''" e] by (auto simp: validate_endpoint_Ok)

text \<open>
  Validation is a normal form: the endpoint it returns is accepted again, unchanged, so the
  cache key computed from it does not depend on how often the endpoint went through validation.
\<close>

theorem validate_endpoint_idem: "validate_endpoint e = Ok h \<Longrightarrow> validate_endpoint h = Ok h"
  by (auto simp: validate_endpoint_Ok)

theorem validate_endpoint_idem_witness:
  "validate_endpoint '' localhost:50051 '' = Ok ''localhost:50051'' \<and>
   validate_endpoint ''localhost:50051'' = Ok ''localhost:50051''"
proof -
  have h: "validate_endpoint '' localhost:50051 '' = Ok ''localhost:50051''" by code_simp
  show ?thesis using h validate_endpoint_idem [OF h] by blast
qed

end
