(* ===== verification/Json_Value.thy ===== *)
theory Json_Value
  imports Grpc_Error
begin

text \<open>
  \<open>serde_json::Value\<close> as the program uses it: the constructors it matches on, a number in one of
  its three representations, an object as its entries in iteration order, and the accessors
  \<open>as_i64\<close>, \<open>as_bool\<close>, \<open>get\<close> and \<open>keys\<close>.  A float is kept as its 64 bits: the program never
  looks into one.
\<close>

datatype number = PosInt u64 | NegInt i64 | Float "64 word"

datatype json =
    JNull
  | JBool bool
  | JNumber number
  | JString string
  | JArray "json list"
  | JObject "(string \<times> json) list"

type_synonym json_map = "(string \<times> json) list"

fun as_i64 :: "json \<Rightarrow> i64 option" where
  "as_i64 (JNumber (PosInt n)) = (if uint n \<le> i64_max then Some n else None)"
| "as_i64 (JNumber (NegInt n)) = Some n"
| "as_i64 _ = None"

fun as_bool :: "json \<Rightarrow> bool option" where
  "as_bool (JBool b) = Some b"
| "as_bool _ = None"

definition obj_get :: "json_map \<Rightarrow> string \<Rightarrow> json option" where
  "obj_get m k = map_of m k"

definition obj_keys :: "json_map \<Rightarrow> string list" where
  "obj_keys m = map fst m"

text \<open>The mathematical integer a JSON number denotes, when it denotes one within \<open>i64\<close>.\<close>

fun json_int :: "json \<Rightarrow> int option" where
  "json_int (JNumber (PosInt n)) = (if uint n \<le> i64_max then Some (uint n) else None)"
| "json_int (JNumber (NegInt n)) = Some (sint n)"
| "json_int _ = None"

lemma sint_small_u64: "uint (n :: u64) \<le> i64_max \<Longrightarrow> sint n = uint n"
proof -
  assume "uint n \<le> i64_max"
  then have "uint n < 2 ^ 63" by simp
  moreover have "- (2 ^ 63) \<le> uint n" by (rule order_trans [of _ 0]) simp_all
  ultimately have "signed_take_bit 63 (uint n) = uint n"
    by (subst signed_take_bit_int_eq_self_iff) blast
  then show ?thesis by (simp add: sint_uint)
qed

lemma as_i64_json_int: "json_int v = map_option sint (as_i64 v)"
  by (induction v rule: as_i64.induct) (auto simp: sint_small_u64)

lemma as_i64_None: "as_i64 v = None \<longleftrightarrow> json_int v = None"
  by (simp add: as_i64_json_int)

lemma as_i64_Some: "as_i64 v = Some n \<Longrightarrow> json_int v = Some (sint n)"
  by (simp add: as_i64_json_int)

end
