(* ===== verification/Tls.thy ===== *)
theory Tls
  imports Json_Value
begin

text \<open>
  The \<open>options.tls\<close> object (\<open>src/src/tls.rs\<close>): strict parsing into \<open>tls_config\<close>, and the calls
  \<open>build_client_tls_config\<close> makes on tonic's builder, recorded in order (what tonic does with them
  is not part of the program).
\<close>

section \<open>Parsing\<close>

definition tls_accepted_fields :: "string list" where
  "tls_accepted_fields = [''ca_cert'', ''client_cert'', ''client_key'', ''domain_name'']"

type_synonym bytes = "char list"

datatype tls_config =
  Tls_Config (ca_cert: "bytes option") (client_cert: "bytes option")
    (client_key: "bytes option") (domain_name: "string option")

text \<open>A character that a HOL string literal cannot hold: the apostrophe of the messages.\<close>

definition quoted :: "string \<Rightarrow> string" where
  "quoted s = [CHR 0x27] @ s @ [CHR 0x27]"

fun parse_string_field :: "json_map \<Rightarrow> string \<Rightarrow> string option grpc_result" where
  "parse_string_field obj field =
     (case obj_get obj field of
        None \<Rightarrow> Ok None
      | Some JNull \<Rightarrow> Ok None
      | Some (JString s) \<Rightarrow>
          if trim s = [] then Err (Connection (''tls: '' @ field @ '' must not be empty''))
          else Ok (Some s)
      | Some _ \<Rightarrow> Err (Connection (''tls: '' @ field @ '' must be a string'')))"

text \<open>\<open>String::into_bytes\<close> keeps the bytes.\<close>

definition parse_pem_field :: "json_map \<Rightarrow> string \<Rightarrow> bytes option grpc_result" where
  "parse_pem_field obj field = map_ok (map_option (\<lambda>s. s)) (parse_string_field obj field)"

fun check_identity :: "tls_config \<Rightarrow> tls_config grpc_result" where
  "check_identity (Tls_Config ca (Some c) None d) =
     Err (Connection ''tls: client_cert requires client_key'')"
| "check_identity (Tls_Config ca None (Some k) d) =
     Err (Connection ''tls: client_key requires client_cert'')"
| "check_identity cfg = Ok cfg"

definition tls_parse :: "json \<Rightarrow> tls_config grpc_result" where
  "tls_parse value =
     (case value of
        JObject obj \<Rightarrow>
          (case find (\<lambda>key. key \<notin> set tls_accepted_fields) (obj_keys obj) of
             Some key \<Rightarrow>
               Err (Connection (''tls: unknown key '' @ quoted key @ '' (accepted fields: '' @
                 join_str '', '' tls_accepted_fields @ '')''))
           | None \<Rightarrow>
               bind_result (parse_pem_field obj ''ca_cert'') (\<lambda>ca.
               bind_result (parse_pem_field obj ''client_cert'') (\<lambda>cert.
               bind_result (parse_pem_field obj ''client_key'') (\<lambda>key.
               bind_result (parse_string_field obj ''domain_name'') (\<lambda>domain.
               check_identity (Tls_Config ca cert key domain))))))
      | _ \<Rightarrow> Err (Connection (''tls must be a JSON object (accepted fields: '' @
               join_str '', '' tls_accepted_fields @ '')'')))"

declare parse_string_field.simps [simp del]

lemma parse_pem_field_eq: "parse_pem_field obj field = parse_string_field obj field"
  by (cases "parse_string_field obj field") (simp_all add: parse_pem_field_def option.map_ident)

text \<open>What a present string field is: absent and null read as no value, blanks are refused.\<close>

fun tls_field_value :: "json option \<Rightarrow> string option option" where
  "tls_field_value None = Some None"
| "tls_field_value (Some JNull) = Some None"
| "tls_field_value (Some (JString s)) = (if trim s = [] then None else Some (Some s))"
| "tls_field_value (Some _) = None"

lemma parse_string_field_Ok:
  "parse_string_field obj f = Ok r \<longleftrightarrow> tls_field_value (obj_get obj f) = Some r"
proof (cases "obj_get obj f")
  case None
  then show ?thesis by (auto simp: parse_string_field.simps)
next
  case (Some j)
  then show ?thesis by (cases j) (auto simp: parse_string_field.simps)
qed

lemma parse_string_field_Err: "parse_string_field obj f = Err e \<Longrightarrow> \<exists>s. e = Connection s"
  by (auto simp: parse_string_field.simps split: option.splits json.splits if_splits)

lemma tls_field_value_nonblank: "tls_field_value z = Some (Some s) \<Longrightarrow> trim s \<noteq> []"
  by (induction z rule: tls_field_value.induct) (auto split: if_splits)

lemma check_identity_Ok:
  "check_identity c = Ok d \<longleftrightarrow> d = c \<and> (client_cert c = None \<longleftrightarrow> client_key c = None)"
  by (induction c rule: check_identity.induct) auto

lemma check_identity_Err: "check_identity c = Err e \<Longrightarrow> \<exists>s. e = Connection s"
  by (induction c rule: check_identity.induct) auto

lemma tls_parse_Err: "tls_parse v = Err e \<Longrightarrow> \<exists>s. e = Connection s"
  by (cases v)
     (auto simp: tls_parse_def result_split parse_pem_field_eq
       dest!: parse_string_field_Err check_identity_Err split: option.splits)

text \<open>
  C30: \<open>TlsConfig::parse\<close> returns a configuration exactly for objects with accepted keys only, each
  field absent, null or a non-blank string, with the field values as given and with the client
  certificate and the client key either both present or both absent.
\<close>

theorem tls_parse_spec:
  "tls_parse v = Ok cfg \<longleftrightarrow>
     (\<exists>obj. v = JObject obj \<and> set (obj_keys obj) \<subseteq> set tls_accepted_fields
        \<and> tls_field_value (obj_get obj ''ca_cert'') = Some (ca_cert cfg)
        \<and> tls_field_value (obj_get obj ''client_cert'') = Some (client_cert cfg)
        \<and> tls_field_value (obj_get obj ''client_key'') = Some (client_key cfg)
        \<and> tls_field_value (obj_get obj ''domain_name'') = Some (domain_name cfg)
        \<and> (client_cert cfg = None \<longleftrightarrow> client_key cfg = None))"
proof (cases v)
  case (JObject obj)
  have keys: "find (\<lambda>key. key \<notin> set tls_accepted_fields) (obj_keys obj) = None
      \<longleftrightarrow> set (obj_keys obj) \<subseteq> set tls_accepted_fields"
    by (auto simp: find_None_iff)
  show ?thesis
  proof (cases "find (\<lambda>key. key \<notin> set tls_accepted_fields) (obj_keys obj)")
    case None
    with JObject keys show ?thesis
      by (cases cfg)
         (auto simp: tls_parse_def result_split parse_pem_field_eq parse_string_field_Ok
           check_identity_Ok)
  next
    case (Some key)
    with JObject keys show ?thesis by (simp add: tls_parse_def)
  qed
qed (simp_all add: tls_parse_def)

section \<open>The tonic builder\<close>

datatype tls_call =
    With_Native_Roots
  | Ca_Certificate bytes
  | Identity_Pem bytes bytes
  | Domain_Name string

type_synonym client_tls_config = "tls_call list"

definition build_client_tls_config :: "tls_config \<Rightarrow> client_tls_config" where
  "build_client_tls_config self =
     (let cfg = [With_Native_Roots];
          cfg = (case ca_cert self of Some ca \<Rightarrow> cfg @ [Ca_Certificate ca] | None \<Rightarrow> cfg);
          cfg = (case (client_cert self, client_key self) of
                   (Some cert, Some key) \<Rightarrow> cfg @ [Identity_Pem cert key] | _ \<Rightarrow> cfg);
          cfg = (case domain_name self of Some d \<Rightarrow> cfg @ [Domain_Name d] | None \<Rightarrow> cfg)
      in cfg)"

lemma build_client_tls_config_eq:
  "build_client_tls_config c =
     With_Native_Roots #
       (case ca_cert c of None \<Rightarrow> [] | Some ca \<Rightarrow> [Ca_Certificate ca]) @
       (case (client_cert c, client_key c) of (Some ct, Some k) \<Rightarrow> [Identity_Pem ct k] | _ \<Rightarrow> []) @
       (case domain_name c of None \<Rightarrow> [] | Some d \<Rightarrow> [Domain_Name d])"
  by (simp add: build_client_tls_config_def Let_def split: option.splits)

lemma tls_parse_identity:
  "tls_parse v = Ok cfg \<Longrightarrow> client_cert cfg = None \<longleftrightarrow> client_key cfg = None"
  by (auto simp: tls_parse_def result_split check_identity_Ok split: json.splits option.splits)

lemma build_client_tls_config_inject:
  assumes "tls_parse v = Ok cfg" and "tls_parse w = Ok cfg'"
  shows "build_client_tls_config cfg = build_client_tls_config cfg' \<longleftrightarrow> cfg = cfg'"
  using tls_parse_identity [OF assms(1)] tls_parse_identity [OF assms(2)]
  by (cases cfg; cases cfg') (auto simp: build_client_tls_config_eq split: option.splits)

text \<open>
  From a parsed configuration no setting is lost on the way to tonic: the OS trust store is
  always enabled first, and the CA, the identity and the domain override are passed on exactly when
  they were configured, with the configured bytes.
\<close>

theorem tls_build_faithful:
  assumes "tls_parse v = Ok cfg"
  shows "hd (build_client_tls_config cfg) = With_Native_Roots \<and>
    (Ca_Certificate ca \<in> set (build_client_tls_config cfg) \<longleftrightarrow> ca_cert cfg = Some ca) \<and>
    (Identity_Pem c k \<in> set (build_client_tls_config cfg) \<longleftrightarrow>
       client_cert cfg = Some c \<and> client_key cfg = Some k) \<and>
    (client_cert cfg \<noteq> None \<longleftrightarrow> (\<exists>a b. Identity_Pem a b \<in> set (build_client_tls_config cfg))) \<and>
    (Domain_Name d \<in> set (build_client_tls_config cfg) \<longleftrightarrow> domain_name cfg = Some d)"
  using tls_parse_identity [OF assms] by (auto simp: build_client_tls_config_eq split: option.splits)

theorem tls_build_faithful_witness:
  "\<exists>cfg. tls_parse (JObject [(''client_cert'', JString ''C''), (''client_key'', JString ''K'')]) = Ok cfg
     \<and> Identity_Pem ''C'' ''K'' \<in> set (build_client_tls_config cfg)"
proof -
  let ?v = "JObject [(''client_cert'', JString ''C''), (''client_key'', JString ''K'')]"
  have h: "tls_parse ?v = Ok (Tls_Config None (Some ''C'') (Some ''K'') None)" by code_simp
  have "Identity_Pem ''C'' ''K'' \<in>
      set (build_client_tls_config (Tls_Config None (Some ''C'') (Some ''K'') None))"
    using tls_build_faithful [OF h] by simp
  with h show ?thesis by blast
qed

end
