(* ===== verification/Channel_Cache.thy ===== *)
theory Channel_Cache
  imports Endpoint Tls
begin

text \<open>
  The channel cache of one process (\<open>src/src/channel_cache.rs\<close>).  \<open>get_or_connect\<close> has one
  suspension point, the dial: \<open>connect_start\<close> is the code before it, \<open>connect_finish\<close> the code
  after it, which reads the cache again (other tasks may have run in between).  A channel is a value
  of tonic, so its type is a parameter, as are tonic's checks of the URI and of the TLS settings.
\<close>

type_synonym channel_key = "string \<times> tls_config option"

type_synonym 'ch channels = "(channel_key, 'ch) hash_map"

text \<open>The endpoint builder \<open>Channel::from_shared(uri).tls_config(cfg)\<close>: what it was given.\<close>

record endpoint_builder =
  eb_uri :: string
  eb_tls :: "client_tls_config option"

record transport_api =
  tp_from_shared :: "string \<Rightarrow> (unit, string) result"
  tp_tls_config :: "client_tls_config \<Rightarrow> (unit, string) result"

datatype 'ch connect_step = Cached 'ch | Dial channel_key endpoint_builder

definition connect_start ::
  "transport_api \<Rightarrow> string \<Rightarrow> tls_config option \<Rightarrow> 'ch channels \<Rightarrow> 'ch connect_step grpc_result" where
  "connect_start api endpoint tls channels =
     bind_result (validate_endpoint endpoint) (\<lambda>host.
       let key = (host, tls) in
       case hm_get channels key of
         Some channel \<Rightarrow> Ok (Cached channel)
       | None \<Rightarrow>
           let scheme = (if tls \<noteq> None then ''https'' else ''http'');
               uri = scheme @ ''://'' @ host in
           bind_result (map_err Connection (tp_from_shared api uri)) (\<lambda>_.
             case tls of
               None \<Rightarrow> Ok (Dial key \<lparr>eb_uri = uri, eb_tls = None\<rparr>)
             | Some tls_cfg \<Rightarrow>
                 let cfg = build_client_tls_config tls_cfg in
                 bind_result (map_err (\<lambda>e. Connection (''TLS config: '' @ e)) (tp_tls_config api cfg))
                   (\<lambda>_. Ok (Dial key \<lparr>eb_uri = uri, eb_tls = Some cfg\<rparr>))))"

definition connect_finish ::
  "channel_key \<Rightarrow> ('ch, string) result \<Rightarrow> 'ch channels \<Rightarrow> 'ch grpc_result \<times> 'ch channels" where
  "connect_finish key dialled channels =
     (case dialled of
        Err e \<Rightarrow> (Err (Connection (fst key @ '': '' @ e)), channels)
      | Ok channel \<Rightarrow>
          (let (held, channels') = hm_or_insert key channel channels in (Ok held, channels')))"

text \<open>The whole function, when nothing else runs during the dial.\<close>

definition get_or_connect ::
  "transport_api \<Rightarrow> (endpoint_builder \<Rightarrow> ('ch, string) result poll) \<Rightarrow> string \<Rightarrow> tls_config option
     \<Rightarrow> 'ch channels \<Rightarrow> 'ch grpc_result poll \<times> 'ch channels" where
  "get_or_connect api dial endpoint tls channels =
     (case connect_start api endpoint tls channels of
        Err e \<Rightarrow> (Ready (Err e), channels)
      | Ok (Cached channel) \<Rightarrow> (Ready (Ok channel), channels)
      | Ok (Dial key builder) \<Rightarrow>
          (case dial builder of
             Elapsed \<Rightarrow> (Elapsed, channels)
           | Ready dialled \<Rightarrow>
               (let (r, channels') = connect_finish key dialled channels in (Ready r, channels'))))"

definition channels_len :: "'ch channels \<Rightarrow> nat" where
  "channels_len channels = length channels"

definition channels_clear :: "'ch channels \<Rightarrow> 'ch channels" where
  "channels_clear channels = []"

section \<open>The cache as a write-once map\<close>

definition cache_add :: "channel_key \<Rightarrow> 'ch \<Rightarrow> 'ch channels \<Rightarrow> 'ch channels" where
  "cache_add key channel channels = snd (connect_finish key (Ok channel) channels)"

lemma cache_add_eq: "cache_add key ch m = snd (hm_or_insert key ch m)"
  by (simp add: cache_add_def connect_finish_def split: prod.splits)

interpretation cached: write_once_map "[]" hm_get "\<lambda>m. m" hm_wf cache_add
  by unfold_locales (auto simp: cache_add_eq hm_get_or_insert hm_entries hm_wf_def [symmetric])

lemma connect_finish_Ok:
  "connect_finish key dialled m = (Ok ch, m') \<longleftrightarrow>
     (\<exists>c. dialled = Ok c \<and> m' = cache_add key c m \<and> hm_get m' key = Some ch)"
  by (auto simp: connect_finish_def cache_add_eq hm_or_insert_def
      split: result.splits option.splits prod.splits)

lemma connect_finish_Err:
  "connect_finish key dialled m = (Err e, m') \<longleftrightarrow>
     (\<exists>d. dialled = Err d \<and> e = Connection (fst key @ '': '' @ d) \<and> m' = m)"
  by (auto simp: connect_finish_def split: result.splits prod.splits)

lemma connect_finish_keeps:
  "connect_finish key dialled m = (r, m') \<Longrightarrow> hm_get m k = Some c \<Longrightarrow> hm_get m' k = Some c"
  by (cases r) (auto simp: connect_finish_Ok connect_finish_Err cached.add_keeps)

lemma connect_finish_wf:
  "connect_finish key dialled m = (r, m') \<Longrightarrow> hm_wf m \<Longrightarrow> hm_wf m'"
  by (cases r) (auto simp: connect_finish_Ok connect_finish_Err cached.wf_add)

lemma connect_start_Cached:
  "connect_start api ep tls m = Ok (Cached ch) \<longleftrightarrow>
     (\<exists>host. validate_endpoint ep = Ok host \<and> hm_get m (host, tls) = Some ch)"
  by (auto simp: connect_start_def result_split Let_def split: option.splits)

lemma connect_start_Dial:
  "connect_start api ep tls m = Ok (Dial key b) \<Longrightarrow>
     \<exists>host. validate_endpoint ep = Ok host \<and> key = (host, tls) \<and> hm_get m key = None
       \<and> eb_uri b = (if tls \<noteq> None then ''https'' else ''http'') @ ''://'' @ host
       \<and> eb_tls b = map_option build_client_tls_config tls"
  by (auto simp: connect_start_def result_split Let_def split: option.splits)

lemma get_or_connect_keeps:
  "get_or_connect api dial ep tls m = (r, m') \<Longrightarrow> hm_get m k = Some c \<Longrightarrow> hm_get m' k = Some c"
  by (auto simp: get_or_connect_def dest: connect_finish_keeps
      split: result.splits connect_step.splits poll.splits prod.splits)

text \<open>
  C21: a successful \<open>get_or_connect\<close> returns exactly the channel the cache then holds for the pair of
  trimmed endpoint and TLS settings: plaintext, TLS and differently configured TLS calls to one
  host never share a channel; entries of other keys, and an entry already there, are untouched;
  a failed or timed-out call leaves the whole cache untouched.
\<close>

theorem get_or_connect_spec:
  assumes "get_or_connect api dial ep tls m = (r, m')"
  shows "(\<forall>ch. r = Ready (Ok ch) \<longrightarrow> hm_get m' (trim ep, tls) = Some ch) \<and>
         (\<forall>k c. hm_get m k = Some c \<longrightarrow> hm_get m' k = Some c) \<and>
         (\<forall>k. k \<noteq> (trim ep, tls) \<longrightarrow> hm_get m' k = hm_get m k) \<and>
         ((\<nexists>ch. r = Ready (Ok ch)) \<longrightarrow> m' = m)"
proof (cases "connect_start api ep tls m")
  case (Err e)
  with assms show ?thesis by (auto simp: get_or_connect_def)
next
  case (Ok step)
  note start = this
  show ?thesis
  proof (cases step)
    case (Cached ch)
    with assms start show ?thesis
      by (auto simp: get_or_connect_def connect_start_Cached validate_endpoint_Ok)
  next
    case (Dial key b)
    then have key: "key = (trim ep, tls)"
      using connect_start_Dial [of api ep tls m key b] start by (auto simp: validate_endpoint_Ok)
    show ?thesis
    proof (cases "dial b")
      case Elapsed
      with assms start Dial show ?thesis by (auto simp: get_or_connect_def)
    next
      case (Ready dialled)
      then obtain r' where r: "r = Ready r'" and fin: "connect_finish key dialled m = (r', m')"
        using assms start Dial by (auto simp: get_or_connect_def split: prod.splits)
      show ?thesis
        using fin key r connect_finish_keeps [OF fin]
        by (cases r') (auto simp: connect_finish_Ok connect_finish_Err cached.get_add)
    qed
  qed
qed

theorem get_or_connect_spec_witness:
  "\<exists>m'. get_or_connect \<lparr>tp_from_shared = \<lambda>_. Ok (), tp_tls_config = \<lambda>_. Ok ()\<rparr>
       (\<lambda>_. Ready (Ok (7 :: nat))) ''h:1'' None [] = (Ready (Ok 7), m')
     \<and> hm_get m' (trim ''h:1'', None) = Some 7"
proof -
  have h: "get_or_connect \<lparr>tp_from_shared = \<lambda>_. Ok (), tp_tls_config = \<lambda>_. Ok ()\<rparr>
      (\<lambda>_. Ready (Ok (7 :: nat))) ''h:1'' None [] = (Ready (Ok 7), [((''h:1'', None), 7)])"
    by code_simp
  show ?thesis using h get_or_connect_spec [OF h] by blast
qed

text \<open>
  C20: two tasks that dial the same key concurrently end up on one channel: whichever dial lands first
  is kept, the later one is discarded and its task is handed the first one's channel, and so is
  every task that looks the key up afterwards.
\<close>

theorem connect_race_one_channel:
  assumes "hm_get m key = None"
    and "connect_finish key (Ok a) m = (r1, m1)"
    and "fold (\<lambda>(k, c). cache_add k c) others m1 = m2"
    and "connect_finish key (Ok b) m2 = (r2, m3)"
  shows "r1 = Ok a \<and> r2 = Ok a \<and> hm_get m3 key = Some a"
proof -
  have m1: "m1 = cache_add key a m" using assms(2) by (simp add: cache_add_def)
  then have first: "r1 = Ok a \<and> hm_get m1 key = Some a"
    using assms(1,2)
    by (auto simp: connect_finish_def hm_or_insert_def cached.get_add split: prod.splits option.splits)
  then have "hm_get m2 key = Some a" using assms(3) cached.adds_keep by metis
  with first assms(4) show ?thesis
    by (auto simp: connect_finish_def hm_or_insert_def split: prod.splits)
qed

theorem connect_race_one_channel_witness:
  "connect_finish (''h:1'', None) (Ok (2 :: nat)) [((''h:1'', None), 1)] = (Ok 1, [((''h:1'', None), 1)])"
proof -
  have a: "hm_get ([] :: nat channels) (''h:1'', None) = None" by simp
  have b: "connect_finish (''h:1'', None) (Ok (1 :: nat)) [] = (Ok 1, [((''h:1'', None), 1)])" by code_simp
  have c: "fold (\<lambda>(k, c). cache_add k c) [] [((''h:1'', None), 1 :: nat)] = [((''h:1'', None), 1)]" by simp
  obtain r2 m3 where d: "connect_finish (''h:1'', None) (Ok (2 :: nat)) [((''h:1'', None), 1)] = (r2, m3)"
    by fastforce
  have "r2 = Ok 1" using connect_race_one_channel [OF a b c d] by blast
  moreover from d have "m3 = [((''h:1'', None), 1)]"
    by (auto simp: connect_finish_def hm_or_insert_def split: prod.splits)
  ultimately show ?thesis using d by simp
qed

end
