(* ===== verification/Options.thy ===== *)
theory Options
  imports Tls
begin

text \<open>The \<open>options\<close> object of a call (\<open>src/src/options.rs\<close>), its checks and its defaults.\<close>

definition accepted_keys :: "string list" where
  "accepted_keys =
     [''timeout_ms'', ''use_reflection'', ''tls'',
      ''max_decode_message_size_bytes'', ''max_encode_message_size_bytes'']"

record options_config =
  opt_timeout_ms :: "u64 option"
  opt_use_reflection :: "bool option"
  opt_tls :: "tls_config option"
  opt_max_decode :: "u32 option"
  opt_max_encode :: "u32 option"

definition default_options :: options_config where
  "default_options =
     \<lparr>opt_timeout_ms = None, opt_use_reflection = None, opt_tls = None,
      opt_max_decode = None, opt_max_encode = None\<rparr>"

section \<open>Field parsers\<close>

text \<open>\<open>n as u32\<close> keeps the low 32 bits, \<open>n as u64\<close> the same 64 bits.\<close>

definition size_range_error :: "string \<Rightarrow> i64 \<Rightarrow> grpc_error" where
  "size_range_error key n =
     Connection (''options.'' @ key @ '' must be in [1, '' @ show_int u32_max @ ''] (got '' @ show_i64 n @ '')'')"

definition parse_size_u32 :: "string \<Rightarrow> json \<Rightarrow> u32 grpc_result" where
  "parse_size_u32 key value =
     bind_result (ok_or (as_i64 value) (Connection (''options.'' @ key @ '' must be an integer''))) (\<lambda>n.
       if sint n < 1 then Err (size_range_error key n)
       else if sint n > u32_max then Err (size_range_error key n)
       else Ok (ucast n))"

definition parse_bool :: "string \<Rightarrow> json \<Rightarrow> bool grpc_result" where
  "parse_bool key value =
     ok_or (as_bool value) (Connection (''options.'' @ key @ '' must be a boolean''))"

definition parse_positive_u64 :: "string \<Rightarrow> json \<Rightarrow> u64 grpc_result" where
  "parse_positive_u64 key value =
     bind_result (ok_or (as_i64 value) (Connection (''options.'' @ key @ '' must be an integer''))) (\<lambda>n.
       if sint n < 1 then
         Err (Connection (''options.'' @ key @ '' must be >= 1 (got '' @ show_i64 n @ '')''))
       else Ok n)"

text \<open>\<open>if let Some(v) = obj.get(key) { field = Some(parse(key, v)?) }\<close>\<close>

definition opt_field ::
  "json_map \<Rightarrow> string \<Rightarrow> (string \<Rightarrow> json \<Rightarrow> 'a grpc_result) \<Rightarrow> 'a option grpc_result" where
  "opt_field obj key parse =
     (case obj_get obj key of None \<Rightarrow> Ok None | Some v \<Rightarrow> map_ok Some (parse key v))"

definition parse_tls_field :: "string \<Rightarrow> json \<Rightarrow> tls_config option grpc_result" where
  "parse_tls_field key v =
     (case v of
        JNull \<Rightarrow> Ok None
      | JObject _ \<Rightarrow> map_ok Some (tls_parse v)
      | _ \<Rightarrow> Err (Connection ''options.tls must be an object''))"

section \<open>OptionsConfig::parse\<close>

definition options_parse :: "json \<Rightarrow> options_config grpc_result" where
  "options_parse value =
     (case value of
        JNull \<Rightarrow> Ok default_options
      | JObject obj \<Rightarrow>
          (case find (\<lambda>key. key \<notin> set accepted_keys) (obj_keys obj) of
             Some key \<Rightarrow>
               Err (Connection (''options: unknown key '' @ quoted key @ '' (accepted keys: '' @
                 join_str '', '' accepted_keys @ '')''))
           | None \<Rightarrow>
               bind_result (opt_field obj ''timeout_ms'' parse_positive_u64) (\<lambda>timeout.
               bind_result (opt_field obj ''use_reflection'' parse_bool) (\<lambda>reflection.
               bind_result (opt_field obj ''tls'' parse_tls_field) (\<lambda>tls.
               bind_result (opt_field obj ''max_decode_message_size_bytes'' parse_size_u32) (\<lambda>dec.
               bind_result (opt_field obj ''max_encode_message_size_bytes'' parse_size_u32) (\<lambda>enc.
               Ok \<lparr>opt_timeout_ms = timeout, opt_use_reflection = reflection,
                   opt_tls = (case tls of None \<Rightarrow> None | Some t \<Rightarrow> t),
                   opt_max_decode = dec, opt_max_encode = enc\<rparr>))))))
      | _ \<Rightarrow> Err (Connection (''options must be a JSON object (accepted keys: '' @
               join_str '', '' accepted_keys @ '')'')))"

lemma uint_ucast_u32:
  fixes n :: i64
  assumes "0 \<le> sint n" "sint n \<le> u32_max"
  shows "uint (ucast n :: u32) = sint n"
proof -
  have "uint n = sint n" using assms(1) by (rule uint_eq_sint_of_nonneg)
  with assms show ?thesis
    by (simp add: unsigned_ucast_eq take_bit_int_eq_self_iff)
qed

lemma parse_size_u32_Ok:
  "parse_size_u32 key v = Ok w \<longleftrightarrow> json_int v = Some (uint w) \<and> 1 \<le> uint w"
proof (cases "as_i64 v")
  case None
  then show ?thesis by (simp add: parse_size_u32_def as_i64_json_int)
next
  case (Some n)
  have bound: "uint w \<le> u32_max" using unsigned_less [of w, where 'a = int] by simp
  show ?thesis
    using Some uint_ucast_u32 [of n] bound
    by (auto simp: parse_size_u32_def as_i64_json_int word_uint_eq_iff)
qed

lemma parse_positive_u64_Ok:
  "parse_positive_u64 key v = Ok w \<longleftrightarrow>
     json_int v = Some (uint w) \<and> 1 \<le> uint w \<and> uint w \<le> i64_max"
proof (cases "as_i64 v")
  case None
  then show ?thesis by (simp add: parse_positive_u64_def as_i64_json_int)
next
  case (Some n)
  have "sint n \<le> i64_max" using sint_i64_bounds [of n] by simp
  with Some show ?thesis
    using uint_eq_sint_of_nonneg [of n] sint_small_u64 [of w]
    by (auto simp: parse_positive_u64_def as_i64_json_int word_uint_eq_iff)
qed

lemma parse_bool_Ok: "parse_bool key v = Ok b \<longleftrightarrow> v = JBool b"
  by (induction v rule: as_bool.induct) (auto simp: parse_bool_def)

lemma opt_field_Ok:
  "opt_field obj key parse = Ok r \<longleftrightarrow>
     (case obj_get obj key of None \<Rightarrow> r = None | Some v \<Rightarrow> \<exists>x. parse key v = Ok x \<and> r = Some x)"
  by (auto simp: opt_field_def result_split split: option.splits)

lemma opt_field_Err: "opt_field obj key parse = Err e \<Longrightarrow> \<exists>v. parse key v = Err e"
  by (auto simp: opt_field_def split: option.splits)

lemma parse_size_u32_Err: "parse_size_u32 key v = Err e \<Longrightarrow> \<exists>s. e = Connection s"
  by (auto simp: parse_size_u32_def size_range_error_def result_split split: if_splits)

lemma parse_positive_u64_Err: "parse_positive_u64 key v = Err e \<Longrightarrow> \<exists>s. e = Connection s"
  by (auto simp: parse_positive_u64_def result_split split: if_splits)

lemma parse_bool_Err: "parse_bool key v = Err e \<Longrightarrow> \<exists>s. e = Connection s"
  by (auto simp: parse_bool_def)

lemma parse_tls_field_Err: "parse_tls_field key v = Err e \<Longrightarrow> \<exists>s. e = Connection s"
  by (cases v) (auto simp: parse_tls_field_def result_split dest: tls_parse_Err)

text \<open>Every way \<open>options\<close> can be refused is reported under the \<open>Connection error\<close> prefix.\<close>

lemma options_parse_Err: "options_parse v = Err e \<Longrightarrow> \<exists>s. e = Connection s"
  by (cases v)
     (auto simp: options_parse_def result_split split: option.splits
       dest!: opt_field_Err parse_size_u32_Err parse_positive_u64_Err parse_bool_Err parse_tls_field_Err)

section \<open>What the parser accepts\<close>

text \<open>
  The declarative reading of an options field: an absent key gives no value, a present one must
  denote the value (\<open>denotes v x\<close>).
\<close>

definition field_means :: "(json \<Rightarrow> 'a \<Rightarrow> bool) \<Rightarrow> json option \<Rightarrow> 'a option \<Rightarrow> bool" where
  "field_means denotes z r \<longleftrightarrow>
     (case z of None \<Rightarrow> r = None | Some v \<Rightarrow> (\<exists>x. denotes v x \<and> r = Some x))"

lemma opt_field_means:
  "(\<And>v x. parse key v = Ok x \<longleftrightarrow> denotes v x) \<Longrightarrow>
   opt_field obj key parse = Ok r \<longleftrightarrow> field_means denotes (obj_get obj key) r"
  by (cases "obj_get obj key") (simp_all add: opt_field_Ok field_means_def)

lemmas option_fields =
  opt_field_means [OF parse_size_u32_Ok] opt_field_means [OF parse_positive_u64_Ok]
  opt_field_means [OF parse_bool_Ok]

definition tls_means :: "json option \<Rightarrow> tls_config option \<Rightarrow> bool" where
  "tls_means z t \<longleftrightarrow>
     (case z of None \<Rightarrow> t = None | Some JNull \<Rightarrow> t = None
      | Some v \<Rightarrow> (\<exists>c. tls_parse v = Ok c \<and> t = Some c))"

lemma tls_field_Ok:
  "(\<exists>r. opt_field obj key parse_tls_field = Ok r \<and> t = (case r of None \<Rightarrow> None | Some u \<Rightarrow> u))
     \<longleftrightarrow> tls_means (obj_get obj key) t"
proof (cases "obj_get obj key")
  case None
  then show ?thesis by (simp add: opt_field_def tls_means_def)
next
  case (Some v)
  then show ?thesis
    by (cases v)
       (auto simp: opt_field_def tls_means_def parse_tls_field_def result_split tls_parse_def
         intro!: exI [of _ "Some _"])
qed

text \<open>
  C22: \<open>OptionsConfig::parse\<close> accepts JSON null (all defaults) and exactly the objects whose keys
  are all known and whose present fields denote a value of their type: a timeout in
  \<open>[1, i64::MAX]\<close>, a boolean, a TLS object or null, and message caps in \<open>[1, u32::MAX]\<close>; the
  configuration it returns holds those values, with no truncation.
\<close>

theorem options_parse_spec:
  "options_parse v = Ok c \<longleftrightarrow>
     v = JNull \<and> c = default_options \<or>
     (\<exists>obj. v = JObject obj \<and> set (obj_keys obj) \<subseteq> set accepted_keys
        \<and> field_means (\<lambda>j w. json_int j = Some (uint w) \<and> 1 \<le> uint w \<and> uint w \<le> i64_max)
            (obj_get obj ''timeout_ms'') (opt_timeout_ms c)
        \<and> field_means (\<lambda>j b. j = JBool b) (obj_get obj ''use_reflection'') (opt_use_reflection c)
        \<and> tls_means (obj_get obj ''tls'') (opt_tls c)
        \<and> field_means (\<lambda>j w. json_int j = Some (uint w) \<and> 1 \<le> uint w)
            (obj_get obj ''max_decode_message_size_bytes'') (opt_max_decode c)
        \<and> field_means (\<lambda>j w. json_int j = Some (uint w) \<and> 1 \<le> uint w)
            (obj_get obj ''max_encode_message_size_bytes'') (opt_max_encode c))"
proof (cases v)
  case (JObject obj)
  have keys: "find (\<lambda>key. key \<notin> set accepted_keys) (obj_keys obj) = None
      \<longleftrightarrow> set (obj_keys obj) \<subseteq> set accepted_keys"
    by (auto simp: find_None_iff)
  show ?thesis
  proof (cases "find (\<lambda>key. key \<notin> set accepted_keys) (obj_keys obj)")
    case None
    have "options_parse v = Ok c \<longleftrightarrow>
        opt_field obj ''timeout_ms'' parse_positive_u64 = Ok (opt_timeout_ms c)
        \<and> opt_field obj ''use_reflection'' parse_bool = Ok (opt_use_reflection c)
        \<and> (\<exists>r. opt_field obj ''tls'' parse_tls_field = Ok r
              \<and> opt_tls c = (case r of None \<Rightarrow> None | Some u \<Rightarrow> u))
        \<and> opt_field obj ''max_decode_message_size_bytes'' parse_size_u32 = Ok (opt_max_decode c)
        \<and> opt_field obj ''max_encode_message_size_bytes'' parse_size_u32 = Ok (opt_max_encode c)"
      using JObject None by (cases c) (auto simp: options_parse_def result_split)
    with JObject None keys show ?thesis
      by (simp add: tls_field_Ok option_fields)
  next
    case (Some key)
    with JObject keys show ?thesis by (simp add: options_parse_def)
  qed
qed (auto simp: options_parse_def)

text \<open>
  C23: no numeric option wraps around: a size is accepted exactly when the JSON number denotes an
  integer in \<open>[1, 4294967295]\<close>, and the \<open>u32\<close> stored is that integer.
\<close>

theorem parse_size_u32_exact:
  "(\<exists>w. parse_size_u32 key v = Ok w \<and> uint w = i) \<longleftrightarrow> json_int v = Some i \<and> 1 \<le> i \<and> i \<le> u32_max"
proof
  assume "\<exists>w. parse_size_u32 key v = Ok w \<and> uint w = i"
  then obtain w where "parse_size_u32 key v = Ok w" "uint w = i" by blast
  moreover have "uint w \<le> u32_max" using unsigned_less [of w, where 'a = int] by simp
  ultimately show "json_int v = Some i \<and> 1 \<le> i \<and> i \<le> u32_max" by (simp add: parse_size_u32_Ok)
next
  assume r: "json_int v = Some i \<and> 1 \<le> i \<and> i \<le> u32_max"
  then have "uint (word_of_int i :: u32) = i"
    by (simp add: uint_word_of_int_eq take_bit_int_eq_self_iff)
  with r have "parse_size_u32 key v = Ok (word_of_int i)" by (simp add: parse_size_u32_Ok)
  with \<open>uint (word_of_int i :: u32) = i\<close>
  show "\<exists>w. parse_size_u32 key v = Ok w \<and> uint w = i" by blast
qed

end
