(* ===== verification/Proto_Staging.thy ===== *)
theory Proto_Staging
  imports Rust_Str
begin

text \<open>
  The staging area of one backend (\<open>src/src/proto_staging.rs\<close>): the map \<open>PENDING_FILES\<close> from file
  names to proto sources, one operation per function.
\<close>

type_synonym staging = "(string, string) hash_map"

definition stage_file :: "string \<Rightarrow> string \<Rightarrow> staging \<Rightarrow> staging" where
  "stage_file filename source pending = hm_insert filename source pending"

definition staging_snapshot :: "staging \<Rightarrow> staging" where
  "staging_snapshot pending = pending"

definition staging_remove :: "string \<Rightarrow> staging \<Rightarrow> bool \<times> staging" where
  "staging_remove filename pending =
     (hm_get pending filename \<noteq> None, hm_remove filename pending)"

definition staging_list :: "staging \<Rightarrow> (string \<times> string) list" where
  "staging_list pending = map (\<lambda>(name, source). (name, source)) pending"

definition staging_clear :: "staging \<Rightarrow> staging" where
  "staging_clear pending = []"

interpretation staged: mutable_map "[]" hm_get staging_list hm_wf stage_file
  "\<lambda>filename pending. snd (staging_remove filename pending)"
  by unfold_locales
     (auto simp: stage_file_def staging_remove_def staging_list_def hm_entries
       hm_wf_def [symmetric] case_prod_beta')

lemma staging_clear_get [simp]: "hm_get (staging_clear p) f = None"
  by (simp add: staging_clear_def)

end
