(* ===== verification/Proto.thy ===== *)
theory Proto
  imports Proto_Staging Grpc_Error
begin

text \<open>
  Descriptor pools (\<open>src/src/proto.rs\<close>): fetching one through server reflection, compiling one from
  staged sources, and seeding it with the well-known types.  prost-reflect's \<open>DescriptorPool\<close> and
  protox's compiler are parameters: records of the operations the code calls.
\<close>

section \<open>The library operations used\<close>

record 'd grpc_method =
  m_name :: string
  m_input :: 'd
  m_output :: 'd

record 'd service =
  sv_full_name :: string
  sv_file :: string
  sv_methods :: "'d grpc_method list"

record ('p, 'f, 'd) pool_api =
  pool_new :: 'p
  pool_add :: "'f \<Rightarrow> 'p \<Rightarrow> ('p, string) result"
  pool_services :: "'p \<Rightarrow> 'd service list"
  pool_service_by_name :: "'p \<Rightarrow> string \<Rightarrow> 'd service option"
  pool_file_by_name :: "'p \<Rightarrow> string \<Rightarrow> 'f option"
  pool_global_files :: "(string \<times> 'f) list"
  pool_decode_file :: "char list \<Rightarrow> ('f, string) result"

record ('f, 'file, 'cs) protox_api =
  px_from_source :: "string \<Rightarrow> string \<Rightarrow> ('file, string) result"
  px_file_not_found :: "string \<Rightarrow> string"
  px_google :: "string \<Rightarrow> ('file, string) result"
  px_new :: "(string \<Rightarrow> ('file, string) result) list \<Rightarrow> bool \<Rightarrow> 'cs"
  px_open :: "'cs \<Rightarrow> string \<Rightarrow> ('cs, string) result"
  px_file_set :: "'cs \<Rightarrow> 'f list"

text \<open>
  What prost-reflect documents of a pool: adding a file never changes or removes one that is already
  there, nor a service, and an added well-known file is found under its name.
\<close>

definition pool_laws :: "('p, 'f, 'd) pool_api \<Rightarrow> bool" where
  "pool_laws api \<longleftrightarrow>
     (\<forall>f p q. pool_add api f p = Ok q \<longrightarrow>
        (\<forall>n g. pool_file_by_name api p n = Some g \<longrightarrow> pool_file_by_name api q n = Some g)
        \<and> set (pool_services api p) \<subseteq> set (pool_services api q))
     \<and> (\<forall>n f p q. (n, f) \<in> set (pool_global_files api) \<longrightarrow> pool_add api f p = Ok q \<longrightarrow>
          pool_file_by_name api q n = Some f
          \<and> (\<forall>k. k \<noteq> n \<longrightarrow> pool_file_by_name api q k = pool_file_by_name api p k))"

section \<open>Well-known types\<close>

fun backfill_files :: "('p, 'f, 'd) pool_api \<Rightarrow> (string \<times> 'f) list \<Rightarrow> 'p \<Rightarrow> 'p grpc_result" where
  "backfill_files api [] pool = Ok pool"
| "backfill_files api ((name, fdp) # files) pool =
     (if pool_file_by_name api pool name \<noteq> None then backfill_files api files pool
      else bind_result
             (map_err (\<lambda>e. ProtoCompile (''seed WKT '' @ name @ '': '' @ e)) (pool_add api fdp pool))
             (backfill_files api files))"

definition backfill_wkts :: "('p, 'f, 'd) pool_api \<Rightarrow> 'p \<Rightarrow> 'p grpc_result" where
  "backfill_wkts api pool = backfill_files api (pool_global_files api) pool"

section \<open>Compiling staged sources\<close>

definition in_memory_open ::
  "('f, 'file, 'cs) protox_api \<Rightarrow> staging \<Rightarrow> string \<Rightarrow> ('file, string) result" where
  "in_memory_open px files name =
     (case hm_get files name of
        Some source \<Rightarrow> px_from_source px name source
      | None \<Rightarrow> Err (px_file_not_found px name))"

fun open_files :: "('f, 'file, 'cs) protox_api \<Rightarrow> string list \<Rightarrow> 'cs \<Rightarrow> 'cs grpc_result" where
  "open_files px [] compiler = Ok compiler"
| "open_files px (name # names) compiler =
     bind_result (map_err ProtoCompile (px_open px compiler name)) (open_files px names)"

fun add_files :: "('p, 'f, 'd) pool_api \<Rightarrow> 'f list \<Rightarrow> 'p \<Rightarrow> 'p grpc_result" where
  "add_files api [] pool = Ok pool"
| "add_files api (fdp # fdps) pool =
     bind_result (map_err ProtoCompile (pool_add api fdp pool)) (add_files api fdps)"

definition compile_proto_files ::
  "('p, 'f, 'd) pool_api \<Rightarrow> ('f, 'file, 'cs) protox_api \<Rightarrow> staging \<Rightarrow> 'p grpc_result" where
  "compile_proto_files api px files =
     (if files = [] then Err (ProtoCompile ''no proto files supplied'')
      else
        let filenames = map fst files;
            compiler = px_new px [in_memory_open px files, px_google px] True in
        bind_result (open_files px filenames compiler) (\<lambda>compiler.
        bind_result (add_files api (px_file_set px compiler) (pool_new api)) (\<lambda>pool.
        if pool_services api pool = [] then Err (ProtoCompile ''proto source defines no services'')
        else backfill_wkts api pool)))"

section \<open>Server reflection\<close>

datatype status_code = Unimplemented | Internal | Other_Code nat

record status =
  st_code :: status_code
  st_message :: string

definition internal_status :: "string \<Rightarrow> status" where
  "internal_status msg = \<lparr>st_code = Internal, st_message = msg\<rparr>"

datatype reflection_response =
    File_Descriptor_Response "char list list"
  | Error_Response i32 string
  | Other_Response

text \<open>
  The response stream: messages, a transport error, or nothing more before the deadline
  (\<open>Stalled\<close>); the end of the list is the end of the stream.
\<close>

datatype stream_event = Message reflection_response | Stream_Error status | Stalled

datatype reflection_version = V1 | V1alpha

record reflection_request =
  rr_host :: string
  rr_symbol :: string

text \<open>Message-size limits set on a tonic client: \<open>None\<close> leaves tonic's default.\<close>

record size_limits =
  max_decoding :: "nat option"
  max_encoding :: "nat option"

definition client_limits :: "u32 option \<Rightarrow> u32 option \<Rightarrow> size_limits" where
  "client_limits max_decode max_encode =
     \<lparr>max_decoding = map_option unat max_decode, max_encoding = map_option unat max_encode\<rparr>"

type_synonym 'ch reflect_call =
  "reflection_version \<Rightarrow> 'ch \<Rightarrow> size_limits \<Rightarrow> reflection_request \<Rightarrow> (stream_event list, status) result poll"

fun add_descriptors ::
  "('p, 'f, 'd) pool_api \<Rightarrow> char list list \<Rightarrow> 'p \<Rightarrow> ('p, status) result" where
  "add_descriptors api [] pool = Ok pool"
| "add_descriptors api (bytes # rest) pool =
     bind_result (map_err (\<lambda>e. internal_status (''decode FileDescriptorProto: '' @ e))
                    (pool_decode_file api bytes)) (\<lambda>fdp.
     bind_result (map_err (\<lambda>e. internal_status (''add to descriptor pool: '' @ e))
                    (pool_add api fdp pool))
       (add_descriptors api rest))"

fun read_reflection ::
  "('p, 'f, 'd) pool_api \<Rightarrow> stream_event list \<Rightarrow> 'p \<Rightarrow> ('p, status) result poll" where
  "read_reflection api [] pool = Ready (Ok pool)"
| "read_reflection api (Stalled # events) pool = Elapsed"
| "read_reflection api (Stream_Error s # events) pool = Ready (Err s)"
| "read_reflection api (Message (File_Descriptor_Response fdr) # events) pool =
     (case add_descriptors api fdr pool of
        Err s \<Rightarrow> Ready (Err s)
      | Ok pool' \<Rightarrow> read_reflection api events pool')"
| "read_reflection api (Message (Error_Response code msg) # events) pool =
     Ready (Err (internal_status
       (''reflection error (code '' @ show_int (sint code) @ ''): '' @ msg)))"
| "read_reflection api (Message Other_Response # events) pool = read_reflection api events pool"

text \<open>The function \<open>define_fetch!\<close> expands to, for either version of the reflection service.\<close>

definition fetch_version ::
  "('p, 'f, 'd) pool_api \<Rightarrow> 'ch reflect_call \<Rightarrow> reflection_version \<Rightarrow> 'ch \<Rightarrow> string
     \<Rightarrow> u32 option \<Rightarrow> u32 option \<Rightarrow> ('p, status) result poll" where
  "fetch_version api reflect version channel service_name max_decode max_encode =
     (case reflect version channel (client_limits max_decode max_encode)
             \<lparr>rr_host = [], rr_symbol = service_name\<rparr> of
        Elapsed \<Rightarrow> Elapsed
      | Ready (Err s) \<Rightarrow> Ready (Err s)
      | Ready (Ok stream) \<Rightarrow>
          (case read_reflection api stream (pool_new api) of
             Elapsed \<Rightarrow> Elapsed
           | Ready (Err s) \<Rightarrow> Ready (Err s)
           | Ready (Ok pool) \<Rightarrow>
               if pool_services api pool = [] then
                 Ready (Err (internal_status
                   (''reflection returned no descriptors for service: '' @ service_name)))
               else Ready (Ok pool)))"

definition finish_pool :: "('p, 'f, 'd) pool_api \<Rightarrow> ('p, status) result \<Rightarrow> 'p grpc_result" where
  "finish_pool api fetched =
     bind_result (map_err (\<lambda>s. Proto (''reflection: '' @ st_message s)) fetched) (backfill_wkts api)"

definition fetch_pool ::
  "('p, 'f, 'd) pool_api \<Rightarrow> 'ch reflect_call \<Rightarrow> 'ch \<Rightarrow> string
     \<Rightarrow> u32 option \<Rightarrow> u32 option \<Rightarrow> 'p grpc_result poll" where
  "fetch_pool api reflect channel service_name max_decode max_encode =
     (case fetch_version api reflect V1 channel service_name max_decode max_encode of
        Elapsed \<Rightarrow> Elapsed
      | Ready (Ok pool) \<Rightarrow> Ready (finish_pool api (Ok pool))
      | Ready (Err s) \<Rightarrow>
          if st_code s = Unimplemented then
            (case fetch_version api reflect V1alpha channel service_name max_decode max_encode of
               Elapsed \<Rightarrow> Elapsed
             | Ready r \<Rightarrow> Ready (finish_pool api r))
          else Ready (finish_pool api (Err s)))"

section \<open>Properties\<close>

lemma pool_add_keeps:
  "pool_laws api \<Longrightarrow> pool_add api f p = Ok q \<Longrightarrow> pool_file_by_name api p n = Some g \<Longrightarrow>
     pool_file_by_name api q n = Some g"
  by (simp add: pool_laws_def)

lemma pool_add_global:
  "pool_laws api \<Longrightarrow> (n, f) \<in> set (pool_global_files api) \<Longrightarrow> pool_add api f p = Ok q \<Longrightarrow>
     pool_file_by_name api q n = Some f \<and>
     (\<forall>k. k \<noteq> n \<longrightarrow> pool_file_by_name api q k = pool_file_by_name api p k)"
  unfolding pool_laws_def by blast

lemma pool_add_services:
  "pool_laws api \<Longrightarrow> pool_add api f p = Ok q \<Longrightarrow>
     set (pool_services api p) \<subseteq> set (pool_services api q)"
  by (simp add: pool_laws_def)

lemma backfill_files_keeps:
  "pool_laws api \<Longrightarrow> backfill_files api fs p = Ok q \<Longrightarrow>
     pool_file_by_name api p n = Some g \<Longrightarrow> pool_file_by_name api q n = Some g"
  by (induction api fs p rule: backfill_files.induct)
     (auto simp: result_split dest: pool_add_keeps split: if_splits)

lemma backfill_files_services:
  "pool_laws api \<Longrightarrow> backfill_files api fs p = Ok q \<Longrightarrow>
     set (pool_services api p) \<subseteq> set (pool_services api q)"
proof (induction api fs p rule: backfill_files.induct)
  case (2 api name fdp files pool)
  then show ?case
    by (auto simp: result_split split: if_splits dest!: pool_add_services)
qed simp

text \<open>A name the pool lacks gets the bundled file, if the bundle names each file once.\<close>

lemma backfill_files_adds:
  assumes "pool_laws api" and "set fs \<subseteq> set (pool_global_files api)" and "distinct (map fst fs)"
    and "backfill_files api fs p = Ok q" and "(n, f) \<in> set fs"
  shows "pool_file_by_name api q n =
           (case pool_file_by_name api p n of None \<Rightarrow> Some f | Some g \<Rightarrow> Some g)"
  using assms
proof (induction api fs p rule: backfill_files.induct)
  case (2 api name fdp files pool)
  show ?case
  proof (cases "pool_file_by_name api pool name")
    case (Some g)
    then have rest: "backfill_files api files pool = Ok q" using "2.prems"(4) by simp
    show ?thesis
    proof (cases "n = name")
      case True
      with Some show ?thesis
        using backfill_files_keeps [OF "2.prems"(1) rest Some] by simp
    next
      case False
      with "2.prems"(2,3,5) have "set files \<subseteq> set (pool_global_files api)"
          "distinct (map fst files)" "(n, f) \<in> set files" by auto
      moreover have "\<not> pool_file_by_name api pool name = None" using Some by simp
      ultimately show ?thesis using "2.IH"(1) "2.prems"(1) rest by blast
    qed
  next
    case None
    then obtain mid where mid: "pool_add api fdp pool = Ok mid" "backfill_files api files mid = Ok q"
      using "2.prems"(4) by (auto simp: result_split)
    have added: "pool_file_by_name api mid name = Some fdp"
        "\<And>k. k \<noteq> name \<Longrightarrow> pool_file_by_name api mid k = pool_file_by_name api pool k"
      using pool_add_global [OF "2.prems"(1) _ mid(1), of name] "2.prems"(2) by simp_all
    show ?thesis
    proof (cases "n = name")
      case True
      with "2.prems"(3,5) have "f = fdp" by (force simp: image_iff)
      with True None mid(2) added show ?thesis
        using backfill_files_keeps [OF "2.prems"(1) mid(2) added(1)] by simp
    next
      case False
      with "2.prems"(2,3,5) have "set files \<subseteq> set (pool_global_files api)"
          "distinct (map fst files)" "(n, f) \<in> set files" by auto
      then have "pool_file_by_name api q n =
          (case pool_file_by_name api mid n of None \<Rightarrow> Some f | Some g \<Rightarrow> Some g)"
        using "2.IH"(2) None "2.prems"(1) mid(2) by blast
      with False added(2) show ?thesis by simp
    qed
  qed
qed simp

text \<open>
  What seeding amounts to: the bundled files whose names the pool lacks are added, one after the other, and
  nothing else is asked of the pool.
\<close>

fun seed_files :: "('p, 'f, 'd) pool_api \<Rightarrow> (string \<times> 'f) list \<Rightarrow> 'p \<Rightarrow> 'p grpc_result" where
  "seed_files api [] pool = Ok pool"
| "seed_files api ((name, fdp) # files) pool =
     (case pool_add api fdp pool of
        Err e \<Rightarrow> Err (ProtoCompile (''seed WKT '' @ name @ '': '' @ e))
      | Ok pool' \<Rightarrow> seed_files api files pool')"

definition lacking :: "('p, 'f, 'd) pool_api \<Rightarrow> 'p \<Rightarrow> (string \<times> 'f) list \<Rightarrow> (string \<times> 'f) list" where
  "lacking api pool files = filter (\<lambda>(name, fdp). pool_file_by_name api pool name = None) files"

lemma backfill_files_seed:
  assumes "pool_laws api" and "set fs \<subseteq> set (pool_global_files api)" and "distinct (map fst fs)"
  shows "backfill_files api fs p = seed_files api (lacking api p fs) p"
  using assms(2,3)
proof (induction fs arbitrary: p)
  case (Cons nf fs)
  obtain name fdp where nf: "nf = (name, fdp)" by (cases nf)
  show ?case
  proof (cases "pool_file_by_name api p name")
    case (Some g)
    with Cons nf show ?thesis by (simp add: lacking_def)
  next
    case None
    show ?thesis
    proof (cases "pool_add api fdp p")
      case (Err e)
      with None nf show ?thesis by (simp add: lacking_def)
    next
      case (Ok mid)
      have "(name, fdp) \<in> set (pool_global_files api)" using Cons.prems(1) nf by simp
      from pool_add_global [OF assms(1) this Ok]
      have "\<forall>k. k \<noteq> name \<longrightarrow> pool_file_by_name api mid k = pool_file_by_name api p k" by blast
      moreover have "fst x \<noteq> name" if "x \<in> set fs" for x using that Cons.prems(2) nf by force
      ultimately have "lacking api mid fs = lacking api p fs"
        unfolding lacking_def by (intro filter_cong) auto
      moreover have "backfill_files api fs mid = seed_files api (lacking api mid fs) mid"
        using Cons.prems by (intro Cons.IH) auto
      ultimately show ?thesis using None Ok nf by (simp add: lacking_def)
    qed
  qed
qed (simp add: lacking_def)

lemma backfill_files_Err: "backfill_files api fs p = Err e \<Longrightarrow> \<exists>s. e = ProtoCompile s"
  by (induction api fs p rule: backfill_files.induct) (auto simp: result_split split: if_splits)

lemma open_files_Err: "open_files px names c = Err e \<Longrightarrow> \<exists>s. e = ProtoCompile s"
  by (induction px names c rule: open_files.induct) (auto simp: result_split)

lemma add_files_Err: "add_files api fds p = Err e \<Longrightarrow> \<exists>s. e = ProtoCompile s"
  by (induction api fds p rule: add_files.induct) (auto simp: result_split)

lemma backfill_wkts_nonempty:
  "pool_laws api \<Longrightarrow> backfill_wkts api p = Ok q \<Longrightarrow> pool_services api p \<noteq> [] \<Longrightarrow>
     pool_services api q \<noteq> []"
  using backfill_files_services [of api "pool_global_files api" p q]
  by (auto simp: backfill_wkts_def)

lemma finish_pool_Err:
  "finish_pool api r = Err e \<Longrightarrow> (\<exists>s. e = Proto (''reflection: '' @ s)) \<or> (\<exists>s. e = ProtoCompile s)"
  by (auto simp: finish_pool_def backfill_wkts_def result_split dest: backfill_files_Err)

lemma finish_pool_Ok:
  "finish_pool api r = Ok q \<longleftrightarrow> (\<exists>p. r = Ok p \<and> backfill_wkts api p = Ok q)"
  by (auto simp: finish_pool_def result_split)

lemma fetch_version_services:
  "fetch_version api reflect v ch s dec enc = Ready (Ok p) \<Longrightarrow> pool_services api p \<noteq> []"
  by (auto simp: fetch_version_def split: poll.splits result.splits if_splits)

section \<open>A concrete library, for the witnesses\<close>

text \<open>
  A pool is a list of files, a file its name and the full names of its services, each with one
  method; one file is bundled.  It obeys the laws above, so they can hold.
\<close>

definition sample_pool :: "((string \<times> string list) list, string \<times> string list, nat) pool_api" where
  "sample_pool =
     (let svcs = (\<lambda>p. concat (map (\<lambda>(n, ss). map (\<lambda>s. \<lparr>sv_full_name = s, sv_file = n,
                     sv_methods = [\<lparr>m_name = ''M'', m_input = 0, m_output = 1\<rparr>]\<rparr>) ss) p))
      in \<lparr>pool_new = [],
          pool_add = (\<lambda>f p. if map_of p (fst f) \<noteq> None then Err ''duplicate file'' else Ok (p @ [f])),
          pool_services = svcs,
          pool_service_by_name = (\<lambda>p s. find (\<lambda>v. sv_full_name v = s) (svcs p)),
          pool_file_by_name = (\<lambda>p n. map_option (Pair n) (map_of p n)),
          pool_global_files = [(''any.proto'', (''any.proto'', []))],
          pool_decode_file = (\<lambda>bytes. Ok (bytes, [bytes]))\<rparr>)"

lemma sample_pool_laws: "pool_laws sample_pool"
  by (auto simp: pool_laws_def sample_pool_def Let_def map_add_def split: if_splits option.splits)

definition sample_protox ::
  "(string \<times> string list, string \<times> string list,
    (string \<Rightarrow> (string \<times> string list, string) result) list \<times> (string \<times> string list) list) protox_api" where
  "sample_protox =
     \<lparr>px_from_source = (\<lambda>name source. if source = ''bad'' then Err ''parse error'' else Ok (name, [source])),
      px_file_not_found = (\<lambda>name. ''not found: '' @ name),
      px_google = (\<lambda>name. Err ''not found''),
      px_new = (\<lambda>resolvers imports. (resolvers, [])),
      px_open = (\<lambda>(resolvers, fs) name.
        case hd resolvers name of Ok f \<Rightarrow> Ok (resolvers, fs @ [f]) | Err e \<Rightarrow> Err e),
      px_file_set = snd\<rparr>"

definition sample_reflect :: "nat reflect_call" where
  "sample_reflect v ch l rq = Ready (Ok [Message (File_Descriptor_Response [rr_symbol rq])])"

definition sample_reflect_v1_only :: "nat reflect_call" where
  "sample_reflect_v1_only v ch l rq =
     (if v = V1 then Ready (Ok [Message (File_Descriptor_Response [rr_symbol rq])]) else Elapsed)"

section \<open>Theorems\<close>

text \<open>
  C29: seeding the well-known types adds exactly the bundled files whose names the pool lacks, in the
  order of the bundle, and fails only if one of those cannot be added.  So the user's version of a
  bundled file (a staged \<open>google/protobuf/timestamp.proto\<close>) wins: the bundled one is not even offered to the pool, which
  would refuse it, and a pool that has all the names is returned as it is.  After success
  every file and service of the pool is still there and every name it lacked names the bundled file.
\<close>

theorem backfill_user_files_win:
  assumes "pool_laws api" and "distinct (map fst (pool_global_files api))"
  shows "backfill_wkts api p = seed_files api (lacking api p (pool_global_files api)) p \<and>
         (\<forall>q. backfill_wkts api p = Ok q \<longrightarrow>
            (\<forall>n g. pool_file_by_name api p n = Some g \<longrightarrow> pool_file_by_name api q n = Some g) \<and>
            set (pool_services api p) \<subseteq> set (pool_services api q) \<and>
            (\<forall>(n, f) \<in> set (pool_global_files api).
               pool_file_by_name api p n = None \<longrightarrow> pool_file_by_name api q n = Some f))"
proof -
  have "backfill_wkts api p = seed_files api (lacking api p (pool_global_files api)) p"
    using backfill_files_seed [OF assms(1) subset_refl assms(2)] by (simp add: backfill_wkts_def)
  moreover have "pool_file_by_name api q n = Some g"
    if "backfill_wkts api p = Ok q" and "pool_file_by_name api p n = Some g" for q n g
    using backfill_files_keeps [OF assms(1)] that by (simp add: backfill_wkts_def)
  moreover have "set (pool_services api p) \<subseteq> set (pool_services api q)" if "backfill_wkts api p = Ok q" for q
    using backfill_files_services [OF assms(1)] that by (simp add: backfill_wkts_def)
  moreover have "pool_file_by_name api q n = Some f"
    if "backfill_wkts api p = Ok q" and "(n, f) \<in> set (pool_global_files api)"
      and "pool_file_by_name api p n = None" for q n f
    using backfill_files_adds [OF assms(1) _ assms(2)] that by (simp add: backfill_wkts_def)
  ultimately show ?thesis by blast
qed

theorem backfill_user_files_win_witness:
  "backfill_wkts sample_pool [(''any.proto'', [''mine''])] = Ok [(''any.proto'', [''mine''])]
     \<and> pool_add sample_pool (''any.proto'', []) [(''any.proto'', [''mine''])] = Err ''duplicate file''"
proof -
  have d: "distinct (map fst (pool_global_files sample_pool))" by (simp add: sample_pool_def Let_def)
  have "lacking sample_pool [(''any.proto'', [''mine''])] (pool_global_files sample_pool) = []"
    by (simp add: lacking_def sample_pool_def Let_def)
  moreover have "pool_add sample_pool (''any.proto'', []) [(''any.proto'', [''mine''])] = Err ''duplicate file''"
    by (simp add: sample_pool_def Let_def)
  ultimately show ?thesis
    using conjunct1 [OF backfill_user_files_win [OF sample_pool_laws d], of "[(''any.proto'', [''mine''])]"] by simp
qed

text \<open>
  C28: the fallback to \<open>v1alpha\<close> happens exactly when the server answers \<open>Unimplemented\<close> to \<open>v1\<close>.  On any
  other answer, success, failure or silence, the result does not depend on how the server would
  treat \<open>v1alpha\<close>; on that one it is what \<open>v1alpha\<close> gives, its errors and its silence included, and does not depend on
  anything else in the answer to \<open>v1\<close>.  Whichever version it came from, a pool that is returned defines at
  least one service.
\<close>

theorem fetch_pool_fallback:
  assumes "\<And>ch l rq. reflect V1 ch l rq = reflect' V1 ch l rq" and "pool_laws api"
  shows "((\<nexists>s. fetch_version api reflect V1 ch service dec enc = Ready (Err s) \<and> st_code s = Unimplemented) \<longrightarrow>
            fetch_pool api reflect ch service dec enc = fetch_pool api reflect' ch service dec enc) \<and>
         ((\<exists>s. fetch_version api reflect V1 ch service dec enc = Ready (Err s) \<and> st_code s = Unimplemented) \<longrightarrow>
            fetch_pool api reflect ch service dec enc =
              (case fetch_version api reflect V1alpha ch service dec enc of
                 Elapsed \<Rightarrow> Elapsed | Ready r \<Rightarrow> Ready (finish_pool api r))) \<and>
         (\<forall>q. fetch_pool api reflect ch service dec enc = Ready (Ok q) \<longrightarrow> pool_services api q \<noteq> [])"
proof -
  have same: "fetch_version api reflect V1 ch service dec enc =
      fetch_version api reflect' V1 ch service dec enc"
    using assms(1) by (simp add: fetch_version_def)
  have "pool_services api q \<noteq> []" if "fetch_pool api reflect ch service dec enc = Ready (Ok q)" for q
    using that fetch_version_services [of api reflect V1 ch service dec enc]
      fetch_version_services [of api reflect V1alpha ch service dec enc] backfill_wkts_nonempty [OF assms(2)]
    by (auto simp: fetch_pool_def finish_pool_Ok split: poll.splits result.splits if_splits)
  moreover have "fetch_pool api reflect ch service dec enc = fetch_pool api reflect' ch service dec enc"
    if "\<nexists>s. fetch_version api reflect V1 ch service dec enc = Ready (Err s) \<and> st_code s = Unimplemented"
    using that same by (auto simp: fetch_pool_def split: poll.splits result.splits)
  moreover have "fetch_pool api reflect ch service dec enc =
      (case fetch_version api reflect V1alpha ch service dec enc of
         Elapsed \<Rightarrow> Elapsed | Ready r \<Rightarrow> Ready (finish_pool api r))"
    if "\<exists>s. fetch_version api reflect V1 ch service dec enc = Ready (Err s) \<and> st_code s = Unimplemented"
    using that by (auto simp: fetch_pool_def)
  ultimately show ?thesis by blast
qed

definition sample_reflect_v1alpha_empty :: "nat reflect_call" where
  "sample_reflect_v1alpha_empty v ch l rq =
     (if v = V1 then Ready (Err \<lparr>st_code = Unimplemented, st_message = []\<rparr>) else Ready (Ok []))"

theorem fetch_pool_fallback_witness:
  "fetch_pool sample_pool sample_reflect 0 ''svc'' None None =
     fetch_pool sample_pool sample_reflect_v1_only 0 ''svc'' None None
   \<and> fetch_pool sample_pool sample_reflect_v1alpha_empty 0 ''svc'' None None =
     Ready (Err (Proto ''reflection: reflection returned no descriptors for service: svc''))"
proof -
  have a: "sample_reflect V1 ch l rq = sample_reflect_v1_only V1 ch l rq" for ch l rq
    by (simp add: sample_reflect_def sample_reflect_v1_only_def)
  have "fetch_version sample_pool sample_reflect V1 0 ''svc'' None None = Ready (Ok [(''svc'', [''svc''])])"
    by (simp add: fetch_version_def sample_pool_def Let_def sample_reflect_def)
  then have b: "\<nexists>e. fetch_version sample_pool sample_reflect V1 0 ''svc'' None None = Ready (Err e)
      \<and> st_code e = Unimplemented" by simp
  have c: "\<exists>e. fetch_version sample_pool sample_reflect_v1alpha_empty V1 0 ''svc'' None None = Ready (Err e)
      \<and> st_code e = Unimplemented"
    by (simp add: fetch_version_def sample_reflect_v1alpha_empty_def)
  have d: "fetch_version sample_pool sample_reflect_v1alpha_empty V1alpha 0 ''svc'' None None =
      Ready (Err (internal_status (''reflection returned no descriptors for service: svc'')))"
    by (simp add: fetch_version_def sample_reflect_v1alpha_empty_def sample_pool_def Let_def)
  have "fetch_pool sample_pool sample_reflect_v1alpha_empty 0 ''svc'' None None =
      Ready (finish_pool sample_pool (Err (internal_status (''reflection returned no descriptors for service: svc''))))"
    using conjunct1 [OF conjunct2 [OF fetch_pool_fallback [of sample_reflect_v1alpha_empty sample_reflect_v1alpha_empty,
            OF refl sample_pool_laws]], rule_format, OF c] d by simp
  moreover have "fetch_pool sample_pool sample_reflect 0 ''svc'' None None =
      fetch_pool sample_pool sample_reflect_v1_only 0 ''svc'' None None"
    using conjunct1 [OF fetch_pool_fallback [of sample_reflect sample_reflect_v1_only, OF a sample_pool_laws]] b by blast
  ultimately show ?thesis by (simp add: finish_pool_def internal_status_def)
qed

lemma compile_proto_files_Err:
  "compile_proto_files api px files = Err e \<Longrightarrow> \<exists>s. e = ProtoCompile s"
  by (auto simp: compile_proto_files_def backfill_wkts_def result_split Let_def
      dest: open_files_Err add_files_Err backfill_files_Err split: if_splits)

lemma compile_proto_files_Ok:
  "pool_laws api \<Longrightarrow> compile_proto_files api px files = Ok q \<Longrightarrow>
     files \<noteq> [] \<and> pool_services api q \<noteq> []"
  by (auto simp: compile_proto_files_def result_split Let_def dest: backfill_wkts_nonempty
      split: if_splits)

end
