(* ===== verification/Proto_Registry.thy ===== *)
theory Proto_Registry
  imports Rust_Str
begin

text \<open>
  The descriptor registry of one process (\<open>src/src/proto_registry.rs\<close>): services by their full
  name, each with the descriptor pool that defines it and where that pool came from.  A descriptor
  pool is a value of prost-reflect, so its type is a parameter.
\<close>

datatype origin =
    User_Staged (os_filename: string) (os_source: string)
  | Reflection (or_endpoint: string)

datatype 'p registered_service = Registered (svc_pool: 'p) (svc_origin: origin)

type_synonym 'p registry = "(string, 'p registered_service) hash_map"

definition get_proto :: "'p registry \<Rightarrow> string \<Rightarrow> 'p option" where
  "get_proto reg service_name = map_option svc_pool (hm_get reg service_name)"

definition insert_proto_manual ::
  "string \<Rightarrow> 'p \<Rightarrow> string \<Rightarrow> string \<Rightarrow> 'p registry \<Rightarrow> 'p registry" where
  "insert_proto_manual service_name pool filename source reg =
     hm_insert service_name (Registered pool (User_Staged filename source)) reg"

definition insert_proto_reflection :: "string \<Rightarrow> 'p \<Rightarrow> string \<Rightarrow> 'p registry \<Rightarrow> 'p registry" where
  "insert_proto_reflection service_name pool endpoint reg =
     hm_insert service_name (Registered pool (Reflection endpoint)) reg"

definition registry_remove :: "string \<Rightarrow> 'p registry \<Rightarrow> bool \<times> 'p registry" where
  "registry_remove service_name reg = (hm_get reg service_name \<noteq> None, hm_remove service_name reg)"

definition registry_clear :: "'p registry \<Rightarrow> 'p registry" where
  "registry_clear reg = []"

definition registry_list :: "'p registry \<Rightarrow> (string \<times> origin) list" where
  "registry_list reg = map (\<lambda>(service_name, r). (service_name, svc_origin r)) reg"

text \<open>The two insertions as one write: the origin says which of them made the entry.\<close>

fun registry_put :: "string \<Rightarrow> 'p registered_service \<Rightarrow> 'p registry \<Rightarrow> 'p registry" where
  "registry_put service_name (Registered pool (User_Staged filename source)) reg =
     insert_proto_manual service_name pool filename source reg"
| "registry_put service_name (Registered pool (Reflection endpoint)) reg =
     insert_proto_reflection service_name pool endpoint reg"

lemma registry_put_eq: "registry_put s r reg = hm_insert s r reg"
  by (induction s r reg rule: registry_put.induct)
     (simp_all add: insert_proto_manual_def insert_proto_reflection_def)

interpretation registered: mutable_map "[]" hm_get "\<lambda>reg. reg" hm_wf registry_put
  "\<lambda>service_name reg. snd (registry_remove service_name reg)"
  by unfold_locales
     (auto simp: registry_put_eq registry_remove_def hm_entries hm_wf_def [symmetric])

text \<open>What \<open>list\<close> shows is the map from names to origins: one row per registered service.\<close>

interpretation listed: keyed_map "[]" "\<lambda>reg s. map_option svc_origin (hm_get reg s)" registry_list hm_wf
proof
  fix m :: "'p registry" and k v
  assume "hm_wf m"
  then have "hm_wf (registry_list m)"
    by (simp add: hm_wf_def registry_list_def case_prod_beta' o_def)
  then show "(k, v) \<in> set (registry_list m) \<longleftrightarrow> map_option svc_origin (hm_get m k) = Some v"
    unfolding hm_entries [OF \<open>hm_wf (registry_list m)\<close>]
    by (simp add: registry_list_def hm_get_map_values)
next
  fix m :: "'p registry"
  assume "hm_wf m"
  then show "distinct (map fst (registry_list m))"
    by (simp add: hm_wf_def registry_list_def case_prod_beta' o_def)
qed simp_all

lemma get_proto_manual [store_simps]:
  "get_proto (insert_proto_manual s p f src reg) = (get_proto reg)(s \<mapsto> p)"
  by (rule ext) (simp add: get_proto_def insert_proto_manual_def)

lemma get_proto_reflection [store_simps]:
  "get_proto (insert_proto_reflection s p e reg) = (get_proto reg)(s \<mapsto> p)"
  by (rule ext) (simp add: get_proto_def insert_proto_reflection_def)

lemma insert_reflection_wf [store_simps]: "hm_wf reg \<Longrightarrow> hm_wf (insert_proto_reflection s p e reg)"
  by (simp add: insert_proto_reflection_def)

text \<open>A registry filled through reflection only (that of the background worker, as it turns out).\<close>

definition reflection_only :: "'p registry \<Rightarrow> bool" where
  "reflection_only reg \<longleftrightarrow> (\<forall>s r. hm_get reg s = Some r \<longrightarrow> (\<exists>e. svc_origin r = Reflection e))"

lemma reflection_only_Nil [simp]: "reflection_only []"
  by (simp add: reflection_only_def)

lemma reflection_only_insert: "reflection_only reg \<Longrightarrow> reflection_only (insert_proto_reflection s p e reg)"
  by (simp add: reflection_only_def insert_proto_reflection_def)

end
