(* ===== verification/Call.thy ===== *)
theory Call
  imports Channel_Cache Options Proto Proto_Registry
begin

text \<open>
  One gRPC call (\<open>src/src/call.rs\<close>).  \<open>call_async\<close> is cut at its three suspension points (the dial,
  the reflection fetch, the unary call) into segments of code that run without interruption; the
  caches of the process are the state the segments read and write.  Serialisation, metadata
  validation and the network itself belong to libraries: the records \<open>grpc_lib\<close> and \<open>grpc_net\<close>.
\<close>

section \<open>Method paths\<close>

definition parse_method :: "string \<Rightarrow> (string \<times> string) grpc_result" where
  "parse_method method =
     (let invalid = Proto (''invalid method path (expected '' @ quoted ''Service/Method'' @ ''): '' @ method) in
      bind_result (ok_or (rsplit_once (CHR ''/'') method) invalid) (\<lambda>(service, method_name).
        let service = trim service;
            method_name = trim method_name in
        if service = [] \<or> method_name = [] \<or> CHR ''/'' \<in> set service then Err invalid
        else Ok (service, method_name)))"

lemma parse_method_Ok:
  "parse_method m = Ok (s, n) \<longleftrightarrow>
     (\<exists>a b. rsplit_once (CHR ''/'') m = Some (a, b) \<and> s = trim a \<and> n = trim b
        \<and> s \<noteq> [] \<and> n \<noteq> [] \<and> CHR ''/'' \<notin> set s)"
  by (auto simp: parse_method_def Let_def result_split split: if_splits)

text \<open>
  C32: \<open>parse_method\<close> accepts exactly the paths with a single slash and something other than white
  space on both sides of it, and returns the two sides trimmed.
\<close>

theorem parse_method_spec:
  "parse_method m = Ok (s, n) \<longleftrightarrow>
     (\<exists>a b. m = a @ CHR ''/'' # b \<and> CHR ''/'' \<notin> set a \<and> CHR ''/'' \<notin> set b
        \<and> s = trim a \<and> n = trim b \<and> trim a \<noteq> [] \<and> trim b \<noteq> [])"
  using trim_keeps [of "CHR ''/''"] by (auto simp: parse_method_Ok rsplit_once_Some)

text \<open>
  C17: the path sent on the wire parses back: formatting a parsed service and method as
  \<open>Service/Method\<close> and parsing it again gives the same pair.
\<close>

theorem parse_method_roundtrip:
  assumes "parse_method m = Ok (s, n)"
  shows "parse_method (s @ ''/'' @ n) = Ok (s, n)"
proof -
  from assms obtain a b where "CHR ''/'' \<notin> set s" "CHR ''/'' \<notin> set b" "s = trim a" "n = trim b"
      "s \<noteq> []" "n \<noteq> []"
    by (auto simp: parse_method_Ok rsplit_once_Some)
  then have "CHR ''/'' \<notin> set n" "trim s = s" "trim n = n"
    by (simp_all add: trim_keeps)
  then have "rsplit_once (CHR ''/'') (s @ ''/'' @ n) = Some (s, n)" by (simp add: rsplit_once_Some)
  then show ?thesis
    using \<open>s \<noteq> []\<close> \<open>n \<noteq> []\<close> \<open>CHR ''/'' \<notin> set s\<close> \<open>trim s = s\<close> \<open>trim n = n\<close>
    unfolding parse_method_Ok by metis
qed

theorem parse_method_roundtrip_witness:
  "parse_method '' pkg.S / Get '' = Ok (''pkg.S'', ''Get'') \<and> parse_method ''pkg.S/Get'' = Ok (''pkg.S'', ''Get'')"
proof -
  have h: "parse_method '' pkg.S / Get '' = Ok (''pkg.S'', ''Get'')" by code_simp
  show ?thesis using h parse_method_roundtrip [OF h] by simp
qed

lemma parse_method_Err: "parse_method m = Err e \<Longrightarrow> \<exists>s. e = Proto s"
  by (auto simp: parse_method_def Let_def result_split split: if_splits prod.splits)

section \<open>Descriptors\<close>

definition resolve_method ::
  "('p, 'f, 'd) pool_api \<Rightarrow> 'p \<Rightarrow> string \<Rightarrow> string \<Rightarrow> 'd grpc_method grpc_result" where
  "resolve_method api pool service_name method_name =
     bind_result (ok_or (pool_service_by_name api pool service_name)
                    (Proto (''service not found: '' @ service_name))) (\<lambda>svc.
     ok_or (find (\<lambda>m. m_name m = method_name) (sv_methods svc))
       (Proto (''method not found: '' @ method_name)))"

section \<open>Metadata\<close>

type_synonym headers = "(string \<times> string) list"

record ('p, 'f, 'd, 'm) grpc_lib =
  lib_transport :: transport_api
  lib_pool :: "('p, 'f, 'd) pool_api"
  lib_json_string :: "json \<Rightarrow> (string, string) result"
  lib_deserialize :: "'d \<Rightarrow> string \<Rightarrow> ('m, string) result"
  lib_encode :: "'m \<Rightarrow> bytes"
  lib_decode :: "'d \<Rightarrow> bytes \<Rightarrow> ('m, string) result"
  lib_serialize :: "bool \<Rightarrow> 'm \<Rightarrow> (bytes, string) result"
  lib_from_slice :: "bytes \<Rightarrow> (json, string) result"
  lib_parse_path :: "string \<Rightarrow> (string, string) result"
  lib_metadata_key :: "bytes \<Rightarrow> (string, string) result"
  lib_metadata_value :: "string \<Rightarrow> (string, string) result"
  lib_json_display :: "json \<Rightarrow> string"
  lib_status_display :: "status \<Rightarrow> string"

definition metadata_items :: "json \<Rightarrow> json list" where
  "metadata_items val = (case val of JArray items \<Rightarrow> items | other \<Rightarrow> [other])"

text \<open>The inner loop: one header per item, null items skipped.\<close>

fun append_items ::
  "('p, 'f, 'd, 'm) grpc_lib \<Rightarrow> string \<Rightarrow> string \<Rightarrow> json list \<Rightarrow> headers \<Rightarrow> headers grpc_result" where
  "append_items lib key meta_key [] md = Ok md"
| "append_items lib key meta_key (item # items) md =
     (if item = JNull then append_items lib key meta_key items md
      else
        let s = (case item of JString s \<Rightarrow> s | other \<Rightarrow> lib_json_display lib other) in
        bind_result (map_err (\<lambda>e. Call (''metadata '' @ quoted key @ '': '' @ e)) (lib_metadata_value lib s))
          (\<lambda>v. append_items lib key meta_key items (md @ [(meta_key, v)])))"

fun append_entries ::
  "('p, 'f, 'd, 'm) grpc_lib \<Rightarrow> json_map \<Rightarrow> headers \<Rightarrow> headers grpc_result" where
  "append_entries lib [] md = Ok md"
| "append_entries lib ((key, val) # obj) md =
     bind_result (map_err (\<lambda>e. Call (''metadata key '' @ quoted key @ '': '' @ e))
                    (lib_metadata_key lib (to_ascii_lowercase key))) (\<lambda>meta_key.
     bind_result (append_items lib key meta_key (metadata_items val) md)
       (append_entries lib obj))"

definition apply_metadata ::
  "('p, 'f, 'd, 'm) grpc_lib \<Rightarrow> headers \<Rightarrow> json option \<Rightarrow> headers grpc_result" where
  "apply_metadata lib md metadata =
     (case metadata of
        None \<Rightarrow> Ok md
      | Some JNull \<Rightarrow> Ok md
      | Some (JObject obj) \<Rightarrow> append_entries lib obj md
      | Some _ \<Rightarrow> Err (Call ''metadata must be a JSON object''))"

section \<open>Bodies\<close>

definition encode_request :: "('p, 'f, 'd, 'm) grpc_lib \<Rightarrow> 'd \<Rightarrow> json \<Rightarrow> bytes grpc_result" where
  "encode_request lib desc json =
     bind_result (map_err (\<lambda>e. Proto (''serialize request: '' @ e)) (lib_json_string lib json)) (\<lambda>json_str.
     bind_result (map_err (\<lambda>e. Proto (''encode request: '' @ e)) (lib_deserialize lib desc json_str)) (\<lambda>msg.
     Ok (lib_encode lib msg)))"

definition decode_response :: "('p, 'f, 'd, 'm) grpc_lib \<Rightarrow> 'd \<Rightarrow> bytes \<Rightarrow> json grpc_result" where
  "decode_response lib desc bytes =
     bind_result (map_err (\<lambda>e. Proto (''decode response: '' @ e)) (lib_decode lib desc bytes)) (\<lambda>msg.
     bind_result (map_err (\<lambda>e. Proto (''serialize response: '' @ e)) (lib_serialize lib True msg)) (\<lambda>buf.
     map_err (\<lambda>e. Proto (''parse serialized response: '' @ e)) (lib_from_slice lib buf)))"

text \<open>
  \<open>RawBytesCodec\<close>: the encoder appends the body to the frame buffer, the decoder takes everything
  that remains of a frame and never answers "no message".
\<close>

definition raw_encode :: "bytes \<Rightarrow> bytes \<Rightarrow> (bytes, status) result" where
  "raw_encode item dst = Ok (dst @ item)"

definition raw_decode :: "bytes \<Rightarrow> (bytes option, status) result \<times> bytes" where
  "raw_decode src = (Ok (Some (take (length src) src)), drop (length src) src)"

record codec =
  cd_encode :: "bytes \<Rightarrow> bytes \<Rightarrow> (bytes, status) result"
  cd_decode :: "bytes \<Rightarrow> (bytes option, status) result \<times> bytes"

definition raw_bytes_codec :: codec where
  "raw_bytes_codec = \<lparr>cd_encode = raw_encode, cd_decode = raw_decode\<rparr>"

section \<open>The call\<close>

record 'ch grpc_net =
  net_dial :: "endpoint_builder \<Rightarrow> ('ch, string) result poll"
  net_reflect :: "'ch reflect_call"
  net_ready :: "'ch \<Rightarrow> size_limits \<Rightarrow> (unit, string) result poll"
  net_unary :: "codec \<Rightarrow> 'ch \<Rightarrow> size_limits \<Rightarrow> headers \<Rightarrow> string \<Rightarrow> bytes \<Rightarrow> (bytes, status) result poll"

definition unary_call ::
  "('p, 'f, 'd, 'm) grpc_lib \<Rightarrow> 'ch grpc_net \<Rightarrow> 'ch \<Rightarrow> string \<Rightarrow> string \<Rightarrow> bytes \<Rightarrow> json option
     \<Rightarrow> u32 option \<Rightarrow> u32 option \<Rightarrow> bytes grpc_result poll" where
  "unary_call lib net channel service_name method_name body metadata max_decode max_encode =
     (case lib_parse_path lib (''/'' @ service_name @ ''/'' @ method_name) of
        Err e \<Rightarrow> Ready (Err (Proto e))
      | Ok path \<Rightarrow>
          let limits = client_limits max_decode max_encode in
          (case net_ready net channel limits of
             Elapsed \<Rightarrow> Elapsed
           | Ready (Err e) \<Rightarrow> Ready (Err (Connection e))
           | Ready (Ok _) \<Rightarrow>
               (case apply_metadata lib [] metadata of
                  Err e \<Rightarrow> Ready (Err e)
                | Ok hdrs \<Rightarrow>
                    (case net_unary net raw_bytes_codec channel limits hdrs path body of
                       Elapsed \<Rightarrow> Elapsed
                     | Ready r \<Rightarrow> Ready (map_err (\<lambda>s. Call (lib_status_display lib s)) r)))))"

record call_args =
  ca_endpoint :: string
  ca_method :: string
  ca_request :: json
  ca_use_reflection :: bool
  ca_metadata :: "json option"
  ca_tls :: "tls_config option"
  ca_max_decode :: "u32 option"
  ca_max_encode :: "u32 option"

record ('ch, 'p) proc_state =
  ps_channels :: "'ch channels"
  ps_registry :: "'p registry"

text \<open>Where a call stands between two polls.\<close>

datatype ('ch, 'd) call_pc =
    At_Start
  | At_Dial string string channel_key endpoint_builder
  | At_Fetch 'ch string string
  | At_Unary 'ch "'d grpc_method" string string bytes
  | Call_Done "json grpc_result"

text \<open>With the descriptor pool at hand: resolve the method, encode, then the unary call.\<close>

definition with_pool ::
  "('p, 'f, 'd, 'm) grpc_lib \<Rightarrow> call_args \<Rightarrow> 'ch \<Rightarrow> string \<Rightarrow> string \<Rightarrow> 'p \<Rightarrow> ('ch, 'd) call_pc" where
  "with_pool lib args channel service_name method_name pool =
     (case resolve_method (lib_pool lib) pool service_name method_name of
        Err e \<Rightarrow> Call_Done (Err e)
      | Ok desc \<Rightarrow>
          (case encode_request lib (m_input desc) (ca_request args) of
             Err e \<Rightarrow> Call_Done (Err e)
           | Ok body \<Rightarrow> At_Unary channel desc service_name method_name body))"

text \<open>With the channel at hand: the registry decides between its pool, reflection and an error.\<close>

definition with_channel ::
  "('p, 'f, 'd, 'm) grpc_lib \<Rightarrow> call_args \<Rightarrow> string \<Rightarrow> string \<Rightarrow> 'ch \<Rightarrow> 'p registry \<Rightarrow> ('ch, 'd) call_pc" where
  "with_channel lib args service_name method_name channel reg =
     (case get_proto reg service_name of
        Some pool \<Rightarrow> with_pool lib args channel service_name method_name pool
      | None \<Rightarrow>
          if ca_use_reflection args then At_Fetch channel service_name method_name
          else Call_Done (Err (Proto
                 (''service not found in registry and reflection disabled: '' @ service_name))))"

text \<open>
  The four segments of \<open>call_async\<close>: the awaited operation resolves (or the deadline passes, \<open>None\<close>)
  and the code runs to the next suspension point.
\<close>

definition resume_start ::
  "('p, 'f, 'd, 'm) grpc_lib \<Rightarrow> call_args \<Rightarrow> ('ch, 'p) proc_state
     \<Rightarrow> ('ch, 'd) call_pc option \<times> ('ch, 'p) proc_state" where
  "resume_start lib args st =
     (case parse_method (ca_method args) of
        Err e \<Rightarrow> (Some (Call_Done (Err e)), st)
      | Ok (service_name, method_name) \<Rightarrow>
          (case connect_start (lib_transport lib) (ca_endpoint args) (ca_tls args) (ps_channels st) of
             Err e \<Rightarrow> (Some (Call_Done (Err e)), st)
           | Ok (Cached channel) \<Rightarrow>
               (Some (with_channel lib args service_name method_name channel (ps_registry st)), st)
           | Ok (Dial key builder) \<Rightarrow> (Some (At_Dial service_name method_name key builder), st)))"

definition resume_dial ::
  "('p, 'f, 'd, 'm) grpc_lib \<Rightarrow> 'ch grpc_net \<Rightarrow> call_args \<Rightarrow> string \<Rightarrow> string \<Rightarrow> channel_key
     \<Rightarrow> endpoint_builder \<Rightarrow> ('ch, 'p) proc_state
     \<Rightarrow> ('ch, 'd) call_pc option \<times> ('ch, 'p) proc_state" where
  "resume_dial lib net args service_name method_name key builder st =
     (case net_dial net builder of
        Elapsed \<Rightarrow> (None, st)
      | Ready dialled \<Rightarrow>
          (case connect_finish key dialled (ps_channels st) of
             (Err e, channels) \<Rightarrow> (Some (Call_Done (Err e)), st\<lparr>ps_channels := channels\<rparr>)
           | (Ok channel, channels) \<Rightarrow>
               (Some (with_channel lib args service_name method_name channel (ps_registry st)),
                st\<lparr>ps_channels := channels\<rparr>)))"

definition resume_fetch ::
  "('p, 'f, 'd, 'm) grpc_lib \<Rightarrow> 'ch grpc_net \<Rightarrow> call_args \<Rightarrow> 'ch \<Rightarrow> string \<Rightarrow> string
     \<Rightarrow> ('ch, 'p) proc_state \<Rightarrow> ('ch, 'd) call_pc option \<times> ('ch, 'p) proc_state" where
  "resume_fetch lib net args channel service_name method_name st =
     (case fetch_pool (lib_pool lib) (net_reflect net) channel service_name
             (ca_max_decode args) (ca_max_encode args) of
        Elapsed \<Rightarrow> (None, st)
      | Ready (Err e) \<Rightarrow> (Some (Call_Done (Err e)), st)
      | Ready (Ok pool) \<Rightarrow>
          (Some (with_pool lib args channel service_name method_name pool),
           st\<lparr>ps_registry :=
                insert_proto_reflection service_name pool (ca_endpoint args) (ps_registry st)\<rparr>))"

definition resume_unary ::
  "('p, 'f, 'd, 'm) grpc_lib \<Rightarrow> 'ch grpc_net \<Rightarrow> call_args \<Rightarrow> 'ch \<Rightarrow> 'd grpc_method \<Rightarrow> string
     \<Rightarrow> string \<Rightarrow> bytes \<Rightarrow> ('ch, 'p) proc_state
     \<Rightarrow> ('ch, 'd) call_pc option \<times> ('ch, 'p) proc_state" where
  "resume_unary lib net args channel desc service_name method_name body st =
     (case unary_call lib net channel service_name method_name body (ca_metadata args)
             (ca_max_decode args) (ca_max_encode args) of
        Elapsed \<Rightarrow> (None, st)
      | Ready (Err e) \<Rightarrow> (Some (Call_Done (Err e)), st)
      | Ready (Ok bytes) \<Rightarrow> (Some (Call_Done (decode_response lib (m_output desc) bytes)), st))"

fun call_resume ::
  "('p, 'f, 'd, 'm) grpc_lib \<Rightarrow> 'ch grpc_net \<Rightarrow> call_args \<Rightarrow> ('ch, 'd) call_pc
     \<Rightarrow> ('ch, 'p) proc_state \<Rightarrow> ('ch, 'd) call_pc option \<times> ('ch, 'p) proc_state" where
  "call_resume lib net args At_Start st = resume_start lib args st"
| "call_resume lib net args (At_Dial s m key builder) st =
     resume_dial lib net args s m key builder st"
| "call_resume lib net args (At_Fetch ch s m) st = resume_fetch lib net args ch s m st"
| "call_resume lib net args (At_Unary ch desc s m body) st =
     resume_unary lib net args ch desc s m body st"
| "call_resume lib net args (Call_Done r) st = (Some (Call_Done r), st)"

text \<open>How many polls a call can still take.\<close>

fun polls_left :: "('ch, 'd) call_pc \<Rightarrow> nat" where
  "polls_left At_Start = 4"
| "polls_left (At_Dial _ _ _ _) = 3"
| "polls_left (At_Fetch _ _ _) = 2"
| "polls_left (At_Unary _ _ _ _ _) = 1"
| "polls_left (Call_Done _) = 0"

lemma with_pool_polls: "polls_left (with_pool lib args ch s m p) \<le> 1"
  by (simp add: with_pool_def split: result.splits)

lemma with_channel_polls: "polls_left (with_channel lib args s m ch reg) \<le> 2"
proof (cases "get_proto reg s")
  case (Some p)
  then show ?thesis using with_pool_polls [of lib args ch s m p] by (simp add: with_channel_def)
qed (simp add: with_channel_def)

lemma with_polls_le:
  "1 \<le> n \<Longrightarrow> polls_left (with_pool lib args ch s m p) \<le> n"
  "2 \<le> n \<Longrightarrow> polls_left (with_channel lib args s m ch reg) \<le> n"
  by (rule le_trans [OF with_pool_polls]; assumption) (rule le_trans [OF with_channel_polls]; assumption)

lemmas resume_splits =
  result.splits prod.splits connect_step.splits poll.splits

lemma resume_start_polls: "resume_start lib args st = (Some pc, st') \<Longrightarrow> polls_left pc \<le> 3"
  by (auto simp: resume_start_def with_polls_le split: resume_splits)

lemma resume_dial_polls:
  "resume_dial lib net args s m key b st = (Some pc, st') \<Longrightarrow> polls_left pc \<le> 2"
  by (auto simp: resume_dial_def with_polls_le split: resume_splits)

lemma resume_fetch_polls:
  "resume_fetch lib net args ch s m st = (Some pc, st') \<Longrightarrow> polls_left pc \<le> 1"
  by (auto simp: resume_fetch_def with_polls_le split: resume_splits)

lemma resume_unary_polls:
  "resume_unary lib net args ch d s m body st = (Some pc, st') \<Longrightarrow> polls_left pc = 0"
  by (auto simp: resume_unary_def split: resume_splits)

lemma call_resume_polls:
  "call_resume lib net args pc st = (Some pc', st') \<Longrightarrow> polls_left pc \<noteq> 0 \<Longrightarrow>
     polls_left pc' < polls_left pc"
  by (cases pc)
     (auto dest!: resume_start_polls resume_dial_polls resume_fetch_polls resume_unary_polls)

text \<open>
  The call run on its own, to its result or to the deadline.  Each poll moves on, so the function
  is total: at most four polls.
\<close>

function call_run ::
  "('p, 'f, 'd, 'm) grpc_lib \<Rightarrow> 'ch grpc_net \<Rightarrow> call_args \<Rightarrow> ('ch, 'd) call_pc
     \<Rightarrow> ('ch, 'p) proc_state \<Rightarrow> json grpc_result poll \<times> ('ch, 'p) proc_state" where
  "call_run lib net args pc st =
     (case pc of
        Call_Done r \<Rightarrow> (Ready r, st)
      | _ \<Rightarrow>
          (case call_resume lib net args pc st of
             (None, st') \<Rightarrow> (Elapsed, st')
           | (Some pc', st') \<Rightarrow> call_run lib net args pc' st'))"
  by pat_completeness auto
termination
  by (relation "measure (\<lambda>(lib, net, args, pc, st). polls_left pc)") (auto simp del: call_resume.simps dest!: call_resume_polls [OF sym])

declare call_run.simps [simp del]

definition call_async ::
  "('p, 'f, 'd, 'm) grpc_lib \<Rightarrow> 'ch grpc_net \<Rightarrow> call_args \<Rightarrow> ('ch, 'p) proc_state
     \<Rightarrow> json grpc_result poll \<times> ('ch, 'p) proc_state" where
  "call_async lib net args st = call_run lib net args At_Start st"

text \<open>
  The synchronous entry point: \<open>runtime\<close> is whether tokio's runtime could be built; an elapsed
  deadline becomes the \<open>Timeout\<close> error.
\<close>

definition make_grpc_call ::
  "('p, 'f, 'd, 'm) grpc_lib \<Rightarrow> 'ch grpc_net \<Rightarrow> (unit, string) result \<Rightarrow> call_args \<Rightarrow> u64
     \<Rightarrow> ('ch, 'p) proc_state \<Rightarrow> json grpc_result \<times> ('ch, 'p) proc_state" where
  "make_grpc_call lib net runtime args timeout_ms st =
     (case runtime of
        Err e \<Rightarrow> (Err (Connection e), st)
      | Ok _ \<Rightarrow>
          (case call_async lib net args st of
             (Ready r, st') \<Rightarrow> (r, st')
           | (Elapsed, st') \<Rightarrow> (Err (Timeout timeout_ms), st')))"

section \<open>The call in direct style\<close>

text \<open>
  \<open>call_async\<close> as the source writes it, top to bottom, with each awaited operation resolved in
  place: the reading of the function when no other task runs in between.
\<close>

definition call_with_pool ::
  "('p, 'f, 'd, 'm) grpc_lib \<Rightarrow> 'ch grpc_net \<Rightarrow> call_args \<Rightarrow> 'ch \<Rightarrow> string \<Rightarrow> string \<Rightarrow> 'p
     \<Rightarrow> json grpc_result poll" where
  "call_with_pool lib net args channel service_name method_name pool =
     (case bind_result (resolve_method (lib_pool lib) pool service_name method_name) (\<lambda>desc.
             map_ok (Pair desc) (encode_request lib (m_input desc) (ca_request args))) of
        Err e \<Rightarrow> Ready (Err e)
      | Ok (desc, body) \<Rightarrow>
          (case unary_call lib net channel service_name method_name body (ca_metadata args)
                  (ca_max_decode args) (ca_max_encode args) of
             Elapsed \<Rightarrow> Elapsed
           | Ready r \<Rightarrow> Ready (bind_result r (decode_response lib (m_output desc)))))"

definition call_direct ::
  "('p, 'f, 'd, 'm) grpc_lib \<Rightarrow> 'ch grpc_net \<Rightarrow> call_args \<Rightarrow> ('ch, 'p) proc_state
     \<Rightarrow> json grpc_result poll \<times> ('ch, 'p) proc_state" where
  "call_direct lib net args st =
     (case parse_method (ca_method args) of
        Err e \<Rightarrow> (Ready (Err e), st)
      | Ok (service_name, method_name) \<Rightarrow>
          (case get_or_connect (lib_transport lib) (net_dial net) (ca_endpoint args) (ca_tls args)
                  (ps_channels st) of
             (Elapsed, channels) \<Rightarrow> (Elapsed, st)
           | (Ready (Err e), channels) \<Rightarrow> (Ready (Err e), st)
           | (Ready (Ok channel), channels) \<Rightarrow>
               let st' = st\<lparr>ps_channels := channels\<rparr> in
               (case get_proto (ps_registry st') service_name of
                  Some pool \<Rightarrow> (call_with_pool lib net args channel service_name method_name pool, st')
                | None \<Rightarrow>
                    if ca_use_reflection args then
                      (case fetch_pool (lib_pool lib) (net_reflect net) channel service_name
                              (ca_max_decode args) (ca_max_encode args) of
                         Elapsed \<Rightarrow> (Elapsed, st')
                       | Ready (Err e) \<Rightarrow> (Ready (Err e), st')
                       | Ready (Ok pool) \<Rightarrow>
                           (call_with_pool lib net args channel service_name method_name pool,
                            st'\<lparr>ps_registry := insert_proto_reflection service_name pool
                                   (ca_endpoint args) (ps_registry st')\<rparr>))
                    else (Ready (Err (Proto (''service not found in registry and reflection disabled: ''
                            @ service_name))), st'))))"

lemma call_run_Done [simp]: "call_run lib net args (Call_Done r) st = (Ready r, st)"
  by (simp add: call_run.simps)

lemma call_run_with_pool:
  "call_run lib net args (with_pool lib args ch s m pool) st =
     (call_with_pool lib net args ch s m pool, st)"
  by (auto simp: with_pool_def call_with_pool_def call_run.simps resume_unary_def
      split: result.splits poll.splits)

lemma call_run_with_channel:
  "call_run lib net args (with_channel lib args s m ch (ps_registry st)) st =
     (case get_proto (ps_registry st) s of
        Some pool \<Rightarrow> (call_with_pool lib net args ch s m pool, st)
      | None \<Rightarrow>
          if ca_use_reflection args then
            (case fetch_pool (lib_pool lib) (net_reflect net) ch s (ca_max_decode args) (ca_max_encode args) of
               Elapsed \<Rightarrow> (Elapsed, st)
             | Ready (Err e) \<Rightarrow> (Ready (Err e), st)
             | Ready (Ok pool) \<Rightarrow>
                 (call_with_pool lib net args ch s m pool,
                  st\<lparr>ps_registry := insert_proto_reflection s pool (ca_endpoint args) (ps_registry st)\<rparr>))
          else (Ready (Err (Proto (''service not found in registry and reflection disabled: '' @ s))), st))"
proof (cases "get_proto (ps_registry st) s")
  case None
  then show ?thesis
    by (auto simp: with_channel_def call_run.simps [of _ _ _ "At_Fetch _ _ _"] resume_fetch_def
        call_run_with_pool split: result.splits poll.splits)
qed (simp add: with_channel_def call_run_with_pool)

lemma call_run_dial:
  "call_run lib net args (At_Dial s m key b) st =
     (case net_dial net b of
        Elapsed \<Rightarrow> (Elapsed, st)
      | Ready dialled \<Rightarrow>
          (case connect_finish key dialled (ps_channels st) of
             (Err e, channels) \<Rightarrow> (Ready (Err e), st\<lparr>ps_channels := channels\<rparr>)
           | (Ok channel, channels) \<Rightarrow>
               call_run lib net args (with_channel lib args s m channel (ps_registry st))
                 (st\<lparr>ps_channels := channels\<rparr>)))"
  by (auto simp: call_run.simps [of _ _ _ "At_Dial _ _ _ _"] resume_dial_def
      split: result.splits poll.splits prod.splits)

lemma connect_finish_Err_same:
  "connect_finish key dialled m = (Err e, m') \<Longrightarrow> m' = m"
  by (auto simp: connect_finish_Err)

text \<open>Run on its own, the segmented call is the direct one.\<close>

lemma call_async_eq_direct: "call_async lib net args st = call_direct lib net args st"
proof (cases "parse_method (ca_method args)")
  case (Err e)
  then show ?thesis by (simp add: call_async_def call_direct_def call_run.simps resume_start_def)
next
  case (Ok sm)
  note parsed = this
  obtain s m where sm: "sm = (s, m)" by (cases sm)
  note start = call_run.simps [of _ _ _ At_Start] resume_start_def parsed sm
  show ?thesis
  proof (cases "connect_start (lib_transport lib) (ca_endpoint args) (ca_tls args) (ps_channels st)")
    case (Err e)
    then show ?thesis by (simp add: call_async_def call_direct_def get_or_connect_def start)
  next
    case (Ok step)
    note conn = this
    show ?thesis
    proof (cases step)
      case (Cached ch)
      with conn show ?thesis
        by (simp add: call_async_def call_direct_def get_or_connect_def call_run_with_channel start
            split: option.splits)
    next
      case (Dial key b)
      have "call_async lib net args st = call_run lib net args (At_Dial s m key b) st"
        using conn Dial by (simp add: call_async_def start)
      also have "\<dots> = call_direct lib net args st"
      proof (cases "net_dial net b")
        case Elapsed
        with conn Dial show ?thesis
          by (simp add: call_run_dial call_direct_def get_or_connect_def parsed sm)
      next
        case (Ready dialled)
        obtain r channels where fin: "connect_finish key dialled (ps_channels st) = (r, channels)"
          by fastforce
        show ?thesis
        proof (cases r)
          case (Err e)
          with fin have "channels = ps_channels st" by (simp add: connect_finish_Err_same)
          with Err fin Ready conn Dial show ?thesis
            by (simp add: call_run_dial call_direct_def get_or_connect_def parsed sm)
        next
          case (Ok ch)
          show ?thesis
            using Ok fin Ready conn Dial
              call_run_with_channel [of lib net args s m ch "st\<lparr>ps_channels := channels\<rparr>"]
            by (simp add: call_run_dial call_direct_def get_or_connect_def
                parsed sm Let_def split: option.splits)
        qed
      qed
      finally show ?thesis .
    qed
  qed
qed

section \<open>What a call does to the caches\<close>

definition proc_wf :: "('ch, 'p) proc_state \<Rightarrow> bool" where
  "proc_wf st \<longleftrightarrow> hm_wf (ps_channels st) \<and> hm_wf (ps_registry st)"

text \<open>
  One segment's effect: channels are only added, and the registry changes only by one entry made
  from reflection, for a call that allows it.
\<close>

definition segment_effect ::
  "call_args \<Rightarrow> ('ch, 'p) proc_state \<Rightarrow> ('ch, 'p) proc_state \<Rightarrow> bool" where
  "segment_effect args st st' \<longleftrightarrow>
     (\<forall>k c. hm_get (ps_channels st) k = Some c \<longrightarrow> hm_get (ps_channels st') k = Some c)
     \<and> (ps_registry st' = ps_registry st \<or>
        (\<exists>s pool. ps_registry st' = insert_proto_reflection s pool (ca_endpoint args) (ps_registry st)))
     \<and> (proc_wf st \<longrightarrow> proc_wf st')"

lemma segment_effect_refl [simp]: "segment_effect args st st"
  by (simp add: segment_effect_def)

lemma resume_start_state: "resume_start lib args st = (r, st') \<Longrightarrow> st' = st"
  by (auto simp: resume_start_def split: resume_splits)

lemma resume_unary_state: "resume_unary lib net args ch d s m b st = (r, st') \<Longrightarrow> st' = st"
  by (auto simp: resume_unary_def split: resume_splits)

lemma resume_dial_effect:
  "resume_dial lib net args s m key b st = (r, st') \<Longrightarrow>
     segment_effect args st st' \<and> ps_registry st' = ps_registry st"
  by (auto simp: resume_dial_def segment_effect_def proc_wf_def
      split: poll.splits prod.splits result.splits
      dest: connect_finish_keeps connect_finish_wf)

lemma resume_fetch_effect:
  "resume_fetch lib net args ch s m st = (r, st') \<Longrightarrow> segment_effect args st st'"
  by (auto simp: resume_fetch_def segment_effect_def proc_wf_def insert_reflection_wf
      split: poll.splits result.splits) blast

lemma call_resume_effect:
  "call_resume lib net args pc st = (r, st') \<Longrightarrow> segment_effect args st st'"
  by (cases pc)
     (auto dest: resume_start_state resume_unary_state resume_dial_effect resume_fetch_effect)

lemma call_resume_reflection_only:
  "call_resume lib net args pc st = (r, st') \<Longrightarrow> reflection_only (ps_registry st) \<Longrightarrow>
     reflection_only (ps_registry st')"
  using call_resume_effect [of lib net args pc st r st']
  by (auto simp: segment_effect_def reflection_only_insert)

lemma with_channel_no_fetch:
  "\<not> ca_use_reflection args \<Longrightarrow> with_channel lib args s m ch reg \<noteq> At_Fetch a b c"
  by (auto simp: with_channel_def with_pool_def split: option.splits result.splits)

section \<open>A concrete library and network, for the witnesses\<close>

definition sample_lib :: "((string \<times> string list) list, string \<times> string list, nat, string) grpc_lib" where
  "sample_lib =
     \<lparr>lib_transport = \<lparr>tp_from_shared = \<lambda>_. Ok (), tp_tls_config = \<lambda>_. Ok ()\<rparr>,
      lib_pool = sample_pool,
      lib_json_string = \<lambda>j. (case j of JString s \<Rightarrow> Ok s | _ \<Rightarrow> Ok ''{}''),
      lib_deserialize = \<lambda>d s. Ok s,
      lib_encode = \<lambda>m. m,
      lib_decode = \<lambda>d b. Ok b,
      lib_serialize = \<lambda>field_names m. Ok m,
      lib_from_slice = \<lambda>b. Ok (JString b),
      lib_parse_path = Ok,
      lib_metadata_key = Ok,
      lib_metadata_value = Ok,
      lib_json_display = \<lambda>j. ''x'',
      lib_status_display = st_message\<rparr>"

text \<open>A server on channel 1 that echoes the body, through the codec it is given.\<close>

definition sample_net :: "nat grpc_net" where
  "sample_net =
     \<lparr>net_dial = \<lambda>b. Ready (Ok 1),
      net_reflect = sample_reflect,
      net_ready = \<lambda>ch l. Ready (Ok ()),
      net_unary = \<lambda>cd ch l hdrs path body.
        Ready (bind_result (cd_encode cd body []) (\<lambda>frame.
               bind_result (fst (cd_decode cd frame)) (\<lambda>m.
               ok_or m (internal_status ''Missing response message''))))\<rparr>"

definition sample_args :: call_args where
  "sample_args =
     \<lparr>ca_endpoint = ''h:1'', ca_method = ''pkg.S/M'', ca_request = JString ''hello'',
      ca_use_reflection = True, ca_metadata = None, ca_tls = None,
      ca_max_decode = None, ca_max_encode = None\<rparr>"

lemmas sample_defs =
  sample_lib_def sample_net_def sample_args_def sample_pool_def sample_reflect_def

section \<open>Theorems\<close>

lemma call_async_own:
  assumes "call_async lib net args st = (r, st')"
  shows "(\<forall>k c. hm_get (ps_channels st) k = Some c \<longrightarrow> hm_get (ps_channels st') k = Some c) \<and>
         (ps_registry st' = ps_registry st \<or>
          (\<exists>s m pool. parse_method (ca_method args) = Ok (s, m) \<and> ca_use_reflection args
             \<and> hm_get (ps_registry st) s = None
             \<and> ps_registry st' = insert_proto_reflection s pool (ca_endpoint args) (ps_registry st)))"
  using assms unfolding call_async_eq_direct call_direct_def
  by (auto simp: Let_def get_proto_def dest: get_or_connect_keeps
      split: result.splits poll.splits prod.splits option.splits if_splits)

lemma call_resume_frame:
  assumes run: "call_resume lib net args pc st = (z, st')"
  shows "(\<forall>k c. hm_get (ps_channels st) k = Some c \<longrightarrow> hm_get (ps_channels st') k = Some c) \<and>
         (ps_registry st' = ps_registry st \<or>
          (\<exists>ch s m pool. pc = At_Fetch ch s m
             \<and> fetch_pool (lib_pool lib) (net_reflect net) ch s (ca_max_decode args) (ca_max_encode args) = Ready (Ok pool)
             \<and> ps_registry st' = insert_proto_reflection s pool (ca_endpoint args) (ps_registry st)))"
proof -
  have "\<forall>k c. hm_get (ps_channels st) k = Some c \<longrightarrow> hm_get (ps_channels st') k = Some c"
    using call_resume_effect [OF run] by (simp add: segment_effect_def)
  moreover have "ps_registry st' = ps_registry st \<or>
      (\<exists>ch s m pool. pc = At_Fetch ch s m
         \<and> fetch_pool (lib_pool lib) (net_reflect net) ch s (ca_max_decode args) (ca_max_encode args) = Ready (Ok pool)
         \<and> ps_registry st' = insert_proto_reflection s pool (ca_endpoint args) (ps_registry st))"
    using run
    by (cases pc)
       (auto simp: resume_fetch_def dest: resume_start_state resume_unary_state resume_dial_effect
         split: poll.splits result.splits)
  ultimately show ?thesis by blast
qed

text \<open>
  C17: what a call does to the caches of its process.  No poll, wherever the call stands and whatever other
  tasks have done since the last one, removes or replaces a cached channel; and the only poll that changes the
  registry is the one at which a reflection fetch succeeds, which writes one entry: the fetched pool, under
  the service of the call, from reflection (in a batch a task that reflected the same service earlier loses its entry).
  With nothing in between, a call never touches the entry of a registered service: it adds at
  most the service it names, only when reflection is allowed and the service was not there.
\<close>

theorem call_async_frame:
  "(\<forall>pc st z st'. call_resume lib net args pc st = (z, st') \<longrightarrow>
      (\<forall>k c. hm_get (ps_channels st) k = Some c \<longrightarrow> hm_get (ps_channels st') k = Some c) \<and>
      (ps_registry st' = ps_registry st \<or>
       (\<exists>ch s m pool. pc = At_Fetch ch s m
          \<and> fetch_pool (lib_pool lib) (net_reflect net) ch s (ca_max_decode args) (ca_max_encode args) = Ready (Ok pool)
          \<and> ps_registry st' = insert_proto_reflection s pool (ca_endpoint args) (ps_registry st)))) \<and>
   (\<forall>st r st'. call_async lib net args st = (r, st') \<longrightarrow>
      (\<forall>k c. hm_get (ps_channels st) k = Some c \<longrightarrow> hm_get (ps_channels st') k = Some c) \<and>
      (ps_registry st' = ps_registry st \<or>
       (\<exists>s m pool. parse_method (ca_method args) = Ok (s, m) \<and> ca_use_reflection args
          \<and> hm_get (ps_registry st) s = None
          \<and> ps_registry st' = insert_proto_reflection s pool (ca_endpoint args) (ps_registry st))))"
  using call_resume_frame [of lib net args] call_async_own [of lib net args] by blast

theorem call_async_frame_witness:
  "\<exists>st' z s'. call_async sample_lib sample_net sample_args \<lparr>ps_channels = [], ps_registry = []\<rparr>
          = (Ready (Ok (JString ''hello'')), st')
     \<and> hm_get (ps_registry st') ''pkg.S'' \<noteq> None
     \<and> (ps_registry st' = ps_registry \<lparr>ps_channels = [] :: nat channels, ps_registry = []\<rparr> \<or>
          (\<exists>s m pool. parse_method (ca_method sample_args) = Ok (s, m) \<and> ca_use_reflection sample_args
             \<and> hm_get [] s = (None :: (string \<times> string list) list registered_service option)
             \<and> ps_registry st' = insert_proto_reflection s pool (ca_endpoint sample_args) []))
     \<and> call_resume sample_lib sample_net sample_args (At_Dial ''pkg.S'' ''M'' (''h:1'', None) \<lparr>eb_uri = [], eb_tls = None\<rparr>) st' = (z, s')
     \<and> hm_get (ps_channels s') (''h:1'', None) = Some 1 \<and> ps_registry s' = ps_registry st'"
proof -
  let ?st = "\<lparr>ps_channels = [] :: nat channels, ps_registry = []\<rparr>"
  let ?pc = "At_Dial ''pkg.S'' ''M'' (''h:1'', None) \<lparr>eb_uri = [], eb_tls = None\<rparr> :: (nat, nat) call_pc"
  obtain r st' where h: "call_async sample_lib sample_net sample_args ?st = (r, st')" by fastforce
  have run: "(r, st') = (Ready (Ok (JString ''hello'')),
      \<lparr>ps_channels = [((''h:1'', None), 1)],
       ps_registry = [(''pkg.S'', Registered [(''pkg.S'', [''pkg.S'']), (''any.proto'', [])]
                                    (Reflection ''h:1''))]\<rparr>)"
    unfolding h [symmetric] by code_simp
  obtain z s' where z: "call_resume sample_lib sample_net sample_args ?pc st' = (z, s')" by fastforce
  note claim = call_async_frame [of sample_lib sample_net sample_args]
  have "hm_get (ps_channels s') (''h:1'', None) = Some 1"
    using conjunct1 [OF claim, rule_format, OF z] run by auto
  moreover have "ps_registry s' = ps_registry st'"
    using conjunct1 [OF claim, rule_format, OF z] by auto
  moreover have "ps_registry st' = ps_registry ?st \<or>
          (\<exists>s m pool. parse_method (ca_method sample_args) = Ok (s, m) \<and> ca_use_reflection sample_args
             \<and> hm_get [] s = (None :: (string \<times> string list) list registered_service option)
             \<and> ps_registry st' = insert_proto_reflection s pool (ca_endpoint sample_args) [])"
    using conjunct2 [OF conjunct2 [OF claim, rule_format, OF h]] by simp
  ultimately show ?thesis using h run z by auto
qed

text \<open>
  C26: a registered service takes precedence over reflection: the call never asks the server for its
  schema, whatever the server would answer, and leaves the registry as it is.
\<close>

theorem registered_service_no_reflection:
  assumes "parse_method (ca_method args) = Ok (s, m)"
    and "get_proto (ps_registry st) s = Some pool"
  shows "call_async lib (net\<lparr>net_reflect := other\<rparr>) args st = call_async lib net args st \<and>
         ps_registry (snd (call_async lib net args st)) = ps_registry st"
proof -
  have same: "call_with_pool lib (net\<lparr>net_reflect := other\<rparr>) args ch s m p = call_with_pool lib net args ch s m p"
    for ch p
    by (simp add: call_with_pool_def unary_call_def cong: result.case_cong poll.case_cong)
  show ?thesis
    using assms unfolding call_async_eq_direct call_direct_def
    by (auto simp: Let_def same split: poll.splits prod.splits result.splits)
qed

theorem registered_service_no_reflection_witness:
  "call_async sample_lib (sample_net\<lparr>net_reflect := \<lambda>_ _ _ _. Elapsed\<rparr>) sample_args
     \<lparr>ps_channels = [], ps_registry = [(''pkg.S'', Registered [] (User_Staged ''f'' ''src''))]\<rparr> =
   call_async sample_lib sample_net sample_args
     \<lparr>ps_channels = [], ps_registry = [(''pkg.S'', Registered [] (User_Staged ''f'' ''src''))]\<rparr>"
proof -
  have a: "parse_method (ca_method sample_args) = Ok (''pkg.S'', ''M'')" by code_simp
  have b: "get_proto (ps_registry \<lparr>ps_channels = [] :: nat channels,
      ps_registry = [(''pkg.S'', Registered [] (User_Staged ''f'' ''src''))]\<rparr>) ''pkg.S'' = Some []"
    by (simp add: get_proto_def)
  show ?thesis by (rule conjunct1 [OF registered_service_no_reflection [OF a b]])
qed

text \<open>
  C27: with reflection disabled, a call to a service the registry does not hold never succeeds, never
  contacts the reflection service and never changes the registry.
\<close>

theorem reflection_disabled_unregistered:
  assumes "\<not> ca_use_reflection args"
    and "parse_method (ca_method args) = Ok (s, m)" and "get_proto (ps_registry st) s = None"
  shows "(\<nexists>v. fst (call_async lib net args st) = Ready (Ok v)) \<and>
         ps_registry (snd (call_async lib net args st)) = ps_registry st \<and>
         call_async lib (net\<lparr>net_reflect := other\<rparr>) args st = call_async lib net args st"
  using assms unfolding call_async_eq_direct call_direct_def
  by (auto simp: Let_def split: poll.splits prod.splits result.splits)

theorem reflection_disabled_unregistered_witness:
  "\<nexists>v. fst (call_async sample_lib sample_net (sample_args\<lparr>ca_use_reflection := False\<rparr>)
      \<lparr>ps_channels = [], ps_registry = []\<rparr>) = Ready (Ok v)"
proof -
  have a: "\<not> ca_use_reflection (sample_args\<lparr>ca_use_reflection := False\<rparr>)" by simp
  have b: "parse_method (ca_method (sample_args\<lparr>ca_use_reflection := False\<rparr>)) = Ok (''pkg.S'', ''M'')"
    by code_simp
  have c: "get_proto (ps_registry \<lparr>ps_channels = [] :: nat channels, ps_registry = []\<rparr>) ''pkg.S'' =
      (None :: (string \<times> string list) list option)"
    by (simp add: get_proto_def)
  show ?thesis by (rule conjunct1 [OF reflection_disabled_unregistered [OF a b c]])
qed

section \<open>Timeouts\<close>

fun is_timeout :: "grpc_error \<Rightarrow> bool" where
  "is_timeout (Timeout _) = True"
| "is_timeout _ = False"

named_theorems no_timeout \<open>an operation whose errors are never Timeout\<close>

lemma parse_method_no_timeout [no_timeout]: "parse_method m = Err e \<Longrightarrow> \<not> is_timeout e"
  by (auto dest: parse_method_Err)

lemma validate_endpoint_no_timeout [no_timeout]: "validate_endpoint ep = Err e \<Longrightarrow> \<not> is_timeout e"
  by (auto dest: validate_endpoint_Err)

lemma connect_start_no_timeout [no_timeout]: "connect_start api ep tls m = Err e \<Longrightarrow> \<not> is_timeout e"
  by (auto simp: connect_start_def result_split Let_def dest: validate_endpoint_no_timeout
      split: option.splits)

lemma get_or_connect_no_timeout [no_timeout]:
  "get_or_connect api dial ep tls m = (Ready (Err e), m') \<Longrightarrow> \<not> is_timeout e"
  by (auto simp: get_or_connect_def connect_finish_Err dest: connect_start_no_timeout
      split: result.splits connect_step.splits poll.splits prod.splits)

lemma fetch_pool_no_timeout [no_timeout]:
  "fetch_pool api reflect ch s dec enc = Ready (Err e) \<Longrightarrow> \<not> is_timeout e"
  by (auto simp: fetch_pool_def dest!: finish_pool_Err split: poll.splits result.splits if_splits)

lemma resolve_method_no_timeout [no_timeout]: "resolve_method api p s m = Err e \<Longrightarrow> \<not> is_timeout e"
  by (auto simp: resolve_method_def result_split)

lemma encode_request_no_timeout [no_timeout]: "encode_request lib d j = Err e \<Longrightarrow> \<not> is_timeout e"
  by (auto simp: encode_request_def result_split)

lemma decode_response_no_timeout [no_timeout]: "decode_response lib d b = Err e \<Longrightarrow> \<not> is_timeout e"
  by (auto simp: decode_response_def result_split)

lemma append_items_Err: "append_items lib key mk items md = Err e \<Longrightarrow> \<exists>s. e = Call s"
  by (induction lib key mk items md rule: append_items.induct)
     (auto simp: result_split Let_def split: if_splits)

lemma append_entries_Err: "append_entries lib obj md = Err e \<Longrightarrow> \<exists>s. e = Call s"
  by (induction lib obj md rule: append_entries.induct) (auto simp: result_split dest: append_items_Err)

lemma apply_metadata_no_timeout [no_timeout]: "apply_metadata lib md z = Err e \<Longrightarrow> \<not> is_timeout e"
  by (auto simp: apply_metadata_def dest: append_entries_Err split: option.splits json.splits)

lemma unary_call_no_timeout [no_timeout]:
  "unary_call lib net ch s m body md dec enc = Ready (Err e) \<Longrightarrow> \<not> is_timeout e"
  by (auto simp: unary_call_def Let_def result_split dest: apply_metadata_no_timeout
      split: result.splits poll.splits)

lemma call_with_pool_no_timeout [no_timeout]:
  "call_with_pool lib net args ch s m pool = Ready (Err e) \<Longrightarrow> \<not> is_timeout e"
  by (auto simp: call_with_pool_def result_split
      dest: resolve_method_no_timeout encode_request_no_timeout decode_response_no_timeout
        unary_call_no_timeout
      split: result.splits poll.splits)

lemma call_async_no_timeout:
  "call_async lib net args st = (Ready (Err e), st') \<Longrightarrow> \<not> is_timeout e"
  unfolding call_async_eq_direct call_direct_def
  by (auto simp: Let_def
      dest: parse_method_no_timeout get_or_connect_no_timeout fetch_pool_no_timeout
        call_with_pool_no_timeout
      split: result.splits poll.splits prod.splits option.splits if_splits)

text \<open>
  C25: the \<open>Timeout\<close> error is reported exactly when the deadline passed while the call was waiting
  for the network, with the timeout that was set; no other failure is ever reported as a timeout.
  What the call had cached when the deadline passed stays cached.
\<close>

theorem make_grpc_call_timeout:
  "make_grpc_call lib net runtime args t st = (Err (Timeout t'), st') \<longleftrightarrow>
     t' = t \<and> is_ok runtime \<and> call_async lib net args st = (Elapsed, st')"
proof (cases "call_async lib net args st")
  case (Pair r s)
  have "r = Ready (Err (Timeout t')) \<Longrightarrow> False"
    using call_async_no_timeout [of lib net args st "Timeout t'" s] Pair by simp
  with Pair show ?thesis
    by (cases runtime) (auto simp: make_grpc_call_def split: poll.splits)
qed

section \<open>Metadata and bodies\<close>

definition item_text :: "('p, 'f, 'd, 'm) grpc_lib \<Rightarrow> json \<Rightarrow> string" where
  "item_text lib item = (case item of JString s \<Rightarrow> s | other \<Rightarrow> lib_json_display lib other)"

text \<open>The headers one entry of the metadata object stands for.\<close>

definition entry_headers :: "('p, 'f, 'd, 'm) grpc_lib \<Rightarrow> string \<times> json \<Rightarrow> headers \<Rightarrow> bool" where
  "entry_headers lib kv hs \<longleftrightarrow>
     (\<exists>mk. lib_metadata_key lib (to_ascii_lowercase (fst kv)) = Ok mk
        \<and> list_all2 (\<lambda>item h. fst h = mk \<and> lib_metadata_value lib (item_text lib item) = Ok (snd h))
            (filter (\<lambda>item. item \<noteq> JNull) (metadata_items (snd kv))) hs)"

lemma append_items_Ok:
  "append_items lib key mk items md = Ok md' \<longleftrightarrow>
     (\<exists>hs. md' = md @ hs
        \<and> list_all2 (\<lambda>item h. fst h = mk \<and> lib_metadata_value lib (item_text lib item) = Ok (snd h))
            (filter (\<lambda>item. item \<noteq> JNull) items) hs)"
proof (induction lib key mk items md rule: append_items.induct)
  case (2 lib key mk item items md)
  show ?case
  proof (cases "item = JNull")
    case False
    then have "append_items lib key mk (item # items) md = Ok md' \<longleftrightarrow>
        (\<exists>v. lib_metadata_value lib (item_text lib item) = Ok v
           \<and> append_items lib key mk items (md @ [(mk, v)]) = Ok md')"
      by (simp add: result_split Let_def item_text_def)
    also have "\<dots> \<longleftrightarrow> (\<exists>hs. md' = md @ hs
        \<and> list_all2 (\<lambda>item h. fst h = mk \<and> lib_metadata_value lib (item_text lib item) = Ok (snd h))
            (item # filter (\<lambda>item. item \<noteq> JNull) items) hs)"
      using "2.IH"(2) [OF False refl] by (force simp: list_all2_Cons1 item_text_def)
    finally show ?thesis using False by simp
  qed (simp add: "2.IH"(1))
qed (auto simp: list_all2_Nil)

lemma append_entries_Cons:
  "append_entries lib ((key, val) # obj) md = Ok md' \<longleftrightarrow>
     (\<exists>hs. entry_headers lib (key, val) hs \<and> append_entries lib obj (md @ hs) = Ok md')"
  by (auto simp: result_split append_items_Ok entry_headers_def)

lemma append_entries_Ok:
  "append_entries lib obj md = Ok md' \<longleftrightarrow>
     (\<exists>hss. md' = md @ concat hss \<and> list_all2 (entry_headers lib) obj hss)"
proof (induction obj arbitrary: md)
  case Nil
  then show ?case by auto
next
  case (Cons kv obj)
  obtain key val where kv: "kv = (key, val)" by (cases kv)
  have "append_entries lib (kv # obj) md = Ok md' \<longleftrightarrow>
      (\<exists>hs hss. entry_headers lib kv hs \<and> list_all2 (entry_headers lib) obj hss
         \<and> md' = md @ hs @ concat hss)"
    unfolding kv append_entries_Cons Cons.IH append_assoc by blast
  also have "\<dots> \<longleftrightarrow> (\<exists>hss. md' = md @ concat hss \<and> list_all2 (entry_headers lib) (kv # obj) hss)"
    unfolding list_all2_Cons1 by (metis concat.simps(2))
  finally show ?case .
qed

text \<open>
  C24: \<open>apply_metadata\<close> succeeds on an object exactly when every key is a valid header name in lower
  case and every non-null value a valid header value; it then appends, after the headers already
  there and in the order of the object, one header per value, an array giving one header per
  item and a null none.
\<close>

theorem apply_metadata_spec:
  "apply_metadata lib md (Some (JObject obj)) = Ok md' \<longleftrightarrow>
     (\<exists>hss. md' = md @ concat hss \<and> list_all2 (entry_headers lib) obj hss)"
  by (simp add: apply_metadata_def append_entries_Ok)

text \<open>
  The raw codec carries every body: a body framed by the encoder and read back by the decoder is
  delivered whole, the empty body included, and the decoder never answers "no message", which
  tonic would report as a missing response.
\<close>

theorem raw_codec_roundtrip:
  "bind_result (cd_encode raw_bytes_codec body []) (\<lambda>frame. fst (cd_decode raw_bytes_codec frame)) =
     Ok (Some body)"
  by (auto simp: raw_bytes_codec_def raw_encode_def raw_decode_def)

end
