(* ===== verification/Queue.thy ===== *)
theory Queue
  imports Json_Value
begin

text \<open>
  The two tables of the asynchronous path (\<open>src/src/async_schema.rs\<close>) and the four statements that
  work on them (\<open>src/src/queue.rs\<close>).  A table is the list of its rows; a statement is a function from
  the tables to the tables or to the SQL error that aborts the transaction.  What PostgreSQL leaves
  open is a parameter: the order in which \<open>DELETE ... RETURNING\<close> yields its rows, the arithmetic of
  \<open>timestamptz\<close> and \<open>interval\<close>, and which JSON values \<open>jsonb\<close> refuses.
\<close>

section \<open>Rows and results\<close>

record queue_row =
  qr_id :: i64
  qr_endpoint :: string
  qr_method :: string
  qr_request :: json
  qr_metadata :: "json option"
  qr_options :: "json option"
  qr_timeout_ms :: i32

datatype call_outcome = Outcome_Success json | Outcome_Error string

record call_result =
  cr_id :: i64
  cr_outcome :: call_outcome

datatype lookup_status = Pending | Lookup_Success json | Lookup_Error string

record lookup_result =
  lr_id :: i64
  lr_status :: lookup_status

record result_row =
  res_id :: i64
  res_status :: string
  res_response :: "json option"
  res_error_msg :: "string option"
  res_created :: int

text \<open>\<open>grpc.call_queue\<close> with its \<open>bigserial\<close> sequence, and \<open>grpc._call_result\<close>.\<close>

record queue_db =
  call_queue :: "queue_row list"
  next_id :: int
  call_results :: "result_row list"

datatype sql_error =
    Unique_Violation
  | Check_Violation
  | Negative_Limit
  | Sequence_Exhausted
  | Raised string

definition empty_db :: queue_db where
  "empty_db = \<lparr>call_queue = [], next_id = 1, call_results = []\<rparr>"

section \<open>The statements\<close>

text \<open>
  \<open>nextval\<close> of the sequence: never rolled back, an error past \<open>i64::MAX\<close>.
\<close>

definition next_call_id :: "queue_db \<Rightarrow> (i64 \<times> queue_db, sql_error) result" where
  "next_call_id db =
     (if next_id db \<le> i64_max
      then Ok (word_of_int (next_id db), db\<lparr>next_id := next_id db + 1\<rparr>)
      else Err Sequence_Exhausted)"

definition insert_queue :: "queue_row list \<Rightarrow> queue_db \<Rightarrow> queue_db" where
  "insert_queue rows db = db\<lparr>call_queue := call_queue db @ rows\<rparr>"

text \<open>The ids of the CTE \<open>SELECT id FROM grpc.call_queue ORDER BY id LIMIT $1\<close>.\<close>

definition batch_ids :: "i32 \<Rightarrow> queue_row list \<Rightarrow> i64 list" where
  "batch_ids batch_size queue =
     take (nat (sint batch_size)) (map qr_id (sort_key (\<lambda>r. sint (qr_id r)) queue))"

definition delete_ids :: "i64 set \<Rightarrow> queue_db \<Rightarrow> queue_db" where
  "delete_ids ids db = db\<lparr>call_queue := filter (\<lambda>r. qr_id r \<notin> ids) (call_queue db)\<rparr>"

definition dequeue ::
  "(queue_row list \<Rightarrow> queue_row list) \<Rightarrow> i32 \<Rightarrow> queue_db
     \<Rightarrow> (queue_row list \<times> queue_db, sql_error) result" where
  "dequeue arrange batch_size db =
     (if sint batch_size < 0 then Err Negative_Limit
      else
        let ids = set (batch_ids batch_size (call_queue db)) in
        Ok (arrange (filter (\<lambda>r. qr_id r \<in> ids) (call_queue db)), delete_ids ids db))"

text \<open>The four column vectors of \<open>insert_results\<close>, pushed one result at a time.\<close>

record result_columns =
  col_ids :: "i64 list"
  col_statuses :: "string list"
  col_responses :: "json option list"
  col_error_msgs :: "string option list"

definition push_result :: "result_columns \<Rightarrow> call_result \<Rightarrow> result_columns" where
  "push_result cols r =
     (case cr_outcome r of
        Outcome_Success v \<Rightarrow>
          cols\<lparr>col_ids := col_ids cols @ [cr_id r], col_statuses := col_statuses cols @ [''SUCCESS''],
               col_responses := col_responses cols @ [Some v], col_error_msgs := col_error_msgs cols @ [None]\<rparr>
      | Outcome_Error msg \<Rightarrow>
          cols\<lparr>col_ids := col_ids cols @ [cr_id r], col_statuses := col_statuses cols @ [''ERROR''],
               col_responses := col_responses cols @ [None], col_error_msgs := col_error_msgs cols @ [Some msg]\<rparr>)"

definition result_columns_of :: "call_result list \<Rightarrow> result_columns" where
  "result_columns_of results =
     foldl push_result \<lparr>col_ids = [], col_statuses = [], col_responses = [], col_error_msgs = []\<rparr> results"

text \<open>\<open>SELECT * FROM UNNEST(...)\<close>, with \<open>created\<close> defaulting to the start of the transaction.\<close>

definition unnest_rows :: "int \<Rightarrow> result_columns \<Rightarrow> result_row list" where
  "unnest_rows now cols =
     map (\<lambda>(i, st, resp, msg).
            \<lparr>res_id = i, res_status = st, res_response = resp, res_error_msg = msg, res_created = now\<rparr>)
       (zip (col_ids cols) (zip (col_statuses cols) (zip (col_responses cols) (col_error_msgs cols))))"

text \<open>INSERT under the primary key and the CHECK constraint on \<open>status\<close>.\<close>

fun insert_result_rows :: "result_row list \<Rightarrow> result_row list \<Rightarrow> (result_row list, sql_error) result" where
  "insert_result_rows [] stored = Ok stored"
| "insert_result_rows (r # rs) stored =
     (if res_status r \<notin> {''SUCCESS'', ''ERROR''} then Err Check_Violation
      else if res_id r \<in> set (map res_id stored) then Err Unique_Violation
      else insert_result_rows rs (stored @ [r]))"

text \<open>
  The arguments become datums before the statement runs.  A response goes through \<open>jsonb_in\<close>, which
  raises on what \<open>jsonb\<close> cannot hold, such as a string with \<open>\u0000\<close>; the first one refused ends the
  conversion.  \<open>jsonb\<close> is that function as far as the code sees it.
\<close>

fun convert_responses :: "(json \<Rightarrow> (unit, string) result) \<Rightarrow> json option list \<Rightarrow> (unit, sql_error) result" where
  "convert_responses jsonb [] = Ok ()"
| "convert_responses jsonb (None # vs) = convert_responses jsonb vs"
| "convert_responses jsonb (Some v # vs) =
     bind_result (map_err Raised (jsonb v)) (\<lambda>_. convert_responses jsonb vs)"

definition insert_results ::
  "(json \<Rightarrow> (unit, string) result) \<Rightarrow> call_result list \<Rightarrow> int \<Rightarrow> queue_db \<Rightarrow> (queue_db, sql_error) result" where
  "insert_results jsonb results now db =
     (if results = [] then Ok db
      else
        let cols = result_columns_of results in
        bind_result (convert_responses jsonb (col_responses cols)) (\<lambda>_.
        map_ok (\<lambda>stored. db\<lparr>call_results := stored\<rparr>)
          (insert_result_rows (unnest_rows now cols) (call_results db))))"

text \<open>
  What \<open>now() - $1::interval\<close> can come to in pgrx: a timestamp, an SPI error (reported as a warning)
  or an \<open>ereport(ERROR)\<close>, which unwinds.
\<close>

datatype 'a spi = Spi_Ok 'a | Spi_Err string | Spi_Raise string

definition ttl_cleanup ::
  "(int \<Rightarrow> string \<Rightarrow> int spi) \<Rightarrow> string \<Rightarrow> int \<Rightarrow> queue_db \<Rightarrow> (queue_db, sql_error) result" where
  "ttl_cleanup cutoff ttl now db =
     (case cutoff now ttl of
        Spi_Ok c \<Rightarrow> Ok (db\<lparr>call_results := filter (\<lambda>r. \<not> res_created r < c) (call_results db)\<rparr>)
      | Spi_Err e \<Rightarrow> Ok db
      | Spi_Raise e \<Rightarrow> Err (Raised e))"

text \<open>What the worker relies on of PostgreSQL: the cutoff of the clean-up and the conversion to \<open>jsonb\<close>.\<close>

record pg_api =
  pg_cutoff :: "int \<Rightarrow> string \<Rightarrow> int spi"
  pg_jsonb :: "json \<Rightarrow> (unit, string) result"

definition jsonb_to_value :: "json option \<Rightarrow> json" where
  "jsonb_to_value v = (case v of Some j \<Rightarrow> j | None \<Rightarrow> JNull)"

text \<open>The message has an em dash, three bytes in UTF-8.\<close>

definition not_found_message :: string where
  "not_found_message = ''not found '' @ [CHR 0xE2, CHR 0x80, CHR 0x94] @ '' result may have expired''"

text \<open>
  \<open>lookup\<close> runs two SELECTs; each sees the tables of its own snapshot, \<open>db1\<close> and \<open>db2\<close>.
\<close>

definition lookup_status_of :: "result_row \<Rightarrow> lookup_status" where
  "lookup_status_of row =
     (if res_status row = ''SUCCESS'' then Lookup_Success (jsonb_to_value (res_response row))
      else Lookup_Error (case res_error_msg row of Some m \<Rightarrow> m | None \<Rightarrow> []))"

definition lookup :: "i64 \<Rightarrow> queue_db \<Rightarrow> queue_db \<Rightarrow> lookup_result" where
  "lookup call_id db1 db2 =
     (case find (\<lambda>row. res_id row = call_id) (call_results db1) of
        Some row \<Rightarrow> \<lparr>lr_id = call_id, lr_status = lookup_status_of row\<rparr>
      | None \<Rightarrow>
          if 0 < length (filter (\<lambda>r. qr_id r = call_id) (call_queue db2))
          then \<lparr>lr_id = call_id, lr_status = Pending\<rparr>
          else \<lparr>lr_id = call_id, lr_status = Lookup_Error not_found_message\<rparr>)"

section \<open>The tables stay consistent\<close>

definition queue_ids :: "queue_db \<Rightarrow> i64 set" where
  "queue_ids db = qr_id ` set (call_queue db)"

definition result_ids :: "queue_db \<Rightarrow> i64 set" where
  "result_ids db = res_id ` set (call_results db)"

text \<open>
  Primary keys, and what the code keeps true between the tables: an id is in at most one of them,
  and every id in use was handed out by the sequence.
\<close>

definition db_ok :: "queue_db \<Rightarrow> bool" where
  "db_ok db \<longleftrightarrow>
     distinct (map qr_id (call_queue db)) \<and> distinct (map res_id (call_results db))
     \<and> queue_ids db \<inter> result_ids db = {}
     \<and> (\<forall>i \<in> queue_ids db \<union> result_ids db. 0 < sint i \<and> sint i < next_id db)"

lemma db_ok_empty [simp]: "db_ok empty_db"
  by (simp add: db_ok_def empty_db_def queue_ids_def result_ids_def)

lemma queue_ids_delete [simp]: "queue_ids (delete_ids ids db) = queue_ids db - ids"
  by (auto simp: queue_ids_def delete_ids_def)

lemma result_ids_delete [simp]: "result_ids (delete_ids ids db) = result_ids db"
  by (simp add: result_ids_def delete_ids_def)

lemma queue_ids_insert [simp]: "queue_ids (insert_queue rows db) = queue_ids db \<union> qr_id ` set rows"
  by (auto simp: queue_ids_def insert_queue_def)

lemma result_ids_insert_queue [simp]: "result_ids (insert_queue rows db) = result_ids db"
  by (simp add: result_ids_def insert_queue_def)

lemma db_ok_delete: "db_ok db \<Longrightarrow> db_ok (delete_ids ids db)"
  by (auto simp: db_ok_def delete_ids_def queue_ids_def result_ids_def distinct_map_filter)

section \<open>dequeue\<close>

lemma set_batch_ids: "set (batch_ids n q) \<subseteq> qr_id ` set q"
  by (auto simp: batch_ids_def dest: in_set_takeD)

lemma batch_ids_split:
  "map qr_id (sort_key (\<lambda>r. sint (qr_id r)) q) =
     batch_ids n q @ drop (nat (sint n)) (map qr_id (sort_key (\<lambda>r. sint (qr_id r)) q))"
  by (simp add: batch_ids_def)

lemma distinct_sorted_ids:
  "distinct (map qr_id q) \<Longrightarrow> distinct (map qr_id (sort_key f q))"
proof -
  assume "distinct (map qr_id q)"
  moreover have "mset (map qr_id (sort_key f q)) = mset (map qr_id q)" by simp
  ultimately show ?thesis by (metis mset_eq_imp_distinct_iff)
qed

text \<open>Ids in the batch come before every id left in the queue.\<close>

lemma batch_ids_smallest:
  assumes d: "distinct (map qr_id q)" and i: "i \<in> set (batch_ids n q)"
    and j: "j \<in> qr_id ` set q" "j \<notin> set (batch_ids n q)"
  shows "sint i < sint j"
proof -
  let ?s = "map qr_id (sort_key (\<lambda>r. sint (qr_id r)) q)"
  let ?k = "nat (sint n)"
  have "sorted (map sint ?s)"
    using sorted_sort_key [of "\<lambda>r. sint (qr_id r)" q] by (simp add: o_def)
  then have "sorted (map sint (take ?k ?s) @ map sint (drop ?k ?s))"
    by (simp flip: map_append)
  moreover have "i \<in> set (take ?k ?s)" using i by (simp add: batch_ids_def)
  moreover have "j \<in> set (take ?k ?s @ drop ?k ?s)" using j(1) by simp
  then have "j \<in> set (drop ?k ?s)" using j(2) by (simp add: batch_ids_def del: append_take_drop_id)
  ultimately have "sint i \<le> sint j" by (fastforce simp: sorted_append)
  moreover have "i \<noteq> j" using i j(2) by blast
  ultimately show ?thesis by (metis order_le_less signed_word_eqI)
qed

lemma length_batch:
  assumes "distinct (map qr_id q)"
  shows "length (filter (\<lambda>r. qr_id r \<in> set (batch_ids n q)) q) = min (nat (sint n)) (length q)"
proof -
  let ?ids = "batch_ids n q"
  have "distinct (map qr_id (filter (\<lambda>r. qr_id r \<in> set ?ids) q))"
    using assms by (rule distinct_map_filter)
  then have "length (filter (\<lambda>r. qr_id r \<in> set ?ids) q)
      = card (qr_id ` set (filter (\<lambda>r. qr_id r \<in> set ?ids) q))"
    using distinct_card by fastforce
  also have "qr_id ` set (filter (\<lambda>r. qr_id r \<in> set ?ids) q) = set ?ids"
    using set_batch_ids [of n q] by auto
  also have "card (set ?ids) = length ?ids"
    unfolding batch_ids_def
    by (rule distinct_card [OF distinct_take [OF distinct_sorted_ids [OF assms]]])
  finally show ?thesis by (simp add: batch_ids_def min.commute)
qed

text \<open>PostgreSQL yields the deleted rows in an order of its own, each once.\<close>

definition arranges :: "(queue_row list \<Rightarrow> queue_row list) \<Rightarrow> bool" where
  "arranges arrange \<longleftrightarrow> (\<forall>xs. mset (arrange xs) = mset xs)"

lemma arranges_set: "arranges arrange \<Longrightarrow> set (arrange xs) = set xs"
  unfolding arranges_def by (metis set_mset_mset)

lemma arranges_length: "arranges arrange \<Longrightarrow> length (arrange xs) = length xs"
  unfolding arranges_def by (metis size_mset)

lemma arranges_ids: "arranges arrange \<Longrightarrow> mset (map qr_id (arrange xs)) = mset (map qr_id xs)"
  by (simp add: arranges_def)

lemma dequeue_Ok:
  "dequeue arrange n db = Ok (rows, db') \<longleftrightarrow>
     0 \<le> sint n \<and> rows = arrange (filter (\<lambda>r. qr_id r \<in> set (batch_ids n (call_queue db))) (call_queue db))
     \<and> db' = delete_ids (set (batch_ids n (call_queue db))) db"
  by (auto simp: dequeue_def Let_def)

lemma dequeue_rows:
  assumes "arranges arrange" and "dequeue arrange n db = Ok (rows, db')"
  shows "set rows = {r \<in> set (call_queue db). qr_id r \<in> set (batch_ids n (call_queue db))}"
    and "db' = delete_ids (qr_id ` set rows) db"
    and "mset rows + mset (call_queue db') = mset (call_queue db)"
proof -
  show set: "set rows = {r \<in> set (call_queue db). qr_id r \<in> set (batch_ids n (call_queue db))}"
    using assms by (auto simp: dequeue_Ok arranges_set)
  have "qr_id ` set rows = set (batch_ids n (call_queue db))"
    using set set_batch_ids [of n "call_queue db"] by auto
  with assms show "db' = delete_ids (qr_id ` set rows) db" by (simp add: dequeue_Ok)
  have "mset rows = filter_mset (\<lambda>r. qr_id r \<in> set (batch_ids n (call_queue db))) (mset (call_queue db))"
    using assms by (simp add: dequeue_Ok arranges_def)
  with assms show "mset rows + mset (call_queue db') = mset (call_queue db)"
    by (simp add: dequeue_Ok delete_ids_def)
qed

lemma dequeue_distinct:
  assumes "arranges arrange" "db_ok db" "dequeue arrange n db = Ok (rows, db')"
  shows "distinct (map qr_id rows)"
proof -
  let ?rs = "filter (\<lambda>r. qr_id r \<in> set (batch_ids n (call_queue db))) (call_queue db)"
  have "distinct (map qr_id ?rs)"
    using assms(2) by (simp add: db_ok_def distinct_map_filter)
  moreover have "mset (map qr_id rows) = mset (map qr_id ?rs)"
    using assms(1,3) arranges_ids [of arrange ?rs] by (simp add: dequeue_Ok)
  ultimately show ?thesis using mset_eq_imp_distinct_iff by blast
qed

lemma dequeue_empty:
  assumes "arranges arrange" "1 \<le> sint n" "distinct (map qr_id (call_queue db))"
    "dequeue arrange n db = Ok (rows, db')"
  shows "rows = [] \<longleftrightarrow> call_queue db = []"
proof -
  have "length rows = min (nat (sint n)) (length (call_queue db))"
    using assms by (simp add: dequeue_Ok arranges_length length_batch)
  moreover have "0 < nat (sint n)" using assms(2) by simp
  ultimately show ?thesis by (cases rows; cases "call_queue db") simp_all
qed

section \<open>insert_results\<close>

definition result_row_of :: "int \<Rightarrow> call_result \<Rightarrow> result_row" where
  "result_row_of now r =
     (case cr_outcome r of
        Outcome_Success v \<Rightarrow>
          \<lparr>res_id = cr_id r, res_status = ''SUCCESS'', res_response = Some v,
           res_error_msg = None, res_created = now\<rparr>
      | Outcome_Error msg \<Rightarrow>
          \<lparr>res_id = cr_id r, res_status = ''ERROR'', res_response = None,
           res_error_msg = Some msg, res_created = now\<rparr>)"

lemma result_columns_lengths:
  "length (col_statuses (foldl push_result c rs)) = length (col_statuses c) + length rs"
  "length (col_ids (foldl push_result c rs)) = length (col_ids c) + length rs"
  "length (col_responses (foldl push_result c rs)) = length (col_responses c) + length rs"
  "length (col_error_msgs (foldl push_result c rs)) = length (col_error_msgs c) + length rs"
  by (induction rs arbitrary: c) (auto simp: push_result_def split: call_outcome.splits)

text \<open>The four vectors stay in step, so UNNEST puts each result back together.\<close>

lemma unnest_push:
  assumes "length (col_statuses c) = length (col_ids c)" "length (col_responses c) = length (col_ids c)"
    "length (col_error_msgs c) = length (col_ids c)"
  shows "unnest_rows now (push_result c r) = unnest_rows now c @ [result_row_of now r]"
  using assms
  by (auto simp: unnest_rows_def push_result_def result_row_of_def split: call_outcome.splits)

lemma unnest_columns:
  assumes "length (col_statuses c) = length (col_ids c)" "length (col_responses c) = length (col_ids c)"
    "length (col_error_msgs c) = length (col_ids c)"
  shows "unnest_rows now (foldl push_result c rs) = unnest_rows now c @ map (result_row_of now) rs"
  using assms
proof (induction rs arbitrary: c)
  case (Cons r rs)
  have "unnest_rows now (foldl push_result (push_result c r) rs) =
      unnest_rows now (push_result c r) @ map (result_row_of now) rs"
    using Cons.prems by (intro Cons.IH) (auto simp: push_result_def split: call_outcome.splits)
  with Cons.prems show ?case by (simp add: unnest_push)
qed simp

lemma unnest_result_columns: "unnest_rows now (result_columns_of rs) = map (result_row_of now) rs"
  unfolding result_columns_of_def by (subst unnest_columns) (simp_all add: unnest_rows_def)

lemma res_id_result_row_of [simp]: "res_id (result_row_of now r) = cr_id r"
  and res_created_result_row_of [simp]: "res_created (result_row_of now r) = now"
  and res_status_result_row_of: "res_status (result_row_of now r) \<in> {''SUCCESS'', ''ERROR''}"
  by (auto simp: result_row_of_def split: call_outcome.splits)

lemma insert_result_rows_Ok:
  "insert_result_rows (map (result_row_of now) rs) stored = Ok stored' \<longleftrightarrow>
     stored' = stored @ map (result_row_of now) rs
     \<and> distinct (map cr_id rs) \<and> cr_id ` set rs \<inter> res_id ` set stored = {}"
proof (induction rs arbitrary: stored)
  case (Cons r rs)
  then show ?case using res_status_result_row_of [of now r] by auto
qed auto

text \<open>The result can be converted for its column.\<close>

definition storable :: "(json \<Rightarrow> (unit, string) result) \<Rightarrow> call_result \<Rightarrow> bool" where
  "storable jsonb r \<longleftrightarrow> (\<forall>v. cr_outcome r = Outcome_Success v \<longrightarrow> jsonb v = Ok ())"

definition response_of :: "call_result \<Rightarrow> json option" where
  "response_of r = (case cr_outcome r of Outcome_Success v \<Rightarrow> Some v | Outcome_Error msg \<Rightarrow> None)"

lemma storable_response: "storable jsonb r \<longleftrightarrow> (\<forall>v. response_of r = Some v \<longrightarrow> jsonb v = Ok ())"
  by (simp add: storable_def response_of_def split: call_outcome.splits)

lemma col_responses_result_columns [simp]: "col_responses (result_columns_of rs) = map response_of rs"
proof -
  have "col_responses (foldl push_result c rs) = col_responses c @ map response_of rs" for c
    by (induction rs arbitrary: c) (auto simp: push_result_def response_of_def split: call_outcome.splits)
  then show ?thesis by (simp add: result_columns_of_def)
qed

lemma convert_responses_Ok:
  "convert_responses jsonb vs = Ok u \<longleftrightarrow> (\<forall>v. Some v \<in> set vs \<longrightarrow> jsonb v = Ok ())"
  by (induction jsonb vs rule: convert_responses.induct) (auto simp: bind_result_Ok)

lemma convert_results_Ok:
  "convert_responses jsonb (map response_of rs) = Ok u \<longleftrightarrow> (\<forall>r \<in> set rs. storable jsonb r)"
  by (auto simp: convert_responses_Ok storable_response) (metis image_eqI)

lemma convert_results_Err:
  "convert_responses jsonb (map response_of rs) = Err e \<Longrightarrow>
     \<exists>r v msg. r \<in> set rs \<and> cr_outcome r = Outcome_Success v \<and> jsonb v = Err msg \<and> e = Raised msg"
proof (induction rs)
  case (Cons r rs)
  show ?case
  proof (cases "\<exists>v msg. cr_outcome r = Outcome_Success v \<and> jsonb v = Err msg")
    case True
    with Cons.prems show ?thesis by (auto simp: response_of_def)
  next
    case False
    have "convert_responses jsonb (map response_of rs) = Err e"
    proof (cases "response_of r")
      case None
      with Cons.prems show ?thesis by simp
    next
      case (Some v)
      then have "cr_outcome r = Outcome_Success v"
        by (simp add: response_of_def split: call_outcome.splits)
      with False have "jsonb v = Ok ()" by (cases "jsonb v") auto
      with Cons.prems Some show ?thesis by simp
    qed
    with Cons.IH show ?thesis by auto
  qed
qed simp

lemma insert_results_Ok:
  "insert_results jsonb rs now db = Ok db' \<longleftrightarrow>
     db' = db\<lparr>call_results := call_results db @ map (result_row_of now) rs\<rparr>
     \<and> distinct (map cr_id rs) \<and> cr_id ` set rs \<inter> result_ids db = {} \<and> (\<forall>r \<in> set rs. storable jsonb r)"
  by (auto simp: insert_results_def Let_def unnest_result_columns insert_result_rows_Ok bind_result_Ok map_ok_Ok
      convert_results_Ok result_ids_def)

lemma insert_results_Err:
  assumes "insert_results jsonb rs now db = Err e"
  shows "e = Unique_Violation \<and> \<not> (distinct (map cr_id rs) \<and> cr_id ` set rs \<inter> result_ids db = {})
       \<and> (\<forall>r \<in> set rs. storable jsonb r)
     \<or> (\<exists>r v msg. r \<in> set rs \<and> cr_outcome r = Outcome_Success v \<and> jsonb v = Err msg \<and> e = Raised msg)"
proof (cases "convert_responses jsonb (map response_of rs)")
  case (Ok u)
  have only_unique: "insert_result_rows (map (result_row_of now) rs) stored = Err e \<Longrightarrow> e = Unique_Violation"
    for stored
  proof (induction rs arbitrary: stored)
    case (Cons r rs)
    then show ?case using res_status_result_row_of [of now r] by (auto split: if_splits)
  qed simp
  from assms Ok have "e = Unique_Violation"
    by (auto simp: insert_results_def unnest_result_columns Let_def dest: only_unique split: if_splits)
  moreover have "\<not> (distinct (map cr_id rs) \<and> cr_id ` set rs \<inter> result_ids db = {})"
    using assms Ok insert_results_Ok [of jsonb rs now db] convert_results_Ok [of jsonb rs u] by force
  moreover have "\<forall>r \<in> set rs. storable jsonb r" using Ok convert_results_Ok by blast
  ultimately show ?thesis by blast
next
  case (Err d)
  with assms have "d = e" by (auto simp: insert_results_def Let_def split: if_splits)
  with convert_results_Err [OF Err] show ?thesis by blast
qed

text \<open>The batch of a worker cycle violates no constraint: its ids come from the queue.\<close>

lemma insert_results_fresh:
  assumes "db_ok db" and "cr_id ` set rs \<subseteq> queue_ids db" and "distinct (map cr_id rs)"
    and "\<forall>r \<in> set rs. storable jsonb r"
  shows "insert_results jsonb rs now (delete_ids (cr_id ` set rs) db) =
     Ok ((delete_ids (cr_id ` set rs) db)
           \<lparr>call_results := call_results db @ map (result_row_of now) rs\<rparr>)"
  using assms by (auto simp: insert_results_Ok db_ok_def delete_ids_def result_ids_def)

lemma db_ok_move:
  assumes "db_ok db" and "cr_id ` set rs \<subseteq> queue_ids db" and "distinct (map cr_id rs)"
  shows "db_ok ((delete_ids (cr_id ` set rs) db)
           \<lparr>call_results := call_results db @ map (result_row_of now) rs\<rparr>)"
proof -
  let ?db = "(delete_ids (cr_id ` set rs) db)\<lparr>call_results := call_results db @ map (result_row_of now) rs\<rparr>"
  have q: "queue_ids ?db = queue_ids db - cr_id ` set rs"
    using queue_ids_delete [of "cr_id ` set rs" db] by (simp add: queue_ids_def)
  have r: "result_ids ?db = result_ids db \<union> cr_id ` set rs"
    by (simp add: result_ids_def image_Un image_image)
  have ids: "map res_id (call_results ?db) = map res_id (call_results db) @ map cr_id rs" by simp
  have "distinct (map qr_id (call_queue ?db))"
    using assms(1) by (simp add: db_ok_def delete_ids_def distinct_map_filter)
  moreover have "distinct (map res_id (call_results ?db))"
  proof -
    have "cr_id ` set rs \<inter> result_ids db = {}" using assms(1,2) unfolding db_ok_def by blast
    moreover have "distinct (map res_id (call_results db))" using assms(1) by (simp add: db_ok_def)
    ultimately show ?thesis
      unfolding ids distinct_append using assms(3) by (auto simp: result_ids_def)
  qed
  moreover have "(queue_ids db - cr_id ` set rs) \<inter> (result_ids db \<union> cr_id ` set rs) = {}"
    using assms(1) unfolding db_ok_def by blast
  moreover have "\<forall>i \<in> (queue_ids db - cr_id ` set rs) \<union> (result_ids db \<union> cr_id ` set rs).
      0 < sint i \<and> sint i < next_id ?db"
    using assms(1,2) unfolding db_ok_def by (auto simp: delete_ids_def)
  ultimately show ?thesis unfolding db_ok_def q r by simp
qed


section \<open>The other statements keep the tables consistent\<close>

lemma next_call_id_Ok:
  "next_call_id db = Ok (i, db') \<longleftrightarrow>
     next_id db \<le> i64_max \<and> i = word_of_int (next_id db) \<and> db' = db\<lparr>next_id := next_id db + 1\<rparr>"
  by (auto simp: next_call_id_def)

lemma sint_next_call_id:
  "0 < next_id db \<Longrightarrow> next_id db \<le> i64_max \<Longrightarrow> sint (word_of_int (next_id db) :: i64) = next_id db"
  by (simp add: sint_sbintrunc' signed_take_bit_int_eq_self)

lemma db_ok_enqueue:
  assumes ok: "db_ok db" and pos: "0 < next_id db" and "next_call_id db = Ok (qr_id row, db')"
  shows "db_ok (insert_queue [row] db') \<and> qr_id row \<notin> queue_ids db \<union> result_ids db"
proof -
  have i: "sint (qr_id row) = next_id db" and db': "db' = db\<lparr>next_id := next_id db + 1\<rparr>"
    using assms by (auto simp: next_call_id_Ok sint_next_call_id)
  have new: "qr_id row \<notin> queue_ids db \<union> result_ids db"
  proof
    assume "qr_id row \<in> queue_ids db \<union> result_ids db"
    then have "sint (qr_id row) < next_id db" using ok unfolding db_ok_def by blast
    with i show False by simp
  qed
  have q: "queue_ids (insert_queue [row] db') = insert (qr_id row) (queue_ids db)"
    by (simp add: db' queue_ids_def insert_queue_def)
  have r: "result_ids (insert_queue [row] db') = result_ids db"
    by (simp add: db' result_ids_def insert_queue_def)
  have "distinct (map qr_id (call_queue (insert_queue [row] db')))"
    using ok new by (auto simp: db' insert_queue_def db_ok_def queue_ids_def)
  moreover have "distinct (map res_id (call_results (insert_queue [row] db')))"
    using ok by (simp add: db' insert_queue_def db_ok_def)
  moreover have "insert (qr_id row) (queue_ids db) \<inter> result_ids db = {}"
    using ok new unfolding db_ok_def by blast
  moreover have "next_id (insert_queue [row] db') = next_id db + 1"
    by (simp add: db' insert_queue_def)
  moreover have "\<forall>j \<in> insert (qr_id row) (queue_ids db) \<union> result_ids db.
      0 < sint j \<and> sint j < next_id db + 1"
  proof
    fix j
    assume "j \<in> insert (qr_id row) (queue_ids db) \<union> result_ids db"
    then consider "j = qr_id row" | "j \<in> queue_ids db \<union> result_ids db" by blast
    then show "0 < sint j \<and> sint j < next_id db + 1"
    proof cases
      case 2
      with ok have "0 < sint j \<and> sint j < next_id db" unfolding db_ok_def by blast
      then show ?thesis by linarith
    qed (simp add: i pos)
  qed
  ultimately have "db_ok (insert_queue [row] db')" unfolding db_ok_def q r by simp
  with new show ?thesis by blast
qed

lemma db_ok_filter_results:
  assumes "db_ok db"
  shows "db_ok (db\<lparr>call_results := filter P (call_results db)\<rparr>)"
proof -
  let ?db = "db\<lparr>call_results := filter P (call_results db)\<rparr>"
  have "result_ids ?db \<subseteq> result_ids db" by (auto simp: result_ids_def)
  moreover have "queue_ids ?db = queue_ids db" by (simp add: queue_ids_def)
  ultimately show ?thesis
    using assms unfolding db_ok_def by (auto simp: distinct_map_filter)
qed

lemma ttl_cleanup_Ok:
  "ttl_cleanup cutoff ttl now db = Ok db' \<longleftrightarrow>
     (\<exists>c. cutoff now ttl = Spi_Ok c
        \<and> db' = db\<lparr>call_results := filter (\<lambda>r. c \<le> res_created r) (call_results db)\<rparr>)
     \<or> (\<exists>e. cutoff now ttl = Spi_Err e \<and> db' = db)"
  by (auto simp: ttl_cleanup_def not_less split: spi.splits)

lemma ttl_cleanup_db_ok: "ttl_cleanup cutoff ttl now db = Ok db' \<Longrightarrow> db_ok db \<Longrightarrow> db_ok db'"
  by (auto simp: ttl_cleanup_Ok db_ok_filter_results)

lemma ttl_cleanup_queue: "ttl_cleanup cutoff ttl now db = Ok db' \<Longrightarrow> call_queue db' = call_queue db"
  by (auto simp: ttl_cleanup_Ok)

lemma ttl_cleanup_next: "ttl_cleanup cutoff ttl now db = Ok db' \<Longrightarrow> next_id db' = next_id db"
  by (auto simp: ttl_cleanup_Ok)

text \<open>A row of the running transaction is not older than a cutoff in the past.\<close>

lemma ttl_cleanup_keeps_fresh:
  assumes "ttl_cleanup cutoff ttl now db = Ok db'" and "\<And>c. cutoff now ttl = Spi_Ok c \<Longrightarrow> c \<le> now"
    and "r \<in> set (call_results db)" "res_created r = now"
  shows "r \<in> set (call_results db')"
  using assms by (auto simp: ttl_cleanup_Ok)

section \<open>lookup\<close>

lemma find_distinct_key:
  assumes "distinct (map f xs)" "x \<in> set xs"
  shows "find (\<lambda>y. f y = f x) xs = Some x"
  using assms
proof (induction xs)
  case (Cons y ys)
  then show ?case by (cases "y = x") (auto simp: image_iff)
qed simp

lemma lookup_stored:
  assumes "distinct (map res_id (call_results db1))" and "row \<in> set (call_results db1)"
  shows "lookup (res_id row) db1 db2 = \<lparr>lr_id = res_id row, lr_status = lookup_status_of row\<rparr>"
  using find_distinct_key [OF assms] by (simp add: lookup_def)

lemma lookup_not_stored:
  "i \<notin> result_ids db1 \<Longrightarrow>
     lookup i db1 db2 = \<lparr>lr_id = i, lr_status =
       (if i \<in> queue_ids db2 then Pending else Lookup_Error not_found_message)\<rparr>"
proof -
  assume "i \<notin> result_ids db1"
  then have "find (\<lambda>row. res_id row = i) (call_results db1) = None"
    by (auto simp: find_None_iff result_ids_def)
  moreover have "filter (\<lambda>r. qr_id r = i) q = [] \<longleftrightarrow> i \<notin> qr_id ` set q" for q :: "queue_row list"
    by (auto simp: filter_empty_conv)
  ultimately show ?thesis by (simp add: lookup_def queue_ids_def)
qed

lemma lookup_status_result_row_of:
  "lookup_status_of (result_row_of now r) =
     (case cr_outcome r of Outcome_Success v \<Rightarrow> Lookup_Success v | Outcome_Error m \<Rightarrow> Lookup_Error m)"
  by (simp add: lookup_status_of_def result_row_of_def jsonb_to_value_def split: call_outcome.splits)

lemma lr_id_lookup [simp]: "lr_id (lookup i db1 db2) = i"
  by (simp add: lookup_def split: option.splits)

section \<open>Theorems\<close>

definition sample_row :: "i64 \<Rightarrow> queue_row" where
  "sample_row i =
     \<lparr>qr_id = i, qr_endpoint = ''h:1'', qr_method = ''pkg.S/M'', qr_request = JNull,
      qr_metadata = None, qr_options = None, qr_timeout_ms = 30000\<rparr>"

definition sample_db :: queue_db where
  "sample_db = \<lparr>call_queue = [sample_row 3, sample_row 1, sample_row 2], next_id = 4, call_results = []\<rparr>"

lemma sample_db_ok: "db_ok sample_db"
  by (simp add: db_ok_def sample_db_def sample_row_def queue_ids_def result_ids_def)

lemma arranges_id: "arranges (\<lambda>xs. xs)" and arranges_rev: "arranges rev"
  by (simp_all add: arranges_def)

text \<open>
  C12: \<open>dequeue\<close> takes the calls enqueued first: the rows it returns and the rows it leaves are the
  queue split in two, the batch has as many rows as the batch size allows, each id in it is smaller
  than each id left behind, and nothing else of the tables changes.
\<close>

theorem dequeue_spec:
  assumes "arranges arrange" and "db_ok db" and "0 \<le> sint n"
  shows "\<exists>rows db'. dequeue arrange n db = Ok (rows, db')
     \<and> mset rows + mset (call_queue db') = mset (call_queue db)
     \<and> length rows = min (nat (sint n)) (length (call_queue db))
     \<and> (\<forall>r \<in> set rows. \<forall>r' \<in> set (call_queue db'). sint (qr_id r) < sint (qr_id r'))
     \<and> call_results db' = call_results db \<and> next_id db' = next_id db"
proof -
  let ?ids = "set (batch_ids n (call_queue db))"
  let ?rows = "arrange (filter (\<lambda>r. qr_id r \<in> ?ids) (call_queue db))"
  have d: "distinct (map qr_id (call_queue db))" using assms(2) by (simp add: db_ok_def)
  have run: "dequeue arrange n db = Ok (?rows, delete_ids ?ids db)"
    using assms(3) by (simp add: dequeue_Ok)
  have "length ?rows = min (nat (sint n)) (length (call_queue db))"
    using assms(1) by (simp add: arranges_length length_batch [OF d])
  moreover have "sint (qr_id r) < sint (qr_id r')"
    if "r \<in> set ?rows" "r' \<in> set (call_queue (delete_ids ?ids db))" for r r'
    using that assms(1) by (intro batch_ids_smallest [OF d]) (auto simp: arranges_set delete_ids_def)
  ultimately show ?thesis
    using run dequeue_rows(3) [OF assms(1) run] by (auto simp: delete_ids_def)
qed

theorem dequeue_spec_witness:
  "\<exists>rows db'. dequeue rev 2 sample_db = Ok (rows, db')
     \<and> mset rows + mset (call_queue db') = mset (call_queue sample_db)
     \<and> length rows = 2
     \<and> (\<forall>r \<in> set rows. \<forall>r' \<in> set (call_queue db'). sint (qr_id r) < sint (qr_id r'))
     \<and> call_results db' = [] \<and> next_id db' = 4"
  using dequeue_spec [OF arranges_rev sample_db_ok, of 2] by (simp add: sample_db_def numeral_2_eq_2)

text \<open>
  C13: what the worker stores is what a caller reads: after \<open>insert_results\<close> has committed, \<open>lookup\<close> of
  an id of the batch gives back the very outcome that was stored, whatever the queue holds.
\<close>

theorem lookup_after_insert:
  assumes "distinct (map res_id (call_results db))" and "insert_results jsonb rs now db = Ok db'"
    and "r \<in> set rs"
  shows "lookup (cr_id r) db' db2 =
     \<lparr>lr_id = cr_id r, lr_status =
        (case cr_outcome r of Outcome_Success v \<Rightarrow> Lookup_Success v | Outcome_Error m \<Rightarrow> Lookup_Error m)\<rparr>"
proof -
  have ids: "map res_id (map (result_row_of now) rs) = map cr_id rs" by simp
  have "distinct (map res_id (call_results db'))"
    using assms(1,2) unfolding insert_results_Ok
    by (auto simp: ids result_ids_def simp del: map_map)
  moreover have "result_row_of now r \<in> set (call_results db')"
    using assms(2,3) by (simp add: insert_results_Ok)
  ultimately have "lookup (res_id (result_row_of now r)) db' db2 =
      \<lparr>lr_id = res_id (result_row_of now r), lr_status = lookup_status_of (result_row_of now r)\<rparr>"
    by (rule lookup_stored)
  then show ?thesis by (simp add: lookup_status_result_row_of)
qed

text \<open>A \<open>jsonb\<close> that refuses strings with a NUL.\<close>

definition sample_jsonb :: "json \<Rightarrow> (unit, string) result" where
  "sample_jsonb v =
     (case v of JString s \<Rightarrow> if CHR 0x00 \<in> set s then Err ''unsupported Unicode escape sequence'' else Ok ()
      | _ \<Rightarrow> Ok ())"

definition sample_results :: "call_result list" where
  "sample_results =
     [\<lparr>cr_id = 7, cr_outcome = Outcome_Success (JBool True)\<rparr>,
      \<lparr>cr_id = 8, cr_outcome = Outcome_Error ''boom''\<rparr>]"

theorem lookup_after_insert_witness:
  "\<exists>db'. insert_results sample_jsonb sample_results 5 empty_db = Ok db'
     \<and> lookup 8 db' empty_db = \<lparr>lr_id = 8, lr_status = Lookup_Error ''boom''\<rparr>"
proof -
  have d: "distinct (map res_id (call_results empty_db))" by (simp add: empty_db_def)
  obtain db' where h: "insert_results sample_jsonb sample_results 5 empty_db = Ok db'"
    by (auto simp: insert_results_Ok sample_results_def storable_def sample_jsonb_def result_ids_def empty_db_def)
  have r: "\<lparr>cr_id = 8, cr_outcome = Outcome_Error ''boom''\<rparr> \<in> set sample_results"
    by (simp add: sample_results_def)
  show ?thesis using h lookup_after_insert [OF d h r, of empty_db] by simp
qed

text \<open>
  C14: \<open>insert_results\<close> is all or nothing, with two ways to fail.  When \<open>jsonb\<close> accepts every response, it
  succeeds exactly when the ids of the batch are distinct and none has a result yet, and then appends
  one row per result, in order, with the status, the response and the message of its own result; if
  the ids are not, it is the error of the primary key.  When \<open>jsonb\<close> refuses a response, nothing is
  stored, not even for the other calls of the batch, and the error is the one \<open>jsonb\<close> raised.  The
  CHECK constraint on the status is never violated.
\<close>

theorem insert_results_all_or_nothing:
  "case insert_results jsonb rs now db of
     Ok db' \<Rightarrow>
       db' = db\<lparr>call_results := call_results db @ map (result_row_of now) rs\<rparr>
       \<and> distinct (map cr_id rs) \<and> cr_id ` set rs \<inter> result_ids db = {}
       \<and> (\<forall>r v. r \<in> set rs \<and> cr_outcome r = Outcome_Success v \<longrightarrow> jsonb v = Ok ())
   | Err e \<Rightarrow>
       e = Unique_Violation \<and> \<not> (distinct (map cr_id rs) \<and> cr_id ` set rs \<inter> result_ids db = {})
         \<and> (\<forall>r v. r \<in> set rs \<and> cr_outcome r = Outcome_Success v \<longrightarrow> jsonb v = Ok ())
       \<or> (\<exists>r v msg. r \<in> set rs \<and> cr_outcome r = Outcome_Success v \<and> jsonb v = Err msg \<and> e = Raised msg)"
proof (cases "insert_results jsonb rs now db")
  case (Ok db')
  from Ok [unfolded insert_results_Ok] show ?thesis
    unfolding Ok by (auto simp: storable_def)
next
  case (Err e)
  from insert_results_Err [OF Err] show ?thesis
    unfolding Err by (auto simp: storable_def)
qed

theorem insert_results_all_or_nothing_witness:
  "insert_results sample_jsonb [\<lparr>cr_id = 7, cr_outcome = Outcome_Success (JBool True)\<rparr>,
      \<lparr>cr_id = 8, cr_outcome = Outcome_Success (JString [CHR 0x00])\<rparr>] 5 empty_db
     = Err (Raised ''unsupported Unicode escape sequence'')"
proof -
  let ?rs = "[\<lparr>cr_id = 7, cr_outcome = Outcome_Success (JBool True)\<rparr>,
      \<lparr>cr_id = 8, cr_outcome = Outcome_Success (JString [CHR 0x00])\<rparr>]"
  have bad: "sample_jsonb (JString [CHR 0x00]) = Err ''unsupported Unicode escape sequence''"
    by (simp add: sample_jsonb_def)
  note claim = insert_results_all_or_nothing [where jsonb = sample_jsonb and rs = ?rs and now = 5 and db = empty_db]
  show ?thesis
  proof (cases "insert_results sample_jsonb ?rs 5 empty_db")
    case (Ok db')
    with claim have "\<forall>r v. r \<in> set ?rs \<and> cr_outcome r = Outcome_Success v \<longrightarrow> sample_jsonb v = Ok ()" by simp
    then have "sample_jsonb (JString [CHR 0x00]) = Ok ()" by fastforce
    with bad show ?thesis by simp
  next
    case (Err e)
    with claim bad show ?thesis by (auto simp: result_ids_def empty_db_def sample_jsonb_def)
  qed
qed



text \<open>
  C5: with one snapshot for both of its queries, \<open>lookup\<close> of an id answers \<open>Pending\<close> exactly for the
  calls still in the queue, "not found" for an id in neither table, and the stored outcome for an id
  with a result.
\<close>

theorem lookup_one_snapshot:
  assumes "db_ok db"
  shows "(lr_status (lookup i db db) = Pending \<longleftrightarrow> i \<in> queue_ids db) \<and>
     (i \<notin> queue_ids db \<union> result_ids db \<longrightarrow> lr_status (lookup i db db) = Lookup_Error not_found_message) \<and>
     (i \<in> result_ids db \<longrightarrow> (\<exists>row \<in> set (call_results db). res_id row = i
        \<and> lr_status (lookup i db db) = lookup_status_of row))"
proof (cases "i \<in> result_ids db")
  case True
  then obtain row where row: "row \<in> set (call_results db)" "res_id row = i"
    by (auto simp: result_ids_def)
  have "lookup i db db = \<lparr>lr_id = i, lr_status = lookup_status_of row\<rparr>"
    using lookup_stored [of db row db] row assms by (simp add: db_ok_def)
  moreover have "i \<notin> queue_ids db" using True assms unfolding db_ok_def by blast
  ultimately show ?thesis using True row by (auto simp: lookup_status_of_def)
qed (simp add: lookup_not_stored)

theorem lookup_one_snapshot_witness: "lr_status (lookup 2 sample_db sample_db) = Pending"
  using lookup_one_snapshot [OF sample_db_ok, of 2] by (simp add: queue_ids_def sample_db_def sample_row_def)

text \<open>
  C37: the two queries of \<open>lookup\<close> are not one: when each takes its own snapshot and the worker commits
  the result of a queued call between them, the caller is told "not found" although the call has
  its result stored.
\<close>

theorem lookup_between_snapshots:
  assumes "db_ok db" and "cr_id ` set rs \<subseteq> queue_ids db" and "r \<in> set rs"
    and "insert_results jsonb rs now (delete_ids (cr_id ` set rs) db) = Ok db'"
  shows "lr_status (lookup (cr_id r) db db') = Lookup_Error not_found_message
     \<and> cr_id r \<in> result_ids db'"
proof -
  have "cr_id r \<in> queue_ids db" using assms(2,3) by blast
  then have "cr_id r \<notin> result_ids db" using assms(1) unfolding db_ok_def by blast
  moreover have "queue_ids db' = queue_ids db - cr_id ` set rs"
    using assms(4) queue_ids_delete [of "cr_id ` set rs" db] by (auto simp: insert_results_Ok queue_ids_def)
  then have "cr_id r \<notin> queue_ids db'" using assms(3) by blast
  moreover have "cr_id r \<in> result_ids db'"
    using assms(3,4) by (auto simp: insert_results_Ok result_ids_def image_Un image_image)
  ultimately show ?thesis by (simp add: lookup_not_stored)
qed

theorem lookup_between_snapshots_witness:
  "\<exists>db'. insert_results sample_jsonb [\<lparr>cr_id = 2, cr_outcome = Outcome_Success JNull\<rparr>] 9 (delete_ids {2} sample_db) = Ok db'
     \<and> lr_status (lookup 2 sample_db db') = Lookup_Error not_found_message"
proof -
  let ?r = "\<lparr>cr_id = 2, cr_outcome = Outcome_Success JNull\<rparr>"
  have q: "cr_id ` set [?r] \<subseteq> queue_ids sample_db"
    by (simp add: queue_ids_def sample_db_def sample_row_def)
  obtain db' where h: "insert_results sample_jsonb [?r] 9 (delete_ids (cr_id ` set [?r]) sample_db) = Ok db'"
    by (auto simp: insert_results_Ok storable_def sample_jsonb_def result_ids_def sample_db_def delete_ids_def)
  show ?thesis
    using h lookup_between_snapshots [OF sample_db_ok q _ h, of ?r] by auto
qed

end
