(* ===== verification/Join_Set.thy ===== *)
theory Join_Set
  imports Call Queue
begin

text \<open>
  One queued call as a task (\<open>call_async_row\<close> of \<open>src/src/call.rs\<close>) and the batch of tasks the
  worker runs in a \<open>JoinSet\<close> (\<open>src/src/worker.rs\<close>).  Tasks share the caches of the worker process and
  run interleaved on one thread: a schedule is a list of events, each a poll of a task (against the
  network as it is at that moment), a panic in a task, or the join of a finished task.
\<close>

section \<open>call_async_row\<close>

definition row_options :: "queue_row \<Rightarrow> options_config grpc_result" where
  "row_options row =
     (case qr_options row of None \<Rightarrow> Ok default_options | Some v \<Rightarrow> options_parse v)"

text \<open>\<open>row.timeout_ms as u64\<close> sign-extends.\<close>

definition row_timeout :: "queue_row \<Rightarrow> u64" where
  "row_timeout row = scast (qr_timeout_ms row)"

definition row_args :: "queue_row \<Rightarrow> options_config \<Rightarrow> call_args" where
  "row_args row opts =
     \<lparr>ca_endpoint = qr_endpoint row, ca_method = qr_method row, ca_request = qr_request row,
      ca_use_reflection = (case opt_use_reflection opts of None \<Rightarrow> True | Some b \<Rightarrow> b),
      ca_metadata = qr_metadata row, ca_tls = opt_tls opts,
      ca_max_decode = opt_max_decode opts, ca_max_encode = opt_max_encode opts\<rparr>"

fun row_outcome :: "u64 \<Rightarrow> json grpc_result poll \<Rightarrow> call_outcome" where
  "row_outcome t (Ready (Ok v)) = Outcome_Success v"
| "row_outcome t (Ready (Err e)) = Outcome_Error (display_error e)"
| "row_outcome t Elapsed = Outcome_Error (''timeout after '' @ show_u64 t @ ''ms'')"

definition call_async_row ::
  "('p, 'f, 'd, 'm) grpc_lib \<Rightarrow> 'ch grpc_net \<Rightarrow> queue_row \<Rightarrow> ('ch, 'p) proc_state
     \<Rightarrow> call_result \<times> ('ch, 'p) proc_state" where
  "call_async_row lib net row st =
     (case row_options row of
        Err e \<Rightarrow> (\<lparr>cr_id = qr_id row, cr_outcome = Outcome_Error (display_error e)\<rparr>, st)
      | Ok opts \<Rightarrow>
          (case call_async lib net (row_args row opts) st of
             (r, st') \<Rightarrow> (\<lparr>cr_id = qr_id row, cr_outcome = row_outcome (row_timeout row) r\<rparr>, st')))"

section \<open>The same, one poll at a time\<close>

datatype ('ch, 'd) row_pc =
    Row_Start
  | Row_In_Call call_args "('ch, 'd) call_pc"
  | Row_Done call_result

text \<open>One segment of the inner call, wrapped in the deadline and the conversion to a result.\<close>

definition row_segment ::
  "('p, 'f, 'd, 'm) grpc_lib \<Rightarrow> 'ch grpc_net \<Rightarrow> queue_row \<Rightarrow> call_args \<Rightarrow> ('ch, 'd) call_pc
     \<Rightarrow> ('ch, 'p) proc_state \<Rightarrow> ('ch, 'd) row_pc \<times> ('ch, 'p) proc_state" where
  "row_segment lib net row args pc st =
     (case call_resume lib net args pc st of
        (None, st') \<Rightarrow>
          (Row_Done \<lparr>cr_id = qr_id row, cr_outcome = row_outcome (row_timeout row) Elapsed\<rparr>, st')
      | (Some (Call_Done r), st') \<Rightarrow>
          (Row_Done \<lparr>cr_id = qr_id row, cr_outcome = row_outcome (row_timeout row) (Ready r)\<rparr>, st')
      | (Some pc', st') \<Rightarrow> (Row_In_Call args pc', st'))"

fun row_resume ::
  "('p, 'f, 'd, 'm) grpc_lib \<Rightarrow> 'ch grpc_net \<Rightarrow> queue_row \<Rightarrow> ('ch, 'd) row_pc
     \<Rightarrow> ('ch, 'p) proc_state \<Rightarrow> ('ch, 'd) row_pc \<times> ('ch, 'p) proc_state" where
  "row_resume lib net row Row_Start st =
     (case row_options row of
        Err e \<Rightarrow> (Row_Done \<lparr>cr_id = qr_id row, cr_outcome = Outcome_Error (display_error e)\<rparr>, st)
      | Ok opts \<Rightarrow> row_segment lib net row (row_args row opts) At_Start st)"
| "row_resume lib net row (Row_In_Call args pc) st = row_segment lib net row args pc st"
| "row_resume lib net row (Row_Done r) st = (Row_Done r, st)"

fun row_polls_left :: "('ch, 'd) row_pc \<Rightarrow> nat" where
  "row_polls_left Row_Start = 5"
| "row_polls_left (Row_In_Call args pc) = Suc (polls_left pc)"
| "row_polls_left (Row_Done r) = 0"

fun row_pc_ok :: "queue_row \<Rightarrow> ('ch, 'd) row_pc \<Rightarrow> bool" where
  "row_pc_ok row Row_Start = True"
| "row_pc_ok row (Row_In_Call args pc) = True"
| "row_pc_ok row (Row_Done r) = (cr_id r = qr_id row)"

lemma polls_left_0: "polls_left pc = 0 \<longleftrightarrow> (\<exists>r. pc = Call_Done r)"
  by (cases pc) auto

lemma row_segment_polls:
  assumes "row_segment lib net row args pc st = (rpc, st')"
  shows "row_pc_ok row rpc \<and> row_polls_left rpc \<le> polls_left pc"
proof -
  obtain z st1 where r: "call_resume lib net args pc st = (z, st1)" by fastforce
  show ?thesis
  proof (cases z)
    case (Some pc')
    with r have "polls_left pc \<noteq> 0 \<Longrightarrow> polls_left pc' < polls_left pc" by (auto dest: call_resume_polls)
    moreover have "polls_left pc = 0 \<Longrightarrow> polls_left pc' = 0" using r Some by (auto simp: polls_left_0)
    ultimately show ?thesis
      using assms r Some by (cases "polls_left pc = 0"; cases pc') (auto simp: row_segment_def)
  qed (use assms r in \<open>auto simp: row_segment_def\<close>)
qed

lemma row_resume_polls:
  "row_resume lib net row pc st = (pc', st') \<Longrightarrow> row_polls_left pc \<noteq> 0 \<Longrightarrow>
     row_pc_ok row pc' \<and> row_polls_left pc' < row_polls_left pc"
  by (cases pc) (auto dest: row_segment_polls split: result.splits)

lemma row_resume_less:
  "row_polls_left pc \<noteq> 0 \<Longrightarrow> row_polls_left (fst (row_resume lib net row pc st)) < row_polls_left pc"
  by (cases "row_resume lib net row pc st") (auto dest: row_resume_polls)

lemma row_resume_steps:
  "row_polls_left (fst (row_resume lib net row Row_Start st)) < 5"
  "row_polls_left (fst (row_resume lib net row (Row_In_Call args pc) st)) < Suc (polls_left pc)"
  using row_resume_less [of Row_Start lib net row st] row_resume_less [of "Row_In_Call args pc" lib net row st]
  by (simp_all del: row_resume.simps)

lemma row_polls_left_0: "row_polls_left pc = 0 \<longleftrightarrow> (\<exists>r. pc = Row_Done r)"
  by (cases pc) auto

lemma row_segment_effect:
  "row_segment lib net row args pc st = (rpc, st') \<Longrightarrow> \<exists>r. call_resume lib net args pc st = (r, st')"
  by (auto simp: row_segment_def split: prod.splits option.splits call_pc.splits)

text \<open>Polled to its end with no other task in between.\<close>

function row_run ::
  "('p, 'f, 'd, 'm) grpc_lib \<Rightarrow> 'ch grpc_net \<Rightarrow> queue_row \<Rightarrow> ('ch, 'd) row_pc
     \<Rightarrow> ('ch, 'p) proc_state \<Rightarrow> call_result \<times> ('ch, 'p) proc_state" where
  "row_run lib net row pc st =
     (case pc of
        Row_Done r \<Rightarrow> (r, st)
      | _ \<Rightarrow> (case row_resume lib net row pc st of (pc', st') \<Rightarrow> row_run lib net row pc' st'))"
  by pat_completeness auto
termination
  by (relation "measure (\<lambda>(lib, net, row, pc, st). row_polls_left pc)")
     (auto simp del: row_resume.simps simp: split_beta row_resume_steps)

declare row_run.simps [simp del]

lemma row_run_Done [simp]: "row_run lib net row (Row_Done r) st = (r, st)"
  by (simp add: row_run.simps)

definition finish_row :: "queue_row \<Rightarrow> json grpc_result poll \<times> 's \<Rightarrow> call_result \<times> 's" where
  "finish_row row z =
     (\<lparr>cr_id = qr_id row, cr_outcome = row_outcome (row_timeout row) (fst z)\<rparr>, snd z)"

lemma row_run_in_call:
  "row_run lib net row (Row_In_Call args pc) st = finish_row row (call_run lib net args pc st)"
proof (induction lib net args pc st rule: call_run.induct)
  case (1 lib net args pc st)
  obtain z st1 where r: "call_resume lib net args pc st = (z, st1)" by fastforce
  have step: "row_run lib net row (Row_In_Call args pc) st =
      (case row_segment lib net row args pc st of (pc', st') \<Rightarrow> row_run lib net row pc' st')"
    by (subst row_run.simps) simp
  show ?case
  proof (cases z)
    case None
    with r have "call_run lib net args pc st = (Elapsed, st1)"
      by (subst call_run.simps) (cases pc; simp)
    with r None show ?thesis unfolding step by (simp add: row_segment_def finish_row_def)
  next
    case (Some pc')
    have run: "polls_left pc \<noteq> 0 \<Longrightarrow> call_run lib net args pc st = call_run lib net args pc' st1"
      using r Some by (subst call_run.simps) (cases pc; simp)
    have IH: "polls_left pc \<noteq> 0 \<Longrightarrow>
        row_run lib net row (Row_In_Call args pc') st1 = finish_row row (call_run lib net args pc' st1)"
      using "1.IH" r Some by (cases pc) auto
    show ?thesis
    proof (cases "polls_left pc = 0")
      case True
      with r Some show ?thesis
        unfolding step by (auto simp: polls_left_0 row_segment_def finish_row_def)
    next
      case False
      with r Some run IH show ?thesis
        unfolding step by (cases pc') (auto simp: row_segment_def finish_row_def)
    qed
  qed
qed

text \<open>
  Run as a task with nothing in between, \<open>call_async_row\<close> polled segment by segment is the function as
  written.
\<close>

lemma row_run_start: "row_run lib net row Row_Start st = call_async_row lib net row st"
proof (cases "row_options row")
  case (Err e)
  then show ?thesis by (simp add: row_run.simps [of _ _ _ Row_Start] call_async_row_def)
next
  case (Ok opts)
  then have "row_run lib net row Row_Start st = row_run lib net row (Row_In_Call (row_args row opts) At_Start) st"
    by (simp add: row_run.simps [of _ _ _ Row_Start] row_run.simps [of _ _ _ "Row_In_Call _ _"])
  with Ok show ?thesis
    by (simp add: row_run_in_call call_async_row_def call_async_def finish_row_def split: prod.splits)
qed

section \<open>The batch\<close>

datatype ('ch, 'd) task_state = Live "('ch, 'd) row_pc" | Panicked

type_synonym ('ch, 'd) tasks = "(nat, queue_row \<times> ('ch, 'd) task_state) hash_map"

text \<open>
  The \<open>JoinSet\<close> (tasks spawned and not joined yet), the map from task ids to row ids, and the vector
  of results.
\<close>

record ('ch, 'd) batch =
  bt_set :: "('ch, 'd) tasks"
  bt_next :: nat
  bt_ids :: "(nat, i64) hash_map"
  bt_out :: "call_result list"

definition empty_batch :: "('ch, 'd) batch" where
  "empty_batch = \<lparr>bt_set = [], bt_next = 1, bt_ids = [], bt_out = []\<rparr>"

definition spawn_row :: "('ch, 'd) batch \<Rightarrow> queue_row \<Rightarrow> ('ch, 'd) batch" where
  "spawn_row b row =
     b\<lparr>bt_set := bt_set b @ [(bt_next b, row, Live Row_Start)],
       bt_ids := hm_insert (bt_next b) (qr_id row) (bt_ids b),
       bt_next := bt_next b + 1\<rparr>"

definition spawn_rows :: "queue_row list \<Rightarrow> ('ch, 'd) batch" where
  "spawn_rows rows = foldl spawn_row empty_batch rows"

text \<open>What \<open>join_next_with_id\<close> yields: the task's id and result, or the id of a task that panicked.\<close>

fun push_joined :: "(nat, i64) hash_map \<Rightarrow> (nat \<times> call_result, nat) result \<Rightarrow> call_result list \<Rightarrow> call_result list" where
  "push_joined ids (Ok (task_id, r)) out = out @ [r]"
| "push_joined ids (Err task_id) out =
     out @ [\<lparr>cr_id = (case hm_get ids task_id of Some i \<Rightarrow> i | None \<Rightarrow> 0),
             cr_outcome = Outcome_Error ''task panicked''\<rparr>]"

definition join_task :: "nat \<Rightarrow> (nat \<times> call_result, nat) result \<Rightarrow> ('ch, 'd) batch \<Rightarrow> ('ch, 'd) batch" where
  "join_task t res b =
     b\<lparr>bt_set := hm_remove t (bt_set b), bt_out := push_joined (bt_ids b) res (bt_out b)\<rparr>"

datatype 'ch task_event = Poll nat "'ch grpc_net" | Panic nat | Join nat

fun task_poll ::
  "('p, 'f, 'd, 'm) grpc_lib \<Rightarrow> 'ch grpc_net \<Rightarrow> nat \<Rightarrow> ('ch, 'd) batch \<times> ('ch, 'p) proc_state
     \<Rightarrow> ('ch, 'd) batch \<times> ('ch, 'p) proc_state" where
  "task_poll lib net t (b, st) =
     (case hm_get (bt_set b) t of
        Some (row, Live pc) \<Rightarrow>
          (case row_resume lib net row pc st of
             (pc', st') \<Rightarrow> (b\<lparr>bt_set := hm_insert t (row, Live pc') (bt_set b)\<rparr>, st'))
      | _ \<Rightarrow> (b, st))"

fun task_panic :: "nat \<Rightarrow> ('ch, 'd) batch \<Rightarrow> ('ch, 'd) batch" where
  "task_panic t b =
     (case hm_get (bt_set b) t of
        Some (row, Live (Row_Done r)) \<Rightarrow> b
      | Some (row, Live pc) \<Rightarrow> b\<lparr>bt_set := hm_insert t (row, Panicked) (bt_set b)\<rparr>
      | _ \<Rightarrow> b)"

fun task_join :: "nat \<Rightarrow> ('ch, 'd) batch \<Rightarrow> ('ch, 'd) batch" where
  "task_join t b =
     (case hm_get (bt_set b) t of
        Some (row, Live (Row_Done r)) \<Rightarrow> join_task t (Ok (t, r)) b
      | Some (row, Panicked) \<Rightarrow> join_task t (Err t) b
      | _ \<Rightarrow> b)"

fun batch_event ::
  "('p, 'f, 'd, 'm) grpc_lib \<Rightarrow> 'ch task_event \<Rightarrow> ('ch, 'd) batch \<times> ('ch, 'p) proc_state
     \<Rightarrow> ('ch, 'd) batch \<times> ('ch, 'p) proc_state" where
  "batch_event lib (Poll t net) (b, st) = task_poll lib net t (b, st)"
| "batch_event lib (Panic t) (b, st) = (task_panic t b, st)"
| "batch_event lib (Join t) (b, st) = (task_join t b, st)"

text \<open>The loop ends when \<open>join_next_with_id\<close> has nothing left to join.\<close>

definition run_batch ::
  "('p, 'f, 'd, 'm) grpc_lib \<Rightarrow> 'ch task_event list \<Rightarrow> queue_row list \<Rightarrow> ('ch, 'p) proc_state
     \<Rightarrow> (call_result list \<times> ('ch, 'p) proc_state) option" where
  "run_batch lib evs rows st =
     (case fold (batch_event lib) evs (spawn_rows rows, st) of
        (b, st') \<Rightarrow> if bt_set b = [] then Some (bt_out b, st') else None)"

section \<open>No result is lost or made up\<close>

definition task_row_id :: "queue_row \<times> ('ch, 'd) task_state \<Rightarrow> i64" where
  "task_row_id e = qr_id (fst e)"

definition task_ok :: "(nat, i64) hash_map \<Rightarrow> nat \<Rightarrow> queue_row \<times> ('ch, 'd) task_state \<Rightarrow> bool" where
  "task_ok ids t e \<longleftrightarrow>
     hm_get ids t = Some (task_row_id e) \<and> (\<forall>pc. snd e = Live pc \<longrightarrow> row_pc_ok (fst e) pc)"

definition batch_inv :: "queue_row list \<Rightarrow> ('ch, 'd) batch \<Rightarrow> bool" where
  "batch_inv rows b \<longleftrightarrow>
     hm_wf (bt_set b)
     \<and> (\<forall>t e. hm_get (bt_set b) t = Some e \<longrightarrow> task_ok (bt_ids b) t e)
     \<and> mset (map cr_id (bt_out b)) + mset (map (\<lambda>e. task_row_id (snd e)) (bt_set b)) = mset (map qr_id rows)"

lemma batch_inv_update:
  assumes "batch_inv rows b" and "hm_get (bt_set b) t = Some (row, s)"
    and "\<And>pc. s' = Live pc \<Longrightarrow> row_pc_ok row pc"
  shows "batch_inv rows (b\<lparr>bt_set := hm_insert t (row, s') (bt_set b)\<rparr>)"
proof -
  have "task_ok (bt_ids b) t (row, s)" using assms(1,2) unfolding batch_inv_def by blast
  with assms(3) have "task_ok (bt_ids b) t (row, s')" by (simp add: task_ok_def task_row_id_def)
  moreover have "map (\<lambda>e. task_row_id (snd e)) (hm_insert t (row, s') (bt_set b))
      = map (\<lambda>e. task_row_id (snd e)) (bt_set b)"
    by (rule hm_map_update [OF assms(2)]) (simp add: task_row_id_def)
  ultimately show ?thesis using assms(1) by (simp add: batch_inv_def)
qed

lemma batch_inv_join:
  assumes inv: "batch_inv rows b" and get: "hm_get (bt_set b) t = Some e"
    and res: "push_joined (bt_ids b) res (bt_out b) = bt_out b @ [r]" "cr_id r = task_row_id e"
  shows "batch_inv rows (join_task t res b)"
proof -
  have "mset (map (\<lambda>e. task_row_id (snd e)) (bt_set b))
      = add_mset (task_row_id e) (mset (map (\<lambda>e. task_row_id (snd e)) (hm_remove t (bt_set b))))"
    using inv get by (intro hm_mset_remove) (auto simp: batch_inv_def)
  with inv res show ?thesis by (auto simp: batch_inv_def join_task_def)
qed

lemma batch_inv_event:
  assumes inv: "batch_inv rows b" and ev: "batch_event lib ev (b, st) = (b', st')"
  shows "batch_inv rows b'"
proof (cases ev)
  case (Poll t net)
  show ?thesis
  proof (cases "\<exists>row pc. hm_get (bt_set b) t = Some (row, Live pc)")
    case True
    then obtain row pc where get: "hm_get (bt_set b) t = Some (row, Live pc)" by blast
    obtain pc' st1 where run: "row_resume lib net row pc st = (pc', st1)" by fastforce
    have "row_pc_ok row pc" using inv get by (auto simp: batch_inv_def task_ok_def)
    then have "row_pc_ok row pc'"
      using run row_resume_polls [OF run] by (cases "row_polls_left pc = 0") (auto simp: row_polls_left_0)
    then have "batch_inv rows (b\<lparr>bt_set := hm_insert t (row, Live pc') (bt_set b)\<rparr>)"
      by (intro batch_inv_update [OF inv get]) simp
    with ev Poll get run show ?thesis by simp
  next
    case False
    then have "b' = b" using ev Poll by (auto split: option.splits prod.splits task_state.splits)
    with inv show ?thesis by simp
  qed
next
  case (Panic t)
  then show ?thesis using inv ev
    by (auto split: option.splits prod.splits task_state.splits row_pc.splits intro: batch_inv_update)
next
  case (Join t)
  show ?thesis
  proof (cases "hm_get (bt_set b) t")
    case (Some e)
    obtain row s where e: "e = (row, s)" by (cases e)
    have ok: "task_ok (bt_ids b) t e" using inv Some unfolding batch_inv_def by blast
    note join = batch_inv_join [OF inv Some]
    show ?thesis
    proof (cases s)
      case Panicked
      with ev Join Some e ok show ?thesis
        by (auto simp: task_ok_def task_row_id_def intro!: join [unfolded e])
    next
      case (Live pc)
      with ev Join Some e ok inv show ?thesis
        by (cases pc) (auto simp: task_ok_def task_row_id_def intro!: join [unfolded e])
    qed
  qed (use ev Join inv in auto)
qed

lemma batch_inv_run:
  "batch_inv rows b \<Longrightarrow> fold (batch_event lib) evs (b, st) = (b', st') \<Longrightarrow> batch_inv rows b'"
proof (induction evs arbitrary: b st)
  case (Cons ev evs)
  obtain b1 st1 where "batch_event lib ev (b, st) = (b1, st1)" by fastforce
  with Cons show ?case by (auto dest: batch_inv_event)
qed simp

lemma spawn_rows_snoc: "spawn_rows (rows @ [row]) = spawn_row (spawn_rows rows) row"
  by (simp add: spawn_rows_def)

text \<open>How many events a batch can still take: the polls of each task and its join.\<close>

fun task_weight :: "queue_row \<times> ('ch, 'd) task_state \<Rightarrow> nat" where
  "task_weight (row, Live pc) = Suc (row_polls_left pc)"
| "task_weight (row, Panicked) = 1"

definition batch_weight :: "('ch, 'd) batch \<Rightarrow> nat" where
  "batch_weight b = sum_list (map (\<lambda>e. task_weight (snd e)) (bt_set b))"

lemma spawn_rows_fresh:
  "b = spawn_rows rows \<Longrightarrow>
     (\<forall>t e. hm_get (bt_set b) t = Some e \<longrightarrow> t < bt_next b) \<and> bt_out b = []
     \<and> batch_weight b = 6 * length rows"
proof (induction rows arbitrary: b rule: rev_induct)
  case Nil
  then show ?case by (simp add: spawn_rows_def empty_batch_def batch_weight_def)
next
  case (snoc row rows)
  then have "b = spawn_row (spawn_rows rows) row" by (simp add: spawn_rows_snoc)
  with snoc.IH [OF refl] show ?case
    by (auto simp: spawn_row_def hm_get_append batch_weight_def less_Suc_eq split: option.splits if_splits)
qed

lemma hm_wf_snoc: "hm_wf m \<Longrightarrow> hm_get m k = None \<Longrightarrow> hm_wf (m @ [(k, v)])"
  by (auto simp: hm_wf_def hm_get_def map_of_eq_None_iff)

lemma spawn_rows_inv: "batch_inv rows (spawn_rows rows :: ('ch, 'd) batch)"
proof (induction rows rule: rev_induct)
  case Nil
  then show ?case by (simp add: spawn_rows_def empty_batch_def batch_inv_def)
next
  case (snoc row rows)
  let ?b = "spawn_rows rows :: ('ch, 'd) batch"
  have new: "hm_get (bt_set ?b) (bt_next ?b) = None"
    using spawn_rows_fresh [of ?b rows] by (cases "hm_get (bt_set ?b) (bt_next ?b)") auto
  then have wf: "hm_wf (bt_set (spawn_row ?b row))"
    using snoc by (simp add: batch_inv_def spawn_row_def hm_wf_snoc)
  moreover have "task_ok (bt_ids (spawn_row ?b row)) t e"
    if "hm_get (bt_set (spawn_row ?b row)) t = Some e" for t e
  proof (cases "t = bt_next ?b")
    case True
    with that new have "e = (row, Live Row_Start)" by (simp add: spawn_row_def hm_get_append)
    with True show ?thesis by (simp add: task_ok_def task_row_id_def spawn_row_def)
  next
    case False
    with that have "hm_get (bt_set ?b) t = Some e"
      by (auto simp: spawn_row_def hm_get_append split: option.splits)
    then have "task_ok (bt_ids ?b) t e" using snoc unfolding batch_inv_def by blast
    with False show ?thesis by (simp add: task_ok_def spawn_row_def)
  qed
  ultimately show ?case
    using snoc by (auto simp: spawn_rows_snoc batch_inv_def) (simp add: spawn_row_def task_row_id_def)
qed

section \<open>Every schedule ends\<close>

text \<open>
  An event that finds something to do: a poll or a panic of a task still running, the join of one
  that is finished or has panicked.
\<close>

fun task_unfinished :: "queue_row \<times> ('ch, 'd) task_state \<Rightarrow> bool" where
  "task_unfinished (row, Live pc) \<longleftrightarrow> row_polls_left pc \<noteq> 0"
| "task_unfinished (row, Panicked) \<longleftrightarrow> False"

fun occurs :: "'ch task_event \<Rightarrow> ('ch, 'd) batch \<Rightarrow> bool" where
  "occurs (Poll t net) b = (case hm_get (bt_set b) t of None \<Rightarrow> False | Some e \<Rightarrow> task_unfinished e)"
| "occurs (Panic t) b = (case hm_get (bt_set b) t of None \<Rightarrow> False | Some e \<Rightarrow> task_unfinished e)"
| "occurs (Join t) b = (case hm_get (bt_set b) t of None \<Rightarrow> False | Some e \<Rightarrow> \<not> task_unfinished e)"

fun schedule ::
  "('p, 'f, 'd, 'm) grpc_lib \<Rightarrow> 'ch task_event list \<Rightarrow> ('ch, 'd) batch \<times> ('ch, 'p) proc_state \<Rightarrow> bool" where
  "schedule lib [] s \<longleftrightarrow> True"
| "schedule lib (ev # evs) s \<longleftrightarrow> occurs ev (fst s) \<and> schedule lib evs (batch_event lib ev s)"

lemma weight_update:
  "hm_get (bt_set b) t = Some e \<Longrightarrow> task_weight e' < task_weight e \<Longrightarrow>
     batch_weight (b\<lparr>bt_set := hm_insert t e' (bt_set b)\<rparr>) < batch_weight b"
  using hm_sum_update [of "bt_set b" t e task_weight e'] by (simp add: batch_weight_def)

lemma weight_join:
  "hm_wf (bt_set b) \<Longrightarrow> hm_get (bt_set b) t = Some e \<Longrightarrow> batch_weight (join_task t res b) < batch_weight b"
  using hm_sum_remove [of "bt_set b" t e task_weight]
  by (cases e rule: task_weight.cases) (auto simp: batch_weight_def join_task_def)

lemma occurs_weight:
  assumes wf: "hm_wf (bt_set b)" and occ: "occurs ev b" and ev: "batch_event lib ev (b, st) = (b', st')"
  shows "batch_weight b' < batch_weight b"
proof (cases ev)
  case (Poll t net)
  with occ obtain row pc where get: "hm_get (bt_set b) t = Some (row, Live pc)" and left: "row_polls_left pc \<noteq> 0"
    by (auto elim!: task_unfinished.elims split: option.splits)
  obtain pc' st1 where run: "row_resume lib net row pc st = (pc', st1)" by fastforce
  have "task_weight (row, Live pc') < task_weight (row, Live pc)"
    using row_resume_polls [OF run left] by simp
  from weight_update [OF get this] show ?thesis using ev Poll get run by simp
next
  case (Panic t)
  with occ obtain row pc where get: "hm_get (bt_set b) t = Some (row, Live pc)" and left: "row_polls_left pc \<noteq> 0"
    by (auto elim!: task_unfinished.elims split: option.splits)
  have "task_weight (row, Panicked) < task_weight (row, Live pc)" using left by simp
  from weight_update [OF get this] show ?thesis
    using ev Panic get left by (cases pc) auto
next
  case (Join t)
  with occ obtain e where get: "hm_get (bt_set b) t = Some e" and fin: "\<not> task_unfinished e"
    by (auto split: option.splits)
  show ?thesis
    using weight_join [OF wf get] ev Join get fin
    by (cases e rule: task_weight.cases) (auto simp: row_polls_left_0)
qed

lemma schedule_weight:
  "batch_inv rows b \<Longrightarrow> schedule lib evs (b, st) \<Longrightarrow> fold (batch_event lib) evs (b, st) = (b', st') \<Longrightarrow>
     length evs + batch_weight b' \<le> batch_weight b"
proof (induction evs arbitrary: b st)
  case (Cons ev evs)
  obtain b1 st1 where ev: "batch_event lib ev (b, st) = (b1, st1)" by fastforce
  have "batch_weight b1 < batch_weight b"
    using Cons.prems ev by (intro occurs_weight [OF _ _ ev]) (auto simp: batch_inv_def)
  moreover have "length evs + batch_weight b' \<le> batch_weight b1"
    using Cons.prems ev by (intro Cons.IH [of b1 st1]) (auto dest: batch_inv_event)
  ultimately show ?case by simp
qed simp

section \<open>A schedule that always works\<close>

text \<open>Five rounds of polls over all tasks, then all joins, on a network that does not change.\<close>

definition round_robin :: "'ch grpc_net \<Rightarrow> queue_row list \<Rightarrow> 'ch task_event list" where
  "round_robin net rows =
     (let ts = [1..<Suc (length rows)] in
      concat (replicate 5 (map (\<lambda>t. Poll t net) ts)) @ map Join ts)"

definition tasks_in :: "nat set \<Rightarrow> ('ch, 'd) batch \<Rightarrow> bool" where
  "tasks_in ts b \<longleftrightarrow> (\<forall>t e. hm_get (bt_set b) t = Some e \<longrightarrow> t \<in> ts)"

definition within :: "nat \<Rightarrow> nat set \<Rightarrow> ('ch, 'd) batch \<Rightarrow> bool" where
  "within n ts b \<longleftrightarrow> (\<forall>t e. hm_get (bt_set b) t = Some e \<longrightarrow> t \<in> ts \<longrightarrow> task_weight e \<le> n)"

lemma task_poll_get:
  assumes "task_poll lib net t (b, st) = (b', st')" and "hm_get (bt_set b') u = Some e'"
  shows "\<exists>e. hm_get (bt_set b) u = Some e \<and>
     (if u = t then task_weight e' \<le> max 1 (task_weight e - 1) else e' = e)"
proof (cases "hm_get (bt_set b) t")
  case None
  with assms show ?thesis by auto
next
  case (Some e)
  then show ?thesis
  proof (cases e rule: task_weight.cases)
    case (1 row pc)
    obtain pc' st1 where run: "row_resume lib net row pc st = (pc', st1)" by fastforce
    have "row_polls_left pc' \<le> row_polls_left pc - 1"
    proof (cases "row_polls_left pc = 0")
      case True
      with run show ?thesis by (auto simp: row_polls_left_0)
    next
      case False
      with row_resume_polls [OF run] show ?thesis by linarith
    qed
    with assms Some 1 run show ?thesis by (auto split: if_splits)
  next
    case (2 row)
    with assms Some show ?thesis by auto
  qed
qed

lemma polls_within:
  assumes "fold (batch_event lib) (map (\<lambda>t. Poll t net) ts) (b, st) = (b', st')"
    and "tasks_in A b" and "within (Suc n) A b" and "within n D b" and "1 \<le> n"
  shows "tasks_in A b' \<and> within (Suc n) A b' \<and> within n (D \<union> set ts) b'"
  using assms
proof (induction ts arbitrary: b st D)
  case (Cons t ts)
  obtain b1 st1 where poll: "task_poll lib net t (b, st) = (b1, st1)" by fastforce
  note get = task_poll_get [OF poll]
  have "tasks_in A b1" using Cons.prems(2) get unfolding tasks_in_def by blast
  moreover have "within (Suc n) A b1"
    using Cons.prems(3) get unfolding within_def by (fastforce split: if_splits)
  moreover have "within n (insert t D) b1"
    unfolding within_def
  proof (intro allI impI)
    fix u e'
    assume u: "hm_get (bt_set b1) u = Some e'" "u \<in> insert t D"
    from get [OF u(1)] obtain e where e: "hm_get (bt_set b) u = Some e"
        "if u = t then task_weight e' \<le> max 1 (task_weight e - 1) else e' = e" by blast
    moreover have "u \<in> A" using Cons.prems(2) e(1) unfolding tasks_in_def by blast
    then have "task_weight e \<le> Suc n" using Cons.prems(3) e(1) unfolding within_def by blast
    moreover have "u \<noteq> t \<Longrightarrow> task_weight e \<le> n" using Cons.prems(4) e(1) u(2) unfolding within_def by blast
    ultimately show "task_weight e' \<le> n" using \<open>1 \<le> n\<close> by (auto split: if_splits)
  qed
  moreover have "fold (batch_event lib) (map (\<lambda>t. Poll t net) ts) (b1, st1) = (b', st')"
    using Cons.prems(1) poll by simp
  ultimately show ?case
    using Cons.IH [of b1 st1 "insert t D"] \<open>1 \<le> n\<close> by simp
qed auto

lemma rounds_within:
  assumes "fold (batch_event lib) (concat (replicate k (map (\<lambda>t. Poll t net) ts))) (b, st) = (b', st')"
    and "tasks_in (set ts) b" and "within (k + 1) (set ts) b"
  shows "tasks_in (set ts) b' \<and> within 1 (set ts) b'"
  using assms
proof (induction k arbitrary: b st)
  case (Suc k)
  obtain b1 st1 where round: "fold (batch_event lib) (map (\<lambda>t. Poll t net) ts) (b, st) = (b1, st1)" by fastforce
  have "tasks_in (set ts) b1 \<and> within (Suc (k + 1)) (set ts) b1 \<and> within (k + 1) ({} \<union> set ts) b1"
    using Suc.prems by (intro polls_within [OF round]) (auto simp: within_def)
  with Suc.prems(1) round show ?case by (intro Suc.IH [of b1 st1]) auto
qed simp

lemma joins_empty:
  assumes "fold (batch_event lib) (map Join ts) (b, st) = (b', st')"
    and "tasks_in (set ts) b" and "within 1 (set ts) b"
  shows "bt_set b' = []"
  using assms
proof (induction ts arbitrary: b st)
  case Nil
  have False if "bt_set b = e # m" for e m
  proof -
    from that have "hm_get (bt_set b) (fst e) = Some (snd e)" by (cases e) simp
    with Nil.prems(2) show False unfolding tasks_in_def by (metis list.set(1) empty_iff)
  qed
  with Nil.prems(1) show ?case by (cases "bt_set b") auto
next
  case (Cons t ts)
  have join: "hm_get (bt_set (task_join t b)) = (hm_get (bt_set b))(t := None)"
  proof (cases "hm_get (bt_set b) t")
    case (Some e)
    with Cons.prems(3) have "task_weight e \<le> 1" unfolding within_def by (metis list.set_intros(1))
    with Some show ?thesis
      by (cases e rule: task_weight.cases) (auto simp: join_task_def row_polls_left_0)
  qed auto
  with Cons.prems(2) have "tasks_in (set ts) (task_join t b)"
    by (auto simp: tasks_in_def split: if_splits)
  moreover from join Cons.prems(3) have "within 1 (set ts) (task_join t b)"
    by (auto simp: within_def split: if_splits)
  ultimately show ?case using Cons.IH [of "task_join t b" st] Cons.prems(1) by simp
qed

lemma spawn_rows_tasks:
  "b = spawn_rows rows \<Longrightarrow>
     tasks_in {1..<Suc (length rows)} b \<and> within 6 UNIV b \<and> bt_next b = Suc (length rows)"
proof (induction rows arbitrary: b rule: rev_induct)
  case Nil
  then show ?case by (simp add: spawn_rows_def empty_batch_def tasks_in_def within_def)
next
  case (snoc row rows)
  then have "b = spawn_row (spawn_rows rows) row" by (simp add: spawn_rows_snoc)
  with snoc.IH [OF refl] show ?case
    by (auto simp: spawn_row_def tasks_in_def within_def hm_get_append intro: less_SucI
        split: option.splits if_splits)
qed

lemma round_robin_finishes:
  fixes lib :: "('p, 'f, 'd, 'm) grpc_lib" and st :: "('ch, 'p) proc_state"
  shows "run_batch lib (round_robin net rows) rows st \<noteq> None"
proof -
  let ?ts = "[1..<Suc (length rows)]" and ?b = "spawn_rows rows :: ('ch, 'd) batch"
  obtain b1 st1 where rounds:
      "fold (batch_event lib) (concat (replicate 5 (map (\<lambda>t. Poll t net) ?ts))) (?b, st) = (b1, st1)"
    by fastforce
  obtain b2 st2 where joins: "fold (batch_event lib) (map Join ?ts) (b1, st1) = (b2, st2)" by fastforce
  have "tasks_in (set ?ts) ?b \<and> within (5 + 1) (set ?ts) ?b"
    using spawn_rows_tasks [of ?b rows] unfolding set_upt within_def by simp
  then have "tasks_in (set ?ts) b1 \<and> within 1 (set ?ts) b1"
    by (intro rounds_within [OF rounds]) auto
  then have "bt_set b2 = []" by (intro joins_empty [OF joins]) auto
  moreover have "fold (batch_event lib) (round_robin net rows) (?b, st) = (b2, st2)"
    unfolding round_robin_def Let_def fold_append comp_apply rounds joins ..
  ultimately show ?thesis by (simp add: run_batch_def)
qed

section \<open>What a batch does to the caches of the worker\<close>

lemma row_resume_call:
  "row_resume lib net row pc st = (pc', st') \<Longrightarrow>
     st' = st \<or> (\<exists>args cpc r. call_resume lib net args cpc st = (r, st'))"
  by (cases pc) (auto dest!: row_segment_effect split: result.splits)

definition batch_effect :: "('ch, 'p) proc_state \<Rightarrow> ('ch, 'p) proc_state \<Rightarrow> bool" where
  "batch_effect st st' \<longleftrightarrow>
     (\<forall>k c. hm_get (ps_channels st) k = Some c \<longrightarrow> hm_get (ps_channels st') k = Some c)
     \<and> (reflection_only (ps_registry st) \<longrightarrow> reflection_only (ps_registry st'))
     \<and> (proc_wf st \<longrightarrow> proc_wf st')"

lemma batch_effect_refl: "batch_effect st st"
  by (simp add: batch_effect_def)

lemma batch_effect_trans: "batch_effect s t \<Longrightarrow> batch_effect t u \<Longrightarrow> batch_effect s u"
  by (simp add: batch_effect_def)

lemma call_resume_batch_effect:
  "call_resume lib net args pc st = (r, st') \<Longrightarrow> batch_effect st st'"
  using call_resume_effect [of lib net args pc st r st'] call_resume_reflection_only [of lib net args pc st r st']
  by (simp add: batch_effect_def segment_effect_def)

lemma batch_event_effect:
  assumes "batch_event lib ev (b, st) = (b', st')"
  shows "batch_effect st st'"
proof (cases "st' = st")
  case False
  with assms obtain net row pc pc' where "row_resume lib net row pc st = (pc', st')"
    by (cases ev) (auto split: option.splits prod.splits task_state.splits)
  with False show ?thesis by (auto dest!: row_resume_call call_resume_batch_effect)
qed (simp add: batch_effect_refl)

lemma run_events_effect:
  "fold (batch_event lib) evs (b, st) = (b', st') \<Longrightarrow> batch_effect st st'"
proof (induction evs arbitrary: b st)
  case (Cons ev evs)
  obtain b1 st1 where ev: "batch_event lib ev (b, st) = (b1, st1)" by fastforce
  with Cons.prems have "batch_effect st1 st'" by (intro Cons.IH [of b1 st1]) simp
  with batch_event_effect [OF ev] show ?case by (rule batch_effect_trans)
qed (simp add: batch_effect_refl)

lemma run_batch_Some:
  "run_batch lib evs rows st = Some (out, st') \<longleftrightarrow>
     (\<exists>b. fold (batch_event lib) evs (spawn_rows rows, st) = (b, st') \<and> bt_set b = [] \<and> out = bt_out b)"
  by (auto simp: run_batch_def split: prod.splits if_splits)

lemma run_batch_ids:
  "run_batch lib evs rows st = Some (out, st') \<Longrightarrow> mset (map cr_id out) = mset (map qr_id rows)"
  by (auto simp: run_batch_Some dest!: batch_inv_run [OF spawn_rows_inv]) (simp add: batch_inv_def)

lemma run_batch_effect: "run_batch lib evs rows st = Some (out, st') \<Longrightarrow> batch_effect st st'"
  by (auto simp: run_batch_Some dest: run_events_effect)

section \<open>Theorems\<close>

definition sample_schedule :: "nat task_event list" where
  "sample_schedule =
     [Poll 1 sample_net, Poll 2 sample_net, Poll 2 sample_net, Panic 1, Poll 2 sample_net, Join 1,
      Poll 2 sample_net, Join 2]"

definition echo_row :: "i64 \<Rightarrow> queue_row" where
  "echo_row i = (sample_row i)\<lparr>qr_request := JString ''hello''\<rparr>"

text \<open>
  C15: the loop that joins the batch always ends: a schedule in which every event finds something to
  do has at most six events per row, and as long as the batch is not finished there is such an
  event, so no task blocks the others for ever.
\<close>

theorem run_batch_terminates:
  fixes lib :: "('p, 'f, 'd, 'm) grpc_lib" and st :: "('ch, 'p) proc_state"
  assumes "schedule lib evs (spawn_rows rows, st)"
  shows "length evs \<le> 6 * length rows \<and>
     (run_batch lib evs rows st = None \<longrightarrow> (\<exists>ev. schedule lib (evs @ [ev]) (spawn_rows rows, st)))"
proof -
  obtain b st' where run: "fold (batch_event lib) evs (spawn_rows rows, st) = (b, st')" by fastforce
  have "length evs \<le> 6 * length rows"
    using schedule_weight [OF spawn_rows_inv assms run]
      spawn_rows_fresh [of "spawn_rows rows :: ('ch, 'd) batch" rows] by simp
  moreover have "\<exists>ev. schedule lib (evs @ [ev]) (spawn_rows rows, st)" if "run_batch lib evs rows st = None"
  proof -
    from that run obtain t e m where "bt_set b = (t, e) # m"
      by (cases "bt_set b") (auto simp: run_batch_def)
    then have "hm_get (bt_set b) t = Some e" by simp
    then have "occurs (Poll t undefined) b \<or> occurs (Join t) b" by auto
    moreover have "schedule lib (evs @ [ev]) s \<longleftrightarrow>
        schedule lib evs s \<and> occurs ev (fst (fold (batch_event lib) evs s))" for ev s
      by (induction evs arbitrary: s) auto
    ultimately show ?thesis using assms run by (metis fst_conv)
  qed
  ultimately show ?thesis by blast
qed

theorem run_batch_terminates_witness:
  "length sample_schedule \<le> 6 * length [echo_row 5, echo_row 9]"
proof -
  have "schedule sample_lib sample_schedule (spawn_rows [echo_row 5, echo_row 9], \<lparr>ps_channels = [], ps_registry = []\<rparr>)"
    by code_simp
  from run_batch_terminates [OF this] show ?thesis by blast
qed

text \<open>
  C34: the worker's registry only ever holds services fetched by reflection, and its channel cache
  never loses or replaces a channel: what a batch leaves behind for the next one.
\<close>

theorem run_batch_caches:
  assumes "run_batch lib evs rows st = Some (out, st')" and "reflection_only (ps_registry st)"
  shows "reflection_only (ps_registry st') \<and>
     (\<forall>k c. hm_get (ps_channels st) k = Some c \<longrightarrow> hm_get (ps_channels st') k = Some c)"
  using run_batch_effect [OF assms(1)] assms(2) by (simp add: batch_effect_def)

theorem run_batch_caches_witness:
  "\<exists>out st'. run_batch sample_lib sample_schedule [echo_row 5, echo_row 9] \<lparr>ps_channels = [], ps_registry = []\<rparr>
      = Some (out, st') \<and> reflection_only (ps_registry st') \<and> ps_registry st' \<noteq> []"
proof -
  let ?st = "\<lparr>ps_channels = [] :: nat channels, ps_registry = []\<rparr>"
  have "map_option (\<lambda>(out, st'). ps_registry st' \<noteq> [])
      (run_batch sample_lib sample_schedule [echo_row 5, echo_row 9] ?st) = Some True"
    by code_simp
  then obtain out st' where "run_batch sample_lib sample_schedule [echo_row 5, echo_row 9] ?st = Some (out, st')"
      "ps_registry st' \<noteq> []"
    by auto
  with run_batch_caches [OF this(1)] show ?thesis by simp
qed

text \<open>
  A worker that has just started holds no registered service, the ones compiled from staged
  files included, since the registry belongs to the process: a queued call that disables reflection
  fails there whatever the server answers.
\<close>

theorem fresh_worker_needs_reflection:
  assumes "row_options row = Ok opts" and "opt_use_reflection opts = Some False"
    and "ps_registry st = []"
  shows "\<nexists>v. cr_outcome (fst (call_async_row lib net row st)) = Outcome_Success v"
proof -
  obtain r st' where run: "call_async lib net (row_args row opts) st = (r, st')" by fastforce
  have "\<not> ca_use_reflection (row_args row opts)" using assms(2) by (simp add: row_args_def)
  then have "\<nexists>v. r = Ready (Ok v)"
    using run assms(3) unfolding call_async_eq_direct call_direct_def
    by (auto simp: Let_def get_proto_def split: poll.splits prod.splits result.splits if_splits)
  then show ?thesis
    using run assms(1) by (auto simp: call_async_row_def elim!: row_outcome.elims)
qed

theorem fresh_worker_needs_reflection_witness:
  "\<nexists>v. cr_outcome (fst (call_async_row sample_lib sample_net
     ((echo_row 5)\<lparr>qr_options := Some (JObject [(''use_reflection'', JBool False)])\<rparr>)
     \<lparr>ps_channels = [], ps_registry = []\<rparr>)) = Outcome_Success v"
proof -
  have o: "row_options ((echo_row 5)\<lparr>qr_options := Some (JObject [(''use_reflection'', JBool False)])\<rparr>) =
      Ok (default_options\<lparr>opt_use_reflection := Some False\<rparr>)"
    by code_simp
  show ?thesis by (rule fresh_worker_needs_reflection [OF o]) simp_all
qed

end
