(* ===== verification/Provenance.thy ===== *)
theory Provenance
  imports Join_Set
begin

text \<open>
  Where the result of a queued call comes from.  The tasks of a batch share one thread, one channel
  cache and one registry; the lemmas here follow a task through all of its polls and show that what
  it reports is its own: the reply it decodes answers its own request, sent over a channel dialled
  for its own endpoint and encoded with a descriptor pool of its own service; an error is one that
  its own call can meet; and the vector of results does not mix up the rows.
\<close>

section \<open>The outcomes of a call\<close>

text \<open>
  What a call can draw on: the channels it may find or dial for a key, the descriptor pools for a
  service name, and the network it is polled against.
\<close>

record ('ch, 'p) world =
  w_channel :: "channel_key \<Rightarrow> 'ch \<Rightarrow> bool"
  w_pool :: "string \<Rightarrow> 'p \<Rightarrow> bool"
  w_net :: "'ch grpc_net \<Rightarrow> bool"

text \<open>The cache key of a call, and where a channel for a key is dialled.\<close>

definition own_key :: "call_args \<Rightarrow> channel_key \<Rightarrow> bool" where
  "own_key args key \<longleftrightarrow> validate_endpoint (ca_endpoint args) = Ok (fst key) \<and> snd key = ca_tls args"

definition dial_target :: "channel_key \<Rightarrow> endpoint_builder" where
  "dial_target key =
     \<lparr>eb_uri = (if snd key \<noteq> None then ''https'' else ''http'') @ ''://'' @ fst key,
      eb_tls = map_option build_client_tls_config (snd key)\<rparr>"

definition channel_of :: "('ch, 'p) world \<Rightarrow> call_args \<Rightarrow> 'ch \<Rightarrow> bool" where
  "channel_of W args ch \<longleftrightarrow> (\<exists>key. own_key args key \<and> w_channel W key ch)"

text \<open>The request of \<open>args\<close>, encoded for the method it names, and the channel it goes over.\<close>

definition request_of ::
  "('p, 'f, 'd, 'm) grpc_lib \<Rightarrow> ('ch, 'p) world \<Rightarrow> call_args \<Rightarrow> 'ch \<Rightarrow> string \<Rightarrow> string
     \<Rightarrow> 'd grpc_method \<Rightarrow> bytes \<Rightarrow> bool" where
  "request_of lib W args ch service_name method_name desc body \<longleftrightarrow>
     parse_method (ca_method args) = Ok (service_name, method_name) \<and> channel_of W args ch
     \<and> (\<exists>pool. w_pool W service_name pool
          \<and> resolve_method (lib_pool lib) pool service_name method_name = Ok desc)
     \<and> encode_request lib (m_input desc) (ca_request args) = Ok body"

text \<open>\<open>r\<close> is a reply of the network to that request, decoded.\<close>

definition reply_of ::
  "('p, 'f, 'd, 'm) grpc_lib \<Rightarrow> ('ch, 'p) world \<Rightarrow> call_args \<Rightarrow> json grpc_result \<Rightarrow> bool" where
  "reply_of lib W args r \<longleftrightarrow>
     (\<exists>s m ch desc body net bytes. request_of lib W args ch s m desc body \<and> w_net W net
        \<and> unary_call lib net ch s m body (ca_metadata args) (ca_max_decode args) (ca_max_encode args)
            = Ready (Ok bytes)
        \<and> r = decode_response lib (m_output desc) bytes)"

text \<open>The outcomes a call can have before its deadline: a decoded reply, or an error of one of its steps.\<close>

inductive outcome_of ::
  "('p, 'f, 'd, 'm) grpc_lib \<Rightarrow> ('ch, 'p) world \<Rightarrow> call_args \<Rightarrow> json grpc_result \<Rightarrow> bool"
  for lib W args where
  out_path: "parse_method (ca_method args) = Err e \<Longrightarrow> outcome_of lib W args (Err e)"
| out_target:
    "parse_method (ca_method args) = Ok (s, m) \<Longrightarrow>
     connect_start (lib_transport lib) (ca_endpoint args) (ca_tls args) ([] :: 'ch channels) = Err e \<Longrightarrow>
     outcome_of lib W args (Err e)"
| out_dial:
    "own_key args key \<Longrightarrow> w_net W net \<Longrightarrow> net_dial net (dial_target key) = Ready (Err d) \<Longrightarrow>
     outcome_of lib W args (Err (Connection (fst key @ '': '' @ d)))"
| out_unregistered:
    "parse_method (ca_method args) = Ok (s, m) \<Longrightarrow> \<not> ca_use_reflection args \<Longrightarrow>
     outcome_of lib W args (Err (Proto (''service not found in registry and reflection disabled: '' @ s)))"
| out_fetch:
    "parse_method (ca_method args) = Ok (s, m) \<Longrightarrow> ca_use_reflection args \<Longrightarrow> channel_of W args ch \<Longrightarrow> w_net W net \<Longrightarrow>
     fetch_pool (lib_pool lib) (net_reflect net) ch s (ca_max_decode args) (ca_max_encode args) = Ready (Err e) \<Longrightarrow>
     outcome_of lib W args (Err e)"
| out_resolve:
    "parse_method (ca_method args) = Ok (s, m) \<Longrightarrow> w_pool W s pool \<Longrightarrow>
     resolve_method (lib_pool lib) pool s m = Err e \<Longrightarrow> outcome_of lib W args (Err e)"
| out_encode:
    "parse_method (ca_method args) = Ok (s, m) \<Longrightarrow> w_pool W s pool \<Longrightarrow>
     resolve_method (lib_pool lib) pool s m = Ok desc \<Longrightarrow>
     encode_request lib (m_input desc) (ca_request args) = Err e \<Longrightarrow> outcome_of lib W args (Err e)"
| out_call:
    "request_of lib W args ch s m desc body \<Longrightarrow> w_net W net \<Longrightarrow>
     unary_call lib net ch s m body (ca_metadata args) (ca_max_decode args) (ca_max_encode args) = Ready (Err e) \<Longrightarrow>
     outcome_of lib W args (Err e)"
| out_reply: "reply_of lib W args r \<Longrightarrow> outcome_of lib W args r"

text \<open>So a success is a reply.\<close>

inductive_simps outcome_of_Ok [simp]: "outcome_of lib W args (Ok v)"

section \<open>A call stays within its world\<close>

definition state_known :: "('ch, 'p) world \<Rightarrow> ('ch, 'p) proc_state \<Rightarrow> bool" where
  "state_known W st \<longleftrightarrow>
     (\<forall>key ch. hm_get (ps_channels st) key = Some ch \<longrightarrow> w_channel W key ch)
     \<and> (\<forall>s pool. get_proto (ps_registry st) s = Some pool \<longrightarrow> w_pool W s pool)"

lemma known_channel: "state_known W st \<Longrightarrow> hm_get (ps_channels st) key = Some ch \<Longrightarrow> w_channel W key ch"
  and known_pool: "state_known W st \<Longrightarrow> get_proto (ps_registry st) s = Some pool \<Longrightarrow> w_pool W s pool"
  unfolding state_known_def by blast+

text \<open>
  The world takes in what the network gives the call: the channel dialled for its own key, when it is the
  one in the cache \<open>final\<close> at the end, and the pool it fetches for its own service over its own channel.
\<close>

definition call_takes ::
  "('p, 'f, 'd, 'm) grpc_lib \<Rightarrow> ('ch, 'p) world \<Rightarrow> call_args \<Rightarrow> 'ch channels \<Rightarrow> bool" where
  "call_takes lib W args final \<longleftrightarrow>
     (\<forall>net key ch. w_net W net \<and> own_key args key \<and> net_dial net (dial_target key) = Ready (Ok ch)
        \<and> hm_get final key = Some ch \<longrightarrow> w_channel W key ch)
     \<and> (\<forall>net ch s m pool. w_net W net \<and> parse_method (ca_method args) = Ok (s, m) \<and> ca_use_reflection args
        \<and> channel_of W args ch
        \<and> fetch_pool (lib_pool lib) (net_reflect net) ch s (ca_max_decode args) (ca_max_encode args)
            = Ready (Ok pool) \<longrightarrow> w_pool W s pool)"

lemma takes_channel:
  assumes "call_takes lib W args final" "w_net W net" "own_key args key"
    and "net_dial net (dial_target key) = Ready (Ok ch)" "hm_get final key = Some ch"
  shows "w_channel W key ch"
  using assms unfolding call_takes_def by blast

lemma takes_pool:
  assumes "call_takes lib W args final" "w_net W net" "parse_method (ca_method args) = Ok (s, m)"
    and "ca_use_reflection args" "channel_of W args ch"
    and "fetch_pool (lib_pool lib) (net_reflect net) ch s (ca_max_decode args) (ca_max_encode args) = Ready (Ok pool)"
  shows "w_pool W s pool"
  using assms unfolding call_takes_def by blast

definition grows_to :: "('ch, 'p) proc_state \<Rightarrow> 'ch channels \<Rightarrow> bool" where
  "grows_to st final \<longleftrightarrow> (\<forall>key ch. hm_get (ps_channels st) key = Some ch \<longrightarrow> hm_get final key = Some ch)"

lemma grows_channel: "grows_to st final \<Longrightarrow> hm_get (ps_channels st) key = Some ch \<Longrightarrow> hm_get final key = Some ch"
  unfolding grows_to_def by blast

text \<open>What is known of a call at each of its suspension points.\<close>

fun call_known :: "('p, 'f, 'd, 'm) grpc_lib \<Rightarrow> ('ch, 'p) world \<Rightarrow> call_args \<Rightarrow> ('ch, 'd) call_pc \<Rightarrow> bool" where
  "call_known lib W args At_Start = True"
| "call_known lib W args (At_Dial s m key b) =
     (parse_method (ca_method args) = Ok (s, m) \<and> own_key args key \<and> b = dial_target key)"
| "call_known lib W args (At_Fetch ch s m) =
     (parse_method (ca_method args) = Ok (s, m) \<and> channel_of W args ch \<and> ca_use_reflection args)"
| "call_known lib W args (At_Unary ch desc s m body) = request_of lib W args ch s m desc body"
| "call_known lib W args (Call_Done r) = outcome_of lib W args r"

lemma with_pool_known:
  assumes "parse_method (ca_method args) = Ok (s, m)" and "channel_of W args ch" and "w_pool W s pool"
  shows "call_known lib W args (with_pool lib args ch s m pool)"
proof (cases "resolve_method (lib_pool lib) pool s m")
  case (Err e)
  with assms show ?thesis by (auto simp: with_pool_def intro: out_resolve)
next
  case (Ok desc)
  show ?thesis
  proof (cases "encode_request lib (m_input desc) (ca_request args)")
    case (Err e)
    with assms Ok show ?thesis by (auto simp: with_pool_def intro: out_encode)
  next
    case (Ok body)
    with assms \<open>resolve_method (lib_pool lib) pool s m = Ok desc\<close> show ?thesis
      by (auto simp: with_pool_def request_of_def)
  qed
qed

lemma with_channel_known:
  assumes "parse_method (ca_method args) = Ok (s, m)" and "channel_of W args ch" and "state_known W st"
  shows "call_known lib W args (with_channel lib args s m ch (ps_registry st))"
proof (cases "get_proto (ps_registry st) s")
  case (Some pool)
  with assms(3) have "w_pool W s pool" by (simp add: state_known_def)
  with Some assms(1,2) show ?thesis by (simp add: with_channel_def with_pool_known)
next
  case None
  show ?thesis
  proof (cases "ca_use_reflection args")
    case True
    with None assms(1,2) show ?thesis by (simp add: with_channel_def)
  next
    case False
    with None have "with_channel lib args s m ch (ps_registry st) =
        Call_Done (Err (Proto (''service not found in registry and reflection disabled: '' @ s)))"
      by (simp add: with_channel_def)
    with out_unregistered [OF assms(1) False] show ?thesis by (simp only: call_known.simps)
  qed
qed

lemma connect_start_Err_cold:
  "connect_start api ep tls m = Err e \<Longrightarrow> connect_start api ep tls ([] :: 'ch channels) = Err e"
  by (auto simp: connect_start_def result_split Let_def split: option.splits)

lemma connect_start_Dial_target:
  "connect_start api (ca_endpoint args) (ca_tls args) m = Ok (Dial key b) \<Longrightarrow> own_key args key \<and> b = dial_target key"
  by (auto dest!: connect_start_Dial simp: own_key_def dial_target_def)

lemma resume_start_known:
  assumes run: "resume_start lib args st = (z, st')" and "state_known W st"
  shows "st' = st \<and> (\<forall>pc. z = Some pc \<longrightarrow> call_known lib W args pc)"
proof (cases "parse_method (ca_method args)")
  case (Err e)
  with run show ?thesis by (auto simp: resume_start_def intro: out_path)
next
  case (Ok sm)
  then obtain s m where parsed: "parse_method (ca_method args) = Ok (s, m)" by (cases sm) simp
  show ?thesis
  proof (cases "connect_start (lib_transport lib) (ca_endpoint args) (ca_tls args) (ps_channels st)")
    case (Err e)
    then have "outcome_of lib W args (Err e)"
      by (intro out_target [OF parsed] connect_start_Err_cold)
    with Err run parsed show ?thesis by (auto simp: resume_start_def)
  next
    case (Ok step)
    note start = this
    show ?thesis
    proof (cases step)
      case (Cached ch)
      have "channel_of W args ch" using start Cached assms(2)
        by (fastforce simp: connect_start_Cached own_key_def channel_of_def state_known_def)
      with assms start Cached parsed show ?thesis
        by (auto simp: resume_start_def intro: with_channel_known)
    next
      case (Dial key b)
      with run start parsed show ?thesis by (auto simp: resume_start_def dest: connect_start_Dial_target)
    qed
  qed
qed

lemma resume_dial_known:
  assumes known: "call_known lib W args (At_Dial s m key b)"
    and run: "resume_dial lib net args s m key b st = (z, st')" and st: "state_known W st" and net: "w_net W net"
    and takes: "call_takes lib W args final" and grows: "grows_to st' final"
  shows "state_known W st' \<and> (\<forall>pc. z = Some pc \<longrightarrow> call_known lib W args pc)"
proof (cases "net_dial net b")
  case Elapsed
  with run st show ?thesis by (auto simp: resume_dial_def)
next
  case (Ready dialled)
  obtain r channels where fin: "connect_finish key dialled (ps_channels st) = (r, channels)" by fastforce
  show ?thesis
  proof (cases r)
    case (Err e)
    with fin obtain d where d: "dialled = Err d" "e = Connection (fst key @ '': '' @ d)" "channels = ps_channels st"
      by (auto simp: connect_finish_Err)
    have "outcome_of lib W args (Err e)"
      unfolding d(2) by (rule out_dial [OF _ net]) (use known Ready d(1) in auto)
    with run Ready fin Err d(3) st show ?thesis by (auto simp: resume_dial_def)
  next
    case (Ok ch)
    with run Ready fin have z: "z = Some (with_channel lib args s m ch (ps_registry st))"
        and st': "st' = st\<lparr>ps_channels := channels\<rparr>"
      by (auto simp: resume_dial_def)
    from fin Ok obtain c where c: "dialled = Ok c" "channels = cache_add key c (ps_channels st)"
        "hm_get channels key = Some ch"
      by (auto simp: connect_finish_Ok)
    have "w_channel W k x" if "hm_get channels k = Some x" for k x
    proof (cases "hm_get (ps_channels st) k = Some x")
      case True
      with st show ?thesis by (rule known_channel)
    next
      case False
      with that c(2) have "k = key" "x = c"
        by (auto simp: cache_add_eq hm_get_or_insert split: if_splits)
      moreover have "hm_get final k = Some x" by (rule grows_channel [OF grows]) (use that st' in simp)
      moreover have "net_dial net (dial_target key) = Ready (Ok c)" using Ready c(1) known by simp
      moreover have "own_key args key" using known by simp
      ultimately show ?thesis using takes_channel [OF takes net] by simp
    qed
    note chans = this
    then have "state_known W st'" using known_pool [OF st] st' unfolding state_known_def by simp
    moreover have "channel_of W args ch"
    proof -
      have "own_key args key" using known by simp
      with chans [OF c(3)] show ?thesis unfolding channel_of_def by blast
    qed
    ultimately show ?thesis using known st unfolding z by (auto intro: with_channel_known)
  qed
qed

lemma resume_fetch_known:
  assumes known: "call_known lib W args (At_Fetch ch s m)"
    and run: "resume_fetch lib net args ch s m st = (z, st')" and st: "state_known W st" and net: "w_net W net"
    and takes: "call_takes lib W args final"
  shows "state_known W st' \<and> (\<forall>pc. z = Some pc \<longrightarrow> call_known lib W args pc)"
proof -
  have pool: "w_pool W s pool"
    if "fetch_pool (lib_pool lib) (net_reflect net) ch s (ca_max_decode args) (ca_max_encode args)
        = Ready (Ok pool)" for pool
    using known by (intro takes_pool [OF takes net _ _ _ that]) auto
  have err: "outcome_of lib W args (Err e)"
    if "fetch_pool (lib_pool lib) (net_reflect net) ch s (ca_max_decode args) (ca_max_encode args)
        = Ready (Err e)" for e
    using known by (intro out_fetch [OF _ _ _ net that]) auto
  show ?thesis
  proof (cases "fetch_pool (lib_pool lib) (net_reflect net) ch s (ca_max_decode args) (ca_max_encode args)")
    case Elapsed
    with run st show ?thesis by (auto simp: resume_fetch_def)
  next
    case (Ready r)
    show ?thesis
    proof (cases r)
      case (Err e)
      with Ready run st err show ?thesis by (auto simp: resume_fetch_def)
    next
      case (Ok p)
      with Ready have own: "w_pool W s p" using pool by simp
      have "state_known W (st\<lparr>ps_registry := insert_proto_reflection s p e (ps_registry st)\<rparr>)" for e
        using own known_channel [OF st] known_pool [OF st] unfolding state_known_def
        by (simp add: get_proto_reflection)
      moreover have "call_known lib W args (with_pool lib args ch s m p)"
        using known own by (intro with_pool_known) simp_all
      ultimately show ?thesis using Ok Ready run by (auto simp: resume_fetch_def)
    qed
  qed
qed

lemma resume_unary_known:
  assumes known: "call_known lib W args (At_Unary ch desc s m body)"
    and run: "resume_unary lib net args ch desc s m body st = (z, st')" and net: "w_net W net"
  shows "st' = st \<and> (\<forall>pc. z = Some pc \<longrightarrow> call_known lib W args pc)"
proof -
  have own: "request_of lib W args ch s m desc body" using known by simp
  have "reply_of lib W args (decode_response lib (m_output desc) bytes)"
    if "unary_call lib net ch s m body (ca_metadata args) (ca_max_decode args) (ca_max_encode args)
        = Ready (Ok bytes)" for bytes
    using that own net unfolding reply_of_def by blast
  with run own net show ?thesis
    by (auto simp: resume_unary_def intro: out_reply out_call split: poll.splits result.splits)
qed

lemma call_resume_known:
  assumes known: "call_known lib W args pc" and run: "call_resume lib net args pc st = (z, st')"
    and st: "state_known W st" and net: "w_net W net"
    and takes: "call_takes lib W args final" and grows: "grows_to st' final"
  shows "state_known W st' \<and> (\<forall>pc'. z = Some pc' \<longrightarrow> call_known lib W args pc')"
proof (cases pc)
  case At_Start
  with resume_start_known [of lib args st z st' W] run st show ?thesis by auto
next
  case (At_Dial s m key b)
  show ?thesis
    by (rule resume_dial_known [OF _ _ st net takes grows]) (use known run At_Dial in simp_all)
next
  case (At_Fetch ch s m)
  show ?thesis
    by (rule resume_fetch_known [OF _ _ st net takes]) (use known run At_Fetch in simp_all)
next
  case (At_Unary ch desc s m body)
  with resume_unary_known [of lib W args ch desc s m body net st z st'] known run st net show ?thesis by auto
next
  case (Call_Done r)
  with known run st show ?thesis by auto
qed

section \<open>The result of a row\<close>

text \<open>
  A result answers a row: it carries the row's id; a success is the reply to the row's own request; an
  error is the text of an error in the row's options, of one its own call can meet, of the row's own
  deadline, or of a panic.
\<close>

definition answers :: "('p, 'f, 'd, 'm) grpc_lib \<Rightarrow> ('ch, 'p) world \<Rightarrow> queue_row \<Rightarrow> call_result \<Rightarrow> bool" where
  "answers lib W row r \<longleftrightarrow>
     cr_id r = qr_id row
     \<and> (case cr_outcome r of
          Outcome_Success v \<Rightarrow> \<exists>opts. row_options row = Ok opts \<and> reply_of lib W (row_args row opts) (Ok v)
        | Outcome_Error msg \<Rightarrow>
            (\<exists>e. row_options row = Err e \<and> msg = display_error e)
            \<or> (\<exists>opts e. row_options row = Ok opts \<and> outcome_of lib W (row_args row opts) (Err e)
                 \<and> msg = display_error e)
            \<or> msg = ''timeout after '' @ show_u64 (row_timeout row) @ ''ms''
            \<or> msg = ''task panicked'')"

fun row_known :: "('p, 'f, 'd, 'm) grpc_lib \<Rightarrow> ('ch, 'p) world \<Rightarrow> queue_row \<Rightarrow> ('ch, 'd) row_pc \<Rightarrow> bool" where
  "row_known lib W row Row_Start = True"
| "row_known lib W row (Row_In_Call args pc) =
     ((\<exists>opts. row_options row = Ok opts \<and> args = row_args row opts) \<and> call_known lib W args pc)"
| "row_known lib W row (Row_Done r) = answers lib W row r"

lemma row_segment_known:
  assumes opts: "row_options row = Ok opts" and args: "args = row_args row opts" and known: "call_known lib W args pc"
    and run: "row_segment lib net row args pc st = (rpc, st')" and st: "state_known W st" and net: "w_net W net"
    and takes: "call_takes lib W args final" and grows: "grows_to st' final"
  shows "state_known W st' \<and> row_known lib W row rpc"
proof -
  obtain z st1 where r: "call_resume lib net args pc st = (z, st1)" by fastforce
  with run have st1: "st1 = st'" by (auto simp: row_segment_def split: option.splits call_pc.splits)
  have step: "state_known W st' \<and> (\<forall>pc'. z = Some pc' \<longrightarrow> call_known lib W args pc')"
    by (rule call_resume_known [OF known r [unfolded st1] st net takes grows])
  show ?thesis
  proof (cases z)
    case None
    with run r step show ?thesis by (auto simp: row_segment_def answers_def)
  next
    case (Some pc')
    show ?thesis
    proof (cases "\<exists>res. pc' = Call_Done res")
      case True
      then obtain res where res: "pc' = Call_Done res" by blast
      with step Some have "outcome_of lib W args res" by simp
      with run r Some res step opts args show ?thesis
        by (cases res) (auto simp: row_segment_def answers_def)
    next
      case False
      with run r Some have "rpc = Row_In_Call args pc'" by (cases pc') (auto simp: row_segment_def)
      with step Some opts args show ?thesis by auto
    qed
  qed
qed

lemma row_resume_known:
  assumes known: "row_known lib W row pc" and run: "row_resume lib net row pc st = (pc', st')"
    and st: "state_known W st" and net: "w_net W net"
    and takes: "\<And>opts. row_options row = Ok opts \<Longrightarrow> call_takes lib W (row_args row opts) final" and grows: "grows_to st' final"
  shows "state_known W st' \<and> row_known lib W row pc'"
proof (cases pc)
  case Row_Start
  show ?thesis
  proof (cases "row_options row")
    case (Err e)
    with Row_Start run st show ?thesis by (auto simp: answers_def)
  next
    case (Ok opts)
    have "row_segment lib net row (row_args row opts) At_Start st = (pc', st')"
      using Row_Start Ok run by simp
    from row_segment_known [OF Ok refl _ this st net takes [OF Ok] grows] show ?thesis by simp
  qed
next
  case (Row_In_Call args cpc)
  with known obtain opts where own: "row_options row = Ok opts" "args = row_args row opts" "call_known lib W args cpc"
    by auto
  have "row_segment lib net row args cpc st = (pc', st')" using Row_In_Call run by simp
  from row_segment_known [OF own this st net _ grows] takes [OF own(1)] own(2) show ?thesis by simp
next
  case (Row_Done r)
  with known run st show ?thesis by auto
qed

section \<open>The results of a batch\<close>

text \<open>
  \<open>tokio\<close> numbers the tasks as they are spawned, so task \<open>t\<close> runs row \<open>rows ! (t - 1)\<close>; \<open>N t\<close> says which
  networks it is polled against.
\<close>

definition task_world :: "('ch, 'p) world \<Rightarrow> (nat \<Rightarrow> 'ch grpc_net \<Rightarrow> bool) \<Rightarrow> nat \<Rightarrow> ('ch, 'p) world" where
  "task_world W N t = W\<lparr>w_net := N t\<rparr>"

definition batch_known ::
  "('p, 'f, 'd, 'm) grpc_lib \<Rightarrow> ('ch, 'p) world \<Rightarrow> (nat \<Rightarrow> 'ch grpc_net \<Rightarrow> bool) \<Rightarrow> queue_row list
     \<Rightarrow> ('ch, 'd) batch \<Rightarrow> bool" where
  "batch_known lib W N rows b \<longleftrightarrow>
     batch_inv rows b
     \<and> (\<forall>t row s. hm_get (bt_set b) t = Some (row, s) \<longrightarrow> t \<in> {1..length rows} \<and> row = rows ! (t - 1)
          \<and> (\<forall>pc. s = Live pc \<longrightarrow> row_known lib (task_world W N t) row pc))
     \<and> (\<exists>ts. list_all2 (\<lambda>t r. answers lib (task_world W N t) (rows ! (t - 1)) r) ts (bt_out b)
          \<and> mset ts + mset (map fst (bt_set b)) = mset [1..<Suc (length rows)])"

lemma hm_keys_update: "hm_get m k \<noteq> None \<Longrightarrow> map fst (hm_insert k w m) = map fst m"
  by (induction m) (auto simp: hm_insert_def hm_get_def)

lemma hm_keys_remove:
  "hm_wf m \<Longrightarrow> hm_get m k = Some v \<Longrightarrow> mset (map fst m) = add_mset k (mset (map fst (hm_remove k m)))"
proof (induction m)
  case (Cons e m)
  then show ?case
    by (cases e) (auto simp: hm_wf_def hm_remove_def delete_id split: if_splits)
qed simp

lemma batch_known_row:
  assumes "batch_known lib W N rows b" and "hm_get (bt_set b) t = Some (row, s)"
  shows "batch_inv rows b" and "t \<in> {1..length rows} \<and> row = rows ! (t - 1)"
    and "s = Live pc \<Longrightarrow> row_known lib (task_world W N t) row pc"
  using assms unfolding batch_known_def by blast+

lemma batch_known_update:
  assumes inv: "batch_known lib W N rows b" and get: "hm_get (bt_set b) t = Some (row, s)"
    and ok: "\<And>pc. s' = Live pc \<Longrightarrow> row_pc_ok row pc \<and> row_known lib (task_world W N t) row pc"
  shows "batch_known lib W N rows (b\<lparr>bt_set := hm_insert t (row, s') (bt_set b)\<rparr>)"
proof -
  have "batch_inv rows (b\<lparr>bt_set := hm_insert t (row, s') (bt_set b)\<rparr>)"
    using batch_known_row(1) [OF inv get] ok by (intro batch_inv_update [OF _ get]) auto
  moreover have "map fst (hm_insert t (row, s') (bt_set b)) = map fst (bt_set b)"
    by (rule hm_keys_update) (simp add: get)
  moreover have "t \<in> {1..length rows} \<and> row = rows ! (t - 1)" by (rule batch_known_row(2) [OF inv get])
  ultimately show ?thesis using inv ok unfolding batch_known_def by auto
qed

lemma batch_known_join:
  assumes inv: "batch_known lib W N rows b" and get: "hm_get (bt_set b) t = Some e"
    and res: "push_joined (bt_ids b) res (bt_out b) = bt_out b @ [r]"
    and own: "answers lib (task_world W N t) (fst e) r"
  shows "batch_known lib W N rows (join_task t res b)"
proof -
  have get': "hm_get (bt_set b) t = Some (fst e, snd e)" using get by simp
  have bi: "batch_inv rows b" by (rule batch_known_row(1) [OF inv get'])
  have "cr_id r = task_row_id e" using own by (simp add: answers_def task_row_id_def)
  then have bj: "batch_inv rows (join_task t res b)" by (rule batch_inv_join [OF bi get res])
  obtain ts where ts: "list_all2 (\<lambda>t r. answers lib (task_world W N t) (rows ! (t - 1)) r) ts (bt_out b)"
      "mset ts + mset (map fst (bt_set b)) = mset [1..<Suc (length rows)]"
    using inv unfolding batch_known_def by blast
  have "mset (map fst (bt_set b)) = add_mset t (mset (map fst (hm_remove t (bt_set b))))"
    using bi get by (intro hm_keys_remove) (auto simp: batch_inv_def)
  with ts own res batch_known_row(2) [OF inv get']
  have "list_all2 (\<lambda>t r. answers lib (task_world W N t) (rows ! (t - 1)) r) (ts @ [t]) (bt_out (join_task t res b))
      \<and> mset (ts @ [t]) + mset (map fst (bt_set (join_task t res b))) = mset [1..<Suc (length rows)]"
    by (simp add: join_task_def list_all2_appendI)
  moreover have "u \<in> {1..length rows} \<and> row = rows ! (u - 1) \<and> (\<forall>pc. s = Live pc \<longrightarrow> row_known lib (task_world W N u) row pc)"
    if "hm_get (bt_set (join_task t res b)) u = Some (row, s)" for u row s
    using that inv unfolding batch_known_def by (auto simp: join_task_def split: if_splits)
  ultimately show ?thesis using bj unfolding batch_known_def by blast
qed

lemma state_known_task [simp]: "state_known (task_world W N t) st = state_known W st"
  by (simp add: state_known_def task_world_def)

text \<open>Each task's world takes in what its own call is given.\<close>

definition batch_takes ::
  "('p, 'f, 'd, 'm) grpc_lib \<Rightarrow> ('ch, 'p) world \<Rightarrow> (nat \<Rightarrow> 'ch grpc_net \<Rightarrow> bool) \<Rightarrow> queue_row list
     \<Rightarrow> 'ch channels \<Rightarrow> bool" where
  "batch_takes lib W N rows final \<longleftrightarrow>
     (\<forall>t opts. t \<in> {1..length rows} \<and> row_options (rows ! (t - 1)) = Ok opts \<longrightarrow>
        call_takes lib (task_world W N t) (row_args (rows ! (t - 1)) opts) final)"

lemma batch_known_poll:
  assumes inv: "batch_known lib W N rows b" and get: "hm_get (bt_set b) t = Some (row, Live pc)"
    and run: "row_resume lib net row pc st = (pc', st')" and st: "state_known W st"
    and net: "N t net" and takes: "batch_takes lib W N rows final" and grows: "grows_to st' final"
  shows "state_known W st' \<and> batch_known lib W N rows (b\<lparr>bt_set := hm_insert t (row, Live pc') (bt_set b)\<rparr>)"
proof -
  have known: "row_known lib (task_world W N t) row pc" by (rule batch_known_row(3) [OF inv get refl])
  have own: "call_takes lib (task_world W N t) (row_args row opts) final" if "row_options row = Ok opts" for opts
    using that takes batch_known_row(2) [OF inv get] unfolding batch_takes_def by blast
  have step: "state_known (task_world W N t) st' \<and> row_known lib (task_world W N t) row pc'"
    by (rule row_resume_known [OF known run _ _ own grows])
       (use st net in \<open>simp_all add: task_world_def state_known_def\<close>)
  have "row_pc_ok row pc'"
  proof (cases "row_polls_left pc = 0")
    case True
    then have "pc' = pc" using run by (auto simp: row_polls_left_0)
    with batch_known_row(1) [OF inv get] get show ?thesis by (auto simp: batch_inv_def task_ok_def)
  next
    case False
    with row_resume_polls [OF run] show ?thesis by blast
  qed
  with step have "batch_known lib W N rows (b\<lparr>bt_set := hm_insert t (row, Live pc') (bt_set b)\<rparr>)"
    by (intro batch_known_update [OF inv get]) auto
  with step show ?thesis by simp
qed

lemma batch_known_event:
  assumes inv: "batch_known lib W N rows b" and ev: "batch_event lib ev (b, st) = (b', st')" and st: "state_known W st"
    and net: "\<And>t net. ev = Poll t net \<Longrightarrow> N t net" and takes: "batch_takes lib W N rows final" and grows: "grows_to st' final"
  shows "state_known W st' \<and> batch_known lib W N rows b'"
proof (cases ev)
  case (Poll t net)
  show ?thesis
  proof (cases "\<exists>row pc. hm_get (bt_set b) t = Some (row, Live pc)")
    case True
    then obtain row pc where get: "hm_get (bt_set b) t = Some (row, Live pc)" by blast
    obtain pc' st1 where run: "row_resume lib net row pc st = (pc', st1)" by fastforce
    have b': "b' = b\<lparr>bt_set := hm_insert t (row, Live pc') (bt_set b)\<rparr>" and "st1 = st'"
      using ev Poll get run by simp_all
    then show ?thesis
      using batch_known_poll [OF inv get run st net [OF Poll] takes] grows by simp
  next
    case False
    then have "b' = b \<and> st' = st" using ev Poll by (auto split: option.splits prod.splits task_state.splits)
    with inv st show ?thesis by simp
  qed
next
  case (Panic t)
  then show ?thesis using inv st ev
    by (auto split: option.splits prod.splits task_state.splits row_pc.splits intro: batch_known_update)
next
  case (Join t)
  then have st': "st' = st" using ev by simp
  have "batch_known lib W N rows b'"
  proof (cases "hm_get (bt_set b) t")
    case (Some e)
    obtain row s where e: "e = (row, s)" by (cases e)
    have ok: "task_ok (bt_ids b) t e" and known: "\<And>pc. s = Live pc \<Longrightarrow> row_known lib (task_world W N t) row pc"
      using batch_known_row(1,3) [OF inv, of t row s] Some e unfolding batch_inv_def by blast+
    note join = batch_known_join [OF inv Some]
    show ?thesis
    proof (cases s)
      case Panicked
      have "batch_known lib W N rows (join_task t (Err t) b)"
        by (rule join) (use ok e in \<open>auto simp: task_ok_def task_row_id_def answers_def\<close>)
      with ev Join Some e Panicked show ?thesis by simp
    next
      case (Live pc)
      show ?thesis
      proof (cases "\<exists>r. pc = Row_Done r")
        case True
        then obtain r where r: "pc = Row_Done r" by blast
        have "batch_known lib W N rows (join_task t (Ok (t, r)) b)"
          by (rule join) (use known [OF Live] r e in auto)
        with ev Join Some e Live r show ?thesis by simp
      next
        case False
        with ev Join Some e Live inv show ?thesis by (cases pc) auto
      qed
    qed
  qed (use ev Join inv in auto)
  with st st' show ?thesis by simp
qed

lemma effect_grows: "batch_effect s t \<Longrightarrow> grows_to s (ps_channels t)"
  by (simp add: batch_effect_def grows_to_def)

lemma batch_known_run:
  assumes "batch_known lib W N rows b" and "fold (batch_event lib) evs (b, st) = (b', st')" and "state_known W st"
    and "\<And>t net. Poll t net \<in> set evs \<Longrightarrow> N t net" and takes: "batch_takes lib W N rows (ps_channels st')"
  shows "state_known W st' \<and> batch_known lib W N rows b'"
  using assms(1-4)
proof (induction evs arbitrary: b st)
  case (Cons ev evs)
  obtain b1 st1 where ev: "batch_event lib ev (b, st) = (b1, st1)" by fastforce
  have rest: "fold (batch_event lib) evs (b1, st1) = (b', st')" using Cons.prems(2) ev by simp
  have "state_known W st1 \<and> batch_known lib W N rows b1"
    by (rule batch_known_event [OF Cons.prems(1) ev Cons.prems(3) _ takes])
       (use Cons.prems(4) effect_grows [OF run_events_effect [OF rest]] in auto)
  then show ?case using Cons.IH [OF _ rest] Cons.prems(4) by simp
qed simp

lemma spawn_rows_set:
  "b = spawn_rows rows \<Longrightarrow> bt_set b = map (\<lambda>i. (Suc i, rows ! i, Live Row_Start)) [0..<length rows]
     \<and> bt_next b = Suc (length rows) \<and> bt_out b = []"
proof (induction rows arbitrary: b rule: rev_induct)
  case Nil
  then show ?case by (simp add: spawn_rows_def empty_batch_def)
next
  case (snoc row rows)
  from snoc.IH [OF refl] snoc.prems show ?case by (simp add: spawn_rows_snoc spawn_row_def nth_append)
qed

lemma spawn_rows_known: "batch_known lib W N rows (spawn_rows rows :: ('ch, 'd) batch)"
proof -
  let ?b = "spawn_rows rows :: ('ch, 'd) batch"
  have set: "bt_set ?b = map (\<lambda>i. (Suc i, rows ! i, Live Row_Start)) [0..<length rows]"
    and out: "bt_out ?b = []"
    using spawn_rows_set [of ?b rows] by auto
  have "t \<in> {1..length rows} \<and> row = rows ! (t - 1) \<and> (\<forall>pc. s = Live pc \<longrightarrow> row_known lib (task_world W N t) row pc)"
    if "hm_get (bt_set ?b) t = Some (row, s)" for t row s
    using that unfolding set hm_get_def by (auto dest!: map_of_SomeD)
  moreover have "map fst (bt_set ?b) = [1..<Suc (length rows)]"
    unfolding set by (simp add: o_def map_Suc_upt del: upt_Suc)
  ultimately show ?thesis
    using spawn_rows_inv [of rows] out unfolding batch_known_def
    by (intro conjI exI [of _ "[]"]) (simp_all del: upt_Suc mset_map)
qed

lemma run_batch_known:
  assumes run: "run_batch lib evs rows st = Some (out, st')" and "state_known W st"
    and "\<And>t net. Poll t net \<in> set evs \<Longrightarrow> N t net"
    and "batch_takes lib W N rows (ps_channels st')"
  shows "state_known W st' \<and> (\<exists>ts. mset ts = mset [1..<Suc (length rows)]
     \<and> list_all2 (\<lambda>t r. answers lib (task_world W N t) (rows ! (t - 1)) r) ts out)"
proof -
  from run obtain b where b: "fold (batch_event lib) evs (spawn_rows rows, st) = (b, st')"
      "bt_set b = []" "out = bt_out b"
    by (auto simp: run_batch_Some)
  have "state_known W st' \<and> batch_known lib W N rows b"
    by (rule batch_known_run [OF spawn_rows_known b(1) assms(2,3,4)])
  with b show ?thesis by (auto simp: batch_known_def)
qed

section \<open>What a run of a batch, and a service, can draw on\<close>

text \<open>
  A batch, exactly: the channels of the cache it leaves; the pools of the registry it found and those a
  task of the batch fetched by reflection, for its own service over its own channel; for task \<open>t\<close> the
  networks \<open>t\<close> was polled against.
\<close>

definition polled :: "'ch task_event list \<Rightarrow> nat \<Rightarrow> 'ch grpc_net \<Rightarrow> bool" where
  "polled evs t net \<longleftrightarrow> Poll t net \<in> set evs"

definition run_channel :: "('ch, 'p) proc_state \<Rightarrow> channel_key \<Rightarrow> 'ch \<Rightarrow> bool" where
  "run_channel st' key ch \<longleftrightarrow> hm_get (ps_channels st') key = Some ch"

definition run_fetched ::
  "('p, 'f, 'd, 'm) grpc_lib \<Rightarrow> 'ch task_event list \<Rightarrow> queue_row list \<Rightarrow> ('ch, 'p) proc_state \<Rightarrow> string \<Rightarrow> 'p \<Rightarrow> bool" where
  "run_fetched lib evs rows st' s pool \<longleftrightarrow>
     (\<exists>u opts args m key ch net. u \<in> {1..length rows} \<and> row_options (rows ! (u - 1)) = Ok opts
        \<and> args = row_args (rows ! (u - 1)) opts \<and> parse_method (ca_method args) = Ok (s, m)
        \<and> ca_use_reflection args \<and> own_key args key \<and> run_channel st' key ch \<and> polled evs u net
        \<and> fetch_pool (lib_pool lib) (net_reflect net) ch s (ca_max_decode args) (ca_max_encode args)
            = Ready (Ok pool))"

definition run_world ::
  "('p, 'f, 'd, 'm) grpc_lib \<Rightarrow> 'ch task_event list \<Rightarrow> queue_row list \<Rightarrow> ('ch, 'p) proc_state
     \<Rightarrow> ('ch, 'p) proc_state \<Rightarrow> nat \<Rightarrow> ('ch, 'p) world" where
  "run_world lib evs rows st st' t =
     \<lparr>w_channel = run_channel st',
      w_pool = \<lambda>s pool. get_proto (ps_registry st) s = Some pool \<or> run_fetched lib evs rows st' s pool,
      w_net = polled evs t\<rparr>"

text \<open>
  The service as a whole, over networks in \<open>nets\<close>: the channels dialled for a key, the pools fetched for a
  service over such a channel.
\<close>

definition dialled :: "('ch grpc_net \<Rightarrow> bool) \<Rightarrow> channel_key \<Rightarrow> 'ch \<Rightarrow> bool" where
  "dialled nets key ch \<longleftrightarrow> (\<exists>net. nets net \<and> net_dial net (dial_target key) = Ready (Ok ch))"

definition fetched ::
  "('p, 'f, 'd, 'm) grpc_lib \<Rightarrow> ('ch grpc_net \<Rightarrow> bool) \<Rightarrow> string \<Rightarrow> 'p \<Rightarrow> bool" where
  "fetched lib nets s pool \<longleftrightarrow>
     (\<exists>args m key ch net. parse_method (ca_method args) = Ok (s, m) \<and> ca_use_reflection args \<and> own_key args key
        \<and> dialled nets key ch \<and> nets net
        \<and> fetch_pool (lib_pool lib) (net_reflect net) ch s (ca_max_decode args) (ca_max_encode args)
            = Ready (Ok pool))"

definition env_world ::
  "('p, 'f, 'd, 'm) grpc_lib \<Rightarrow> ('ch grpc_net \<Rightarrow> bool) \<Rightarrow> ('ch, 'p) world" where
  "env_world lib nets = \<lparr>w_channel = dialled nets, w_pool = fetched lib nets, w_net = nets\<rparr>"

text \<open>The caches hold only such channels and pools; those of a process that has just started hold nothing.\<close>

definition caches_known ::
  "('p, 'f, 'd, 'm) grpc_lib \<Rightarrow> ('ch grpc_net \<Rightarrow> bool) \<Rightarrow> ('ch, 'p) proc_state \<Rightarrow> bool" where
  "caches_known lib nets st \<longleftrightarrow> state_known (env_world lib nets) st"

lemma caches_known_empty [simp]: "caches_known lib nets \<lparr>ps_channels = [], ps_registry = []\<rparr>"
  by (simp add: caches_known_def state_known_def get_proto_def)

lemma env_takes: "call_takes lib (env_world lib nets) args final"
  unfolding call_takes_def env_world_def channel_of_def fetched_def by (auto simp: dialled_def) blast+

lemma run_batch_env:
  assumes run: "run_batch lib evs rows st = Some (out, st')" and "caches_known lib nets st"
    and nets: "\<And>t net. Poll t net \<in> set evs \<Longrightarrow> nets net"
  shows "caches_known lib nets st'
     \<and> (\<exists>joined. mset joined = mset rows \<and> list_all2 (answers lib (env_world lib nets)) joined out)"
proof -
  have world: "task_world (env_world lib nets) (\<lambda>_. nets) t = env_world lib nets" for t
    by (simp add: task_world_def env_world_def)
  have takes: "batch_takes lib (env_world lib nets) (\<lambda>_. nets) rows (ps_channels st')"
    by (simp add: batch_takes_def world env_takes)
  have st: "state_known (env_world lib nets) st" using assms(2) by (simp add: caches_known_def)
  have "state_known (env_world lib nets) st' \<and> (\<exists>ts. mset ts = mset [1..<Suc (length rows)]
     \<and> list_all2 (\<lambda>t r. answers lib (env_world lib nets) (rows ! (t - 1)) r) ts out)"
    by (rule run_batch_known [where W = "env_world lib nets" and N = "\<lambda>_. nets", unfolded world, OF run st nets takes])
  then obtain ts where st': "state_known (env_world lib nets) st'" and ts: "mset ts = mset [1..<Suc (length rows)]"
      "list_all2 (\<lambda>t r. answers lib (env_world lib nets) (rows ! (t - 1)) r) ts out"
    by blast
  have "mset (map (\<lambda>t. rows ! (t - 1)) ts) = mset (map (\<lambda>t. rows ! (t - 1)) [1..<Suc (length rows)])"
    using ts(1) by (metis mset_map)
  also have "map (\<lambda>t. rows ! (t - 1)) [1..<Suc (length rows)] = rows"
    by (rule nth_equalityI) (simp_all del: upt_Suc)
  finally have "mset (map (\<lambda>t. rows ! (t - 1)) ts) = mset rows" .
  moreover have "list_all2 (answers lib (env_world lib nets)) (map (\<lambda>t. rows ! (t - 1)) ts) out"
    using ts(2) by (simp add: list_all2_map1)
  ultimately show ?thesis using st' unfolding caches_known_def by blast
qed

text \<open>Each row finds its result among those of the batch.\<close>

lemma own_result:
  assumes "mset joined = mset rows" and "list_all2 (answers lib W) joined results" and "row \<in> set rows"
  shows "\<exists>r \<in> set results. answers lib W row r"
proof -
  have "row \<in> set joined" using assms(1,3) by (metis set_mset_mset)
  then obtain k where k: "k < length joined" "row = joined ! k" by (auto simp: in_set_conv_nth)
  with assms(2) have "answers lib W row (results ! k)" "k < length results"
    by (auto simp: list_all2_conv_all_nth)
  then show ?thesis using nth_mem by blast
qed

text \<open>The channels a batch adds to the cache were dialled by its own tasks, where their keys say.\<close>

definition run_dialled ::
  "'ch task_event list \<Rightarrow> queue_row list \<Rightarrow> channel_key \<Rightarrow> 'ch \<Rightarrow> bool" where
  "run_dialled evs rows key ch \<longleftrightarrow>
     (\<exists>t opts net. t \<in> {1..length rows} \<and> row_options (rows ! (t - 1)) = Ok opts
        \<and> own_key (row_args (rows ! (t - 1)) opts) key \<and> polled evs t net
        \<and> net_dial net (dial_target key) = Ready (Ok ch))"

lemma run_batch_dialled:
  assumes run: "run_batch lib evs rows st = Some (out, st')" and ch: "hm_get (ps_channels st') key = Some ch"
  shows "hm_get (ps_channels st) key = Some ch \<or> run_dialled evs rows key ch"
proof -
  define W :: "('a, 'b) world" where "W = \<lparr>w_channel = \<lambda>key ch. hm_get (ps_channels st) key = Some ch \<or> run_dialled evs rows key ch,
    w_pool = \<lambda>s pool. True, w_net = \<lambda>net. True\<rparr>"
  have "state_known W st" by (simp add: state_known_def W_def)
  moreover have "batch_takes lib W (polled evs) rows (ps_channels st')"
    unfolding batch_takes_def call_takes_def task_world_def W_def run_dialled_def by auto
  ultimately have "state_known W st'"
    using run_batch_known [OF run, of W "polled evs"] by (simp add: polled_def)
  from known_channel [OF this ch] show ?thesis by (simp add: W_def)
qed

lemma task_world_run: "task_world (run_world lib evs rows st st' u) (polled evs) t = run_world lib evs rows st st' t"
  by (simp add: task_world_def run_world_def)

lemma run_takes: "batch_takes lib (run_world lib evs rows st st' u) (polled evs) rows (ps_channels st')"
  unfolding batch_takes_def task_world_run
proof (intro allI impI, elim conjE)
  fix t opts
  assume t: "t \<in> {1..length rows}" "row_options (rows ! (t - 1)) = Ok opts"
  let ?args = "row_args (rows ! (t - 1)) opts"
  have "run_fetched lib evs rows st' s pool"
    if "polled evs t net" "parse_method (ca_method ?args) = Ok (s, m)" "ca_use_reflection ?args"
      "own_key ?args key" "run_channel st' key ch"
      "fetch_pool (lib_pool lib) (net_reflect net) ch s (ca_max_decode ?args) (ca_max_encode ?args) = Ready (Ok pool)"
    for net s m key ch pool
    using that t unfolding run_fetched_def by blast
  then show "call_takes lib (run_world lib evs rows st st' t) ?args (ps_channels st')"
    unfolding call_takes_def run_world_def channel_of_def world.simps run_channel_def by blast
qed

lemma run_batch_own:
  assumes run: "run_batch lib evs rows st = Some (out, st')"
  shows "\<exists>ts. mset ts = mset [1..<Suc (length rows)]
     \<and> list_all2 (\<lambda>t r. answers lib (run_world lib evs rows st st' t) (rows ! (t - 1)) r) ts out"
proof -
  have st: "state_known (run_world lib evs rows st st' 0) st"
    using run_batch_effect [OF run]
    unfolding state_known_def run_world_def run_channel_def batch_effect_def world.simps by blast
  have N: "polled evs t net" if "Poll t net \<in> set evs" for t net using that by (simp add: polled_def)
  have "state_known (run_world lib evs rows st st' 0) st' \<and> (\<exists>ts. mset ts = mset [1..<Suc (length rows)]
     \<and> list_all2 (\<lambda>t r. answers lib (run_world lib evs rows st st' t) (rows ! (t - 1)) r) ts out)"
    by (rule run_batch_known [where W = "run_world lib evs rows st st' 0" and N = "polled evs", unfolded task_world_run,
          OF run st N run_takes])
  then show ?thesis by blast
qed

section \<open>Theorems\<close>

text \<open>The sample server echoes the request it is sent, over whatever channel and with whatever pool.\<close>

lemma sample_unary:
  "unary_call sample_lib sample_net ch s m body md dec enc = Ready (Ok bytes) \<Longrightarrow> bytes = body"
proof -
  have path: "lib_parse_path sample_lib p = Ok p" for p by (simp add: sample_lib_def)
  have ready: "net_ready sample_net ch l = Ready (Ok ())" for l by (simp add: sample_net_def)
  have echo: "net_unary sample_net raw_bytes_codec ch l hdrs p body = Ready (Ok body)" for l hdrs p
    by (simp add: sample_net_def raw_bytes_codec_def raw_encode_def raw_decode_def)
  assume "unary_call sample_lib sample_net ch s m body md dec enc = Ready (Ok bytes)"
  then show ?thesis
    by (cases "apply_metadata sample_lib [] md") (simp_all add: unary_call_def path ready echo Let_def)
qed

lemma sample_reply:
  assumes "reply_of sample_lib W args (Ok v)" and "w_net W = (\<lambda>net. net = sample_net)"
  shows "v = JString (case ca_request args of JString s \<Rightarrow> s | _ \<Rightarrow> ''{}'')"
proof -
  from assms obtain s m ch desc body bytes where r: "request_of sample_lib W args ch s m desc body"
      "unary_call sample_lib sample_net ch s m body (ca_metadata args) (ca_max_decode args) (ca_max_encode args)
         = Ready (Ok bytes)"
      "Ok v = decode_response sample_lib (m_output desc) bytes"
    unfolding reply_of_def by auto
  have "body = (case ca_request args of JString s \<Rightarrow> s | _ \<Rightarrow> ''{}'')"
    using r(1) by (auto simp: request_of_def encode_request_def sample_lib_def split: json.splits)
  moreover have "v = JString bytes" using r(3) by (simp add: decode_response_def sample_lib_def)
  ultimately show ?thesis using sample_unary [OF r(2)] by simp
qed

text \<open>
  C6: the results of a batch are not mixed up: the tasks, joined in some order, each report the result of
  their own row: it carries the row's id; a success is the decoded reply to that row's own request,
  given by a network that task was polled against, over the channel the cache holds for the row's
  endpoint and TLS settings, the request encoded for the method the row names with a pool the registry
  held for its service or that a task of the batch fetched for it; an error is one of that row's own
  options or call, its deadline or a panic.  Every channel the batch adds to the cache was dialled by one of
  its own tasks, at the address and with the TLS settings its key stands for.  So it is whatever the schedule, the
  network and the panics.
\<close>

theorem run_batch_own_replies:
  assumes "run_batch lib evs rows st = Some (out, st')"
  shows "(\<exists>ts. mset ts = mset [1..<Suc (length rows)]
       \<and> list_all2 (\<lambda>t r. answers lib (run_world lib evs rows st st' t) (rows ! (t - 1)) r) ts out)
     \<and> (\<forall>key ch. hm_get (ps_channels st') key = Some ch \<longrightarrow>
          hm_get (ps_channels st) key = Some ch \<or> run_dialled evs rows key ch)"
  using run_batch_own [OF assms] run_batch_dialled [OF assms] by blast

theorem run_batch_own_replies_witness:
  "\<exists>out st'. run_batch sample_lib sample_schedule [echo_row 5, echo_row 9] \<lparr>ps_channels = [], ps_registry = []\<rparr>
      = Some (out, st')
    \<and> out = [\<lparr>cr_id = 5, cr_outcome = Outcome_Error ''task panicked''\<rparr>,
             \<lparr>cr_id = 9, cr_outcome = Outcome_Success (JString ''hello'')\<rparr>]
    \<and> answers sample_lib (run_world sample_lib sample_schedule [echo_row 5, echo_row 9]
          \<lparr>ps_channels = [], ps_registry = []\<rparr> st' 2) (echo_row 9) (out ! 1)"
proof -
  let ?st = "\<lparr>ps_channels = [] :: nat channels, ps_registry = []\<rparr>"
  let ?rows = "[echo_row 5, echo_row 9]"
  have "map_option fst (run_batch sample_lib sample_schedule ?rows ?st) =
      Some [\<lparr>cr_id = 5, cr_outcome = Outcome_Error ''task panicked''\<rparr>,
            \<lparr>cr_id = 9, cr_outcome = Outcome_Success (JString ''hello'')\<rparr>]"
    by code_simp
  then obtain out st' where run: "run_batch sample_lib sample_schedule ?rows ?st = Some (out, st')"
      and out: "out = [\<lparr>cr_id = 5, cr_outcome = Outcome_Error ''task panicked''\<rparr>,
              \<lparr>cr_id = 9, cr_outcome = Outcome_Success (JString ''hello'')\<rparr>]"
    by auto
  let ?own = "\<lambda>t r. answers sample_lib (run_world sample_lib sample_schedule ?rows ?st st' t) (?rows ! (t - 1)) r"
  from run_batch_own_replies [OF run] obtain ts where ts: "mset ts = mset [1..<Suc (length ?rows)]"
      "list_all2 ?own ts out"
    by blast
  obtain t u where tu: "ts = [t, u]" "?own t (out ! 0)" "?own u (out ! 1)"
    using ts(2) unfolding out by (auto simp: list_all2_Cons2)
  have ids: "qr_id (?rows ! (t - 1)) = 5" using tu(2) by (simp add: answers_def out)
  have "mset [t, u] = mset [1, 2]" using ts(1) tu(1) by (simp add: upt_rec)
  then have "{t, u} = {1, 2}" by (metis list.set set_mset_mset)
  then have "t = 1 \<and> u = 2 \<or> t = 2 \<and> u = 1" by (simp add: doubleton_eq_iff)
  then have "u = 2"
  proof
    assume "t = 2 \<and> u = 1"
    with ids show ?thesis by (simp add: echo_row_def sample_row_def)
  qed simp
  with tu(3) have "answers sample_lib (run_world sample_lib sample_schedule ?rows ?st st' 2) (echo_row 9) (out ! 1)"
    by simp
  with run out show ?thesis by blast
qed

end
