(* ===== verification/Guc.thy ===== *)
theory Guc
  imports Rust_Str
begin

text \<open>
  The configuration settings of \<open>src/src/guc.rs\<close>: their registration (name, context, range), the
  static cells with their initial values, and the accessors with their fallbacks.  \<open>guc_assign\<close> is
  what PostgreSQL documents for a registered setting: a value out of the declared range is refused,
  and a \<open>Postmaster\<close> setting changes at server start only.
\<close>

datatype guc_context = Postmaster | Sighup

datatype guc_def =
    String_Guc string guc_context
  | Int_Guc string int int guc_context

record guc_state =
  g_database_name :: "string option"
  g_username :: "string option"
  g_ttl :: "string option"
  g_batch_size :: i32

definition guc_initial :: guc_state where
  "guc_initial =
     \<lparr>g_database_name = Some ''postgres'', g_username = None, g_ttl = Some ''6 hours'',
      g_batch_size = 200\<rparr>"

definition guc_init :: "guc_def list" where
  "guc_init =
     [String_Guc ''pg_grpc.database_name'' Postmaster,
      String_Guc ''pg_grpc.username'' Postmaster,
      String_Guc ''pg_grpc.ttl'' Sighup,
      Int_Guc ''pg_grpc.batch_size'' 1 i32_max Sighup]"

section \<open>Accessors\<close>

definition guc_database_name :: "guc_state \<Rightarrow> string" where
  "guc_database_name g =
     (case map_option to_string_lossy (g_database_name g) of None \<Rightarrow> ''postgres'' | Some s \<Rightarrow> s)"

definition guc_username :: "guc_state \<Rightarrow> string option" where
  "guc_username g =
     (case map_option to_string_lossy (g_username g) of
        Some s \<Rightarrow> if s \<noteq> [] then Some s else None | None \<Rightarrow> None)"

definition guc_ttl :: "guc_state \<Rightarrow> string" where
  "guc_ttl g = (case map_option to_string_lossy (g_ttl g) of None \<Rightarrow> ''6 hours'' | Some s \<Rightarrow> s)"

definition guc_batch_size :: "guc_state \<Rightarrow> i32" where
  "guc_batch_size g = g_batch_size g"

section \<open>Assignments\<close>

datatype guc_value = Str_Value "string option" | Int_Value int

datatype guc_phase = Server_Start | Reload

fun guc_context_allows :: "guc_phase \<Rightarrow> guc_context \<Rightarrow> bool" where
  "guc_context_allows Server_Start c = True"
| "guc_context_allows Reload c = (c = Sighup)"

fun guc_def_accepts :: "guc_phase \<Rightarrow> string \<Rightarrow> guc_value \<Rightarrow> guc_def \<Rightarrow> bool" where
  "guc_def_accepts ph name (Str_Value v) (String_Guc n c) = (n = name \<and> guc_context_allows ph c)"
| "guc_def_accepts ph name (Int_Value i) (Int_Guc n lo hi c) =
     (n = name \<and> guc_context_allows ph c \<and> lo \<le> i \<and> i \<le> hi)"
| "guc_def_accepts ph name _ _ = False"

fun guc_store :: "string \<Rightarrow> guc_value \<Rightarrow> guc_state \<Rightarrow> guc_state" where
  "guc_store name (Str_Value v) g =
     (if name = ''pg_grpc.database_name'' then g\<lparr>g_database_name := v\<rparr>
      else if name = ''pg_grpc.username'' then g\<lparr>g_username := v\<rparr>
      else if name = ''pg_grpc.ttl'' then g\<lparr>g_ttl := v\<rparr> else g)"
| "guc_store name (Int_Value i) g =
     (if name = ''pg_grpc.batch_size'' then g\<lparr>g_batch_size := word_of_int i\<rparr> else g)"

definition guc_assign :: "guc_phase \<Rightarrow> string \<Rightarrow> guc_value \<Rightarrow> guc_state \<Rightarrow> guc_state" where
  "guc_assign ph name v g =
     (if list_ex (guc_def_accepts ph name v) guc_init then guc_store name v g else g)"

definition guc_reload :: "guc_phase \<Rightarrow> (string \<times> guc_value) list \<Rightarrow> guc_state \<Rightarrow> guc_state" where
  "guc_reload ph assigns g = fold (\<lambda>(name, v). guc_assign ph name v) assigns g"

definition batch_size_ok :: "guc_state \<Rightarrow> bool" where
  "batch_size_ok g \<longleftrightarrow> 1 \<le> sint (guc_batch_size g)"

lemma sint_word_of_int_i32:
  "1 \<le> i \<Longrightarrow> i \<le> i32_max \<Longrightarrow> sint (word_of_int i :: i32) = i"
  by (simp add: sint_sbintrunc' signed_take_bit_int_eq_self)

lemma guc_initial_batch_ok: "batch_size_ok guc_initial"
  by (simp add: batch_size_ok_def guc_batch_size_def guc_initial_def)

lemma guc_assign_batch_ok: "batch_size_ok g \<Longrightarrow> batch_size_ok (guc_assign ph name v g)"
  by (cases v)
     (auto simp: guc_assign_def guc_init_def batch_size_ok_def guc_batch_size_def sint_word_of_int_i32)

lemma guc_reload_batch_ok: "batch_size_ok g \<Longrightarrow> batch_size_ok (guc_reload ph assigns g)"
  unfolding guc_reload_def
  by (induction assigns arbitrary: g) (auto simp: guc_assign_batch_ok)

lemma guc_assign_identity:
  "g_database_name (guc_assign Reload name v g) = g_database_name g"
  "g_username (guc_assign Reload name v g) = g_username g"
  by (cases v; auto simp: guc_assign_def guc_init_def)+

lemma guc_reload_identity:
  "g_database_name (guc_reload Reload assigns g) = g_database_name g \<and>
   g_username (guc_reload Reload assigns g) = g_username g"
  unfolding guc_reload_def
  by (induction assigns arbitrary: g) (auto simp: guc_assign_identity)

text \<open>
  C36: whatever the configuration files assign, at server start and at any later reload, the batch
  size the worker reads is a positive \<open>i32\<close> (so its LIMIT is never zero or negative), and a reload
  leaves the two identity settings of the worker as they were at server start.
\<close>

theorem guc_batch_size_positive:
  "1 \<le> sint (guc_batch_size (guc_reload Reload later (guc_reload Server_Start first guc_initial))) \<and>
   guc_database_name (guc_reload Reload later (guc_reload Server_Start first guc_initial)) =
     guc_database_name (guc_reload Server_Start first guc_initial) \<and>
   guc_username (guc_reload Reload later (guc_reload Server_Start first guc_initial)) =
     guc_username (guc_reload Server_Start first guc_initial)"
  using guc_reload_batch_ok [OF guc_reload_batch_ok [OF guc_initial_batch_ok]]
  by (simp add: batch_size_ok_def guc_database_name_def guc_username_def guc_reload_identity)

lemma guc_username_nonempty: "guc_username g = Some u \<Longrightarrow> u \<noteq> []"
  by (auto simp: guc_username_def split: option.splits if_splits)

end
