(* ===== verification/Worker.thy ===== *)
theory Worker
  imports Provenance Guc
begin

text \<open>
  One drain of the background worker (the inner loop of \<open>src/src/worker.rs\<close>), cycle by cycle.  A cycle
  is one transaction: dequeue, run the batch, store its results, clean up.  What a cycle finds is
  its input: a pending SIGTERM, the start time of its transaction, the order in which PostgreSQL
  returns the deleted rows and the schedule of the batch.  A panic or an SQL error ends the process
  (\<open>Cycle_Crash\<close>) and rolls the transaction back: the tables stay what the last commit left.
\<close>

section \<open>A cycle\<close>

record 'ch cycle_input =
  ci_sigterm :: bool
  ci_now :: int
  ci_arrange :: "queue_row list \<Rightarrow> queue_row list"
  ci_events :: "queue_row list \<Rightarrow> 'ch task_event list"

datatype ('ch, 'p) cycle_end =
    Cycle_Stop
  | Cycle_Idle queue_db
  | Cycle_Done queue_db "('ch, 'p) proc_state"
  | Cycle_Crash sql_error
  | Cycle_Running

definition clean_up :: "pg_api \<Rightarrow> guc_state \<Rightarrow> int \<Rightarrow> queue_db \<Rightarrow> (queue_db, sql_error) result" where
  "clean_up pg g now db = ttl_cleanup (pg_cutoff pg) (guc_ttl g) now db"

definition store_batch ::
  "pg_api \<Rightarrow> guc_state \<Rightarrow> int \<Rightarrow> call_result list \<Rightarrow> queue_db \<Rightarrow> (queue_db, sql_error) result" where
  "store_batch pg g now results db =
     bind_result (insert_results (pg_jsonb pg) results now db) (clean_up pg g now)"

definition worker_cycle ::
  "('p, 'f, 'd, 'm) grpc_lib \<Rightarrow> pg_api \<Rightarrow> guc_state \<Rightarrow> i32 \<Rightarrow> 'ch cycle_input
     \<Rightarrow> queue_db \<Rightarrow> ('ch, 'p) proc_state \<Rightarrow> ('ch, 'p) cycle_end" where
  "worker_cycle lib pg g batch_size inp db st =
     (if ci_sigterm inp then Cycle_Stop
      else
        case dequeue (ci_arrange inp) batch_size db of
          Err e \<Rightarrow> Cycle_Crash e
        | Ok (rows, db1) \<Rightarrow>
            if rows = [] then
              (case clean_up pg g (ci_now inp) db1 of
                 Err e \<Rightarrow> Cycle_Crash e
               | Ok db2 \<Rightarrow> Cycle_Idle db2)
            else
              (case run_batch lib (ci_events inp rows) rows st of
                 None \<Rightarrow> Cycle_Running
               | Some (results, st') \<Rightarrow>
                   (case store_batch pg g (ci_now inp) results db1 of
                      Err e \<Rightarrow> Cycle_Crash e
                    | Ok db2 \<Rightarrow> Cycle_Done db2 st')))"

section \<open>The drain\<close>

datatype drain_end = Drained | Stopped | Crashed sql_error

text \<open>
  The inner loop, one input per cycle; \<open>None\<close> while it is still at work.  The batch size is the one
  read before the loop.
\<close>

fun drain ::
  "('p, 'f, 'd, 'm) grpc_lib \<Rightarrow> pg_api \<Rightarrow> guc_state \<Rightarrow> i32 \<Rightarrow> 'ch cycle_input list
     \<Rightarrow> queue_db \<Rightarrow> ('ch, 'p) proc_state \<Rightarrow> (drain_end \<times> queue_db \<times> ('ch, 'p) proc_state) option" where
  "drain lib pg g batch_size [] db st = None"
| "drain lib pg g batch_size (inp # inps) db st =
     (case worker_cycle lib pg g batch_size inp db st of
        Cycle_Stop \<Rightarrow> Some (Stopped, db, st)
      | Cycle_Idle db' \<Rightarrow> Some (Drained, db', st)
      | Cycle_Done db' st' \<Rightarrow> drain lib pg g batch_size inps db' st'
      | Cycle_Crash e \<Rightarrow> Some (Crashed e, db, st)
      | Cycle_Running \<Rightarrow> None)"

text \<open>What one pass of the outer loop reads: the batch size of the settings in force.\<close>

definition drain_pass ::
  "('p, 'f, 'd, 'm) grpc_lib \<Rightarrow> pg_api \<Rightarrow> guc_state \<Rightarrow> 'ch cycle_input list
     \<Rightarrow> queue_db \<Rightarrow> ('ch, 'p) proc_state \<Rightarrow> (drain_end \<times> queue_db \<times> ('ch, 'p) proc_state) option" where
  "drain_pass lib pg g inps db st = drain lib pg g (guc_batch_size g) inps db st"

section \<open>Storing a batch\<close>

text \<open>A cutoff that is no timestamp in the future and no error that unwinds.\<close>

definition cutoff_past :: "(int \<Rightarrow> string \<Rightarrow> int spi) \<Rightarrow> string \<Rightarrow> int \<Rightarrow> bool" where
  "cutoff_past cutoff ttl now \<longleftrightarrow>
     (case cutoff now ttl of Spi_Ok c \<Rightarrow> c \<le> now | Spi_Err e \<Rightarrow> True | Spi_Raise e \<Rightarrow> False)"

lemma cutoff_past_Ok: "cutoff_past cutoff ttl now \<Longrightarrow> cutoff now ttl = Spi_Ok c \<Longrightarrow> c \<le> now"
  by (simp add: cutoff_past_def)

lemma clean_up_Ok:
  assumes "cutoff_past (pg_cutoff pg) (guc_ttl g) now"
  shows "\<exists>db'. clean_up pg g now db = Ok db'"
  using assms by (auto simp: clean_up_def ttl_cleanup_def cutoff_past_def split: spi.splits)

lemma clean_up_keeps:
  assumes "clean_up pg g now db = Ok db'"
  shows "call_queue db' = call_queue db \<and> next_id db' = next_id db \<and> (db_ok db \<longrightarrow> db_ok db')
     \<and> set (call_results db') \<subseteq> set (call_results db)"
  using assms unfolding clean_up_def
  by (auto simp: ttl_cleanup_queue ttl_cleanup_next ttl_cleanup_db_ok) (auto simp: ttl_cleanup_Ok)

text \<open>The results of the batch of a dequeue always fit, and outlive the clean-up.\<close>

lemma batch_ids_of_rows:
  assumes "mset (map cr_id out) = mset (map qr_id rows)"
  shows "cr_id ` set out = qr_id ` set rows" and "distinct (map cr_id out) \<longleftrightarrow> distinct (map qr_id rows)"
  using arg_cong [OF assms, of set_mset] mset_eq_imp_distinct_iff [OF assms] by simp_all

lemma store_batch_fits:
  assumes ok: "db_ok db" and sub: "qr_id ` set rows \<subseteq> queue_ids db" and dist: "distinct (map qr_id rows)"
    and out: "mset (map cr_id out) = mset (map qr_id rows)"
    and fits: "\<forall>r \<in> set out. storable (pg_jsonb pg) r"
    and cut: "cutoff_past (pg_cutoff pg) (guc_ttl g) now"
  shows "\<exists>db2. store_batch pg g now out (delete_ids (qr_id ` set rows) db) = Ok db2
     \<and> (\<forall>r \<in> set out. result_row_of now r \<in> set (call_results db2))"
proof -
  have ids: "cr_id ` set out = qr_id ` set rows" by (rule batch_ids_of_rows(1) [OF out])
  have fit: "cr_id ` set out \<subseteq> queue_ids db" "distinct (map cr_id out)"
    using sub dist batch_ids_of_rows [OF out] by auto
  let ?stored = "(delete_ids (cr_id ` set out) db)\<lparr>call_results := call_results db @ map (result_row_of now) out\<rparr>"
  have ins: "insert_results (pg_jsonb pg) out now (delete_ids (qr_id ` set rows) db) = Ok ?stored"
    using insert_results_fresh [OF ok fit fits] by (simp add: ids)
  obtain db2 where cl: "clean_up pg g now ?stored = Ok db2" using clean_up_Ok [OF cut] by blast
  have "result_row_of now r \<in> set (call_results db2)" if "r \<in> set out" for r
    by (rule ttl_cleanup_keeps_fresh [OF cl [unfolded clean_up_def]])
       (use that cutoff_past_Ok [OF cut] in auto)
  with ins cl show ?thesis by (auto simp: store_batch_def)
qed

lemma store_batch_effect:
  assumes ok: "db_ok db" and sub: "qr_id ` set rows \<subseteq> queue_ids db" and dist: "distinct (map qr_id rows)"
    and out: "mset (map cr_id out) = mset (map qr_id rows)"
    and run: "store_batch pg g now out (delete_ids (qr_id ` set rows) db) = Ok db2"
  shows "db_ok db2 \<and> next_id db2 = next_id db \<and> call_queue db2 = call_queue (delete_ids (qr_id ` set rows) db)
     \<and> result_ids db2 \<subseteq> result_ids db \<union> qr_id ` set rows"
proof -
  have ids: "cr_id ` set out = qr_id ` set rows" by (rule batch_ids_of_rows(1) [OF out])
  have fit: "cr_id ` set out \<subseteq> queue_ids db" "distinct (map cr_id out)"
    using sub dist batch_ids_of_rows [OF out] by auto
  let ?stored = "(delete_ids (cr_id ` set out) db)\<lparr>call_results := call_results db @ map (result_row_of now) out\<rparr>"
  have "\<forall>r \<in> set out. storable (pg_jsonb pg) r"
    using run by (auto simp: store_batch_def bind_result_Ok insert_results_Ok)
  then have "insert_results (pg_jsonb pg) out now (delete_ids (qr_id ` set rows) db) = Ok ?stored"
    using insert_results_fresh [OF ok fit] by (simp add: ids)
  with run have cl: "clean_up pg g now ?stored = Ok db2" by (simp add: store_batch_def)
  have "db_ok ?stored" by (rule db_ok_move [OF ok fit])
  moreover have "result_ids db2 \<subseteq> result_ids ?stored"
    using clean_up_keeps [OF cl] unfolding result_ids_def by blast
  moreover have "result_ids ?stored = result_ids db \<union> qr_id ` set rows"
    using ids by (simp add: result_ids_def image_Un image_image)
  moreover have "next_id ?stored = next_id db" by (simp add: delete_ids_def)
  moreover have "call_queue ?stored = call_queue (delete_ids (qr_id ` set rows) db)" by (simp add: ids)
  ultimately show ?thesis using clean_up_keeps [OF cl] by simp
qed

text \<open>What is stored outlives the clean-up of its transaction unless the cutoff is in the future.\<close>

lemma store_batch_kept:
  assumes "store_batch pg g now out db = Ok db'" and "r \<in> set out"
  shows "result_row_of now r \<in> set (call_results db') \<or> (\<exists>c. pg_cutoff pg now (guc_ttl g) = Spi_Ok c \<and> now < c)"
  using assms
  by (auto simp: store_batch_def clean_up_def ttl_cleanup_def bind_result_Ok insert_results_Ok split: spi.splits)

lemma store_batch_Err:
  assumes "store_batch pg g now out db = Err e"
    and "distinct (map cr_id out) \<and> cr_id ` set out \<inter> result_ids db = {}"
  shows "(\<exists>r v msg. r \<in> set out \<and> cr_outcome r = Outcome_Success v \<and> pg_jsonb pg v = Err msg \<and> e = Raised msg)
     \<or> (\<exists>msg. pg_cutoff pg now (guc_ttl g) = Spi_Raise msg \<and> e = Raised msg)"
proof (cases "insert_results (pg_jsonb pg) out now db")
  case (Ok db1)
  with assms(1) show ?thesis
    by (auto simp: store_batch_def clean_up_def ttl_cleanup_def split: spi.splits)
next
  case (Err d)
  with assms(1) have "d = e" by (simp add: store_batch_def)
  with insert_results_Err [OF Err] assms(2) show ?thesis by blast
qed

text \<open>The rows a dequeue takes are rows of the queue.\<close>

lemma dequeue_ids:
  assumes "arranges arrange" and "db_ok db" and "dequeue arrange n db = Ok (rows, db1)"
  shows "qr_id ` set rows \<subseteq> queue_ids db \<and> distinct (map qr_id rows) \<and> db1 = delete_ids (qr_id ` set rows) db"
  using dequeue_rows(1,2) [OF assms(1,3)] dequeue_distinct [OF assms] by (auto simp: queue_ids_def)

lemma store_batch_dequeued:
  assumes arr: "arranges arrange" and ok: "db_ok db"
    and deq: "dequeue arrange n db = Ok (rows, db1)"
    and out: "mset (map cr_id out) = mset (map qr_id rows)"
    and fits: "\<forall>r \<in> set out. storable (pg_jsonb pg) r"
    and cut: "cutoff_past (pg_cutoff pg) (guc_ttl g) now"
  shows "\<exists>db2. store_batch pg g now out db1 = Ok db2 \<and> db_ok db2
     \<and> call_queue db2 = call_queue db1
     \<and> (\<forall>r \<in> set out. result_row_of now r \<in> set (call_results db2))"
proof -
  note ids = dequeue_ids [OF arr ok deq]
  obtain db2 where "store_batch pg g now out db1 = Ok db2"
      "\<forall>r \<in> set out. result_row_of now r \<in> set (call_results db2)"
    using store_batch_fits [OF ok _ _ out fits cut] ids by blast
  with store_batch_effect [OF ok _ _ out] ids show ?thesis by blast
qed

section \<open>What a cycle does\<close>

text \<open>A cycle's input as PostgreSQL and the runtime provide it: rows in some order, batches that end.\<close>

definition input_ok :: "('p, 'f, 'd, 'm) grpc_lib \<Rightarrow> ('ch grpc_net \<Rightarrow> bool) \<Rightarrow> 'ch cycle_input \<Rightarrow> bool" where
  "input_ok lib nets inp \<longleftrightarrow>
     arranges (ci_arrange inp)
     \<and> (\<forall>rows (st :: ('ch, 'p) proc_state). run_batch lib (ci_events inp rows) rows st \<noteq> None)
     \<and> (\<forall>rows t net. Poll t net \<in> set (ci_events inp rows) \<longrightarrow> nets net)"

text \<open>No reply to one of the rows is a value \<open>jsonb\<close> refuses.\<close>

definition replies_fit ::
  "('p, 'f, 'd, 'm) grpc_lib \<Rightarrow> pg_api \<Rightarrow> ('ch, 'p) world \<Rightarrow> queue_row set \<Rightarrow> bool" where
  "replies_fit lib pg W rows \<longleftrightarrow>
     (\<forall>row opts v. row \<in> rows \<and> row_options row = Ok opts \<and> reply_of lib W (row_args row opts) (Ok v) \<longrightarrow>
        pg_jsonb pg v = Ok ())"

lemma replies_fit_subset: "replies_fit lib pg W A \<Longrightarrow> B \<subseteq> A \<Longrightarrow> replies_fit lib pg W B"
  unfolding replies_fit_def by blast

lemma answers_storable:
  assumes "replies_fit lib pg W rows" and "row \<in> rows" and "answers lib W row r"
  shows "storable (pg_jsonb pg) r"
  using assms unfolding replies_fit_def storable_def answers_def by (auto split: call_outcome.splits)

lemma batch_storable:
  assumes "replies_fit lib pg W (set rows)" and "mset joined = mset rows" and "list_all2 (answers lib W) joined out"
  shows "\<forall>r \<in> set out. storable (pg_jsonb pg) r"
proof
  fix r
  assume "r \<in> set out"
  then obtain k where "k < length out" "r = out ! k" by (auto simp: in_set_conv_nth)
  with assms(3) have "answers lib W (joined ! k) r" "joined ! k \<in> set joined"
    by (auto simp: list_all2_conv_all_nth)
  moreover have "set joined = set rows" using assms(2) by (metis set_mset_mset)
  ultimately show "storable (pg_jsonb pg) r" using answers_storable [OF assms(1)] by blast
qed

lemma cycle_Idle:
  "worker_cycle lib pg g n inp db st = Cycle_Idle db' \<longleftrightarrow>
     \<not> ci_sigterm inp \<and> (\<exists>db1. dequeue (ci_arrange inp) n db = Ok ([], db1) \<and> clean_up pg g (ci_now inp) db1 = Ok db')"
  by (auto simp: worker_cycle_def split: result.splits option.splits prod.splits if_splits)

lemma cycle_Done:
  "worker_cycle lib pg g n inp db st = Cycle_Done db' st' \<longleftrightarrow>
     \<not> ci_sigterm inp \<and> (\<exists>rows db1 out. dequeue (ci_arrange inp) n db = Ok (rows, db1) \<and> rows \<noteq> []
        \<and> run_batch lib (ci_events inp rows) rows st = Some (out, st')
        \<and> store_batch pg g (ci_now inp) out db1 = Ok db')"
  by (auto simp: worker_cycle_def split: result.splits option.splits prod.splits if_splits)

lemma cycle_Stop: "worker_cycle lib pg g n inp db st = Cycle_Stop \<longleftrightarrow> ci_sigterm inp"
  by (auto simp: worker_cycle_def split: result.splits option.splits prod.splits if_splits)

lemma dequeue_none_left:
  assumes "arranges arrange" "dequeue arrange n db = Ok ([], db1)"
  shows "db1 = db"
proof -
  have "db1 = delete_ids {} db" using dequeue_rows(2) [OF assms] by simp
  then show ?thesis by (simp add: delete_ids_def)
qed

lemma cycle_step:
  fixes lib :: "('p, 'f, 'd, 'm) grpc_lib" and st :: "('ch, 'p) proc_state"
  assumes inp: "input_ok lib nets inp" and ok: "db_ok db" and n: "1 \<le> sint n"
    and cut: "cutoff_past (pg_cutoff pg) (guc_ttl g) (ci_now inp)" and go: "\<not> ci_sigterm inp"
    and ne: "call_queue db \<noteq> []" and known: "caches_known lib nets st"
    and fit: "replies_fit lib pg (env_world lib nets :: ('ch, 'p) world) (set (call_queue db))"
  shows "\<exists>db' st'. worker_cycle lib pg g n inp db st = Cycle_Done db' st' \<and> db_ok db'
     \<and> length (call_queue db') = length (call_queue db) - min (nat (sint n)) (length (call_queue db))
     \<and> set (call_queue db') \<subseteq> set (call_queue db)
     \<and> (\<forall>row \<in> set (call_queue db) - set (call_queue db').
          \<exists>r. answers lib (env_world lib nets :: ('ch, 'p) world) row r
          \<and> result_row_of (ci_now inp) r \<in> set (call_results db'))
     \<and> caches_known lib nets st'"
proof -
  have arr: "arranges (ci_arrange inp)" using inp by (simp add: input_ok_def)
  obtain rows db1 where deq: "dequeue (ci_arrange inp) n db = Ok (rows, db1)"
    using n by (auto simp: dequeue_Ok)
  have d: "distinct (map qr_id (call_queue db))" using ok by (simp add: db_ok_def)
  have rows: "rows \<noteq> []" using dequeue_empty [OF arr n d deq] ne by simp
  obtain results st' where run: "run_batch lib (ci_events inp rows) rows st = Some (results, st')"
    using inp by (fastforce simp: input_ok_def)
  have out: "mset (map cr_id results) = mset (map qr_id rows)" using run by (rule run_batch_ids)
  have "nets net" if "Poll t net \<in> set (ci_events inp rows)" for t net
    using that inp unfolding input_ok_def by blast
  then obtain joined where known': "caches_known lib nets st'" and joined: "mset joined = mset rows"
      "list_all2 (answers lib (env_world lib nets :: ('ch, 'p) world)) joined results"
    using run_batch_env [OF run known] by blast
  have split: "mset rows + mset (call_queue db1) = mset (call_queue db)"
    by (rule dequeue_rows(3) [OF arr deq])
  then have sets: "set (call_queue db) = set rows \<union> set (call_queue db1)"
    by (metis set_mset_mset set_mset_union)
  have fits: "\<forall>r \<in> set results. storable (pg_jsonb pg) r"
    by (rule batch_storable [OF replies_fit_subset [OF fit] joined]) (simp add: sets)
  obtain db2 where st: "store_batch pg g (ci_now inp) results db1 = Ok db2" "db_ok db2"
      "call_queue db2 = call_queue db1"
      "\<forall>r \<in> set results. result_row_of (ci_now inp) r \<in> set (call_results db2)"
    using store_batch_dequeued [OF arr ok deq out fits cut] by blast
  have "length rows = min (nat (sint n)) (length (call_queue db))"
    using deq arr by (simp add: dequeue_Ok arranges_length length_batch [OF d])
  moreover have "length rows + length (call_queue db1) = length (call_queue db)"
    using arg_cong [OF split, of size] by simp
  moreover have "\<exists>r. answers lib (env_world lib nets :: ('ch, 'p) world) row r
      \<and> result_row_of (ci_now inp) r \<in> set (call_results db2)"
    if "row \<in> set (call_queue db) - set (call_queue db2)" for row
  proof -
    have "row \<in> set rows" using that sets st(3) by auto
    from own_result [OF joined this] st(4) show ?thesis by blast
  qed
  moreover have "worker_cycle lib pg g n inp db st = Cycle_Done db2 st'"
    using deq rows run st(1) go by (auto simp: cycle_Done)
  ultimately show ?thesis using st(2,3) known' sets by (intro exI [of _ db2] exI [of _ st']) auto
qed

lemma cycle_idle_step:
  assumes inp: "input_ok lib nets inp" and ok: "db_ok db" and n: "1 \<le> sint n"
    and cut: "cutoff_past (pg_cutoff pg) (guc_ttl g) (ci_now inp)" and go: "\<not> ci_sigterm inp"
    and empty: "call_queue db = []"
  shows "\<exists>db'. worker_cycle lib pg g n inp db st = Cycle_Idle db' \<and> db_ok db' \<and> call_queue db' = []"
proof -
  have arr: "arranges (ci_arrange inp)" using inp by (simp add: input_ok_def)
  obtain rows db1 where deq: "dequeue (ci_arrange inp) n db = Ok (rows, db1)"
    using n by (auto simp: dequeue_Ok)
  have "rows = []" using dequeue_empty [OF arr n _ deq] ok empty by (simp add: db_ok_def)
  with deq have deq: "dequeue (ci_arrange inp) n db = Ok ([], db1)" by simp
  then have "db1 = db" by (rule dequeue_none_left [OF arr])
  moreover obtain db' where "clean_up pg g (ci_now inp) db = Ok db'" using clean_up_Ok [OF cut] by blast
  ultimately show ?thesis using deq go clean_up_keeps [of pg g "ci_now inp" db db'] ok empty
    by (auto simp: cycle_Idle)
qed

text \<open>A result stored earlier survives a cycle whose cutoff is not past it.\<close>

lemma cycle_keeps_results:
  assumes "worker_cycle lib pg g n inp db st = Cycle_Done db' st' \<or>
      worker_cycle lib pg g n inp db st = Cycle_Idle db'"
    and "arranges (ci_arrange inp)"
    and "row \<in> set (call_results db)"
    and "\<And>c. pg_cutoff pg (ci_now inp) (guc_ttl g) = Spi_Ok c \<Longrightarrow> c \<le> res_created row"
  shows "row \<in> set (call_results db')"
  using assms
  by (auto simp: cycle_Done cycle_Idle store_batch_def clean_up_def bind_result_Ok insert_results_Ok
      ttl_cleanup_Ok dequeue_Ok delete_ids_def)

section \<open>The drain empties the queue\<close>

text \<open>No cutoff of the drain reaches back to its own cycles.\<close>

definition no_expiry :: "(int \<Rightarrow> string \<Rightarrow> int spi) \<Rightarrow> string \<Rightarrow> int set \<Rightarrow> bool" where
  "no_expiry cutoff ttl moments \<longleftrightarrow> (\<forall>t \<in> moments. \<forall>u \<in> moments. \<forall>c. cutoff t ttl = Spi_Ok c \<longrightarrow> c \<le> u)"

lemma drain_runs:
  fixes lib :: "('p, 'f, 'd, 'm) grpc_lib" and st :: "('ch, 'p) proc_state"
  assumes "\<forall>inp \<in> set inps. input_ok lib nets inp \<and> \<not> ci_sigterm inp \<and> cutoff_past (pg_cutoff pg) (guc_ttl g) (ci_now inp)"
    and "no_expiry (pg_cutoff pg) (guc_ttl g) moments" and "ci_now ` set inps \<subseteq> moments"
    and "db_ok db" and "1 \<le> sint n" and "length (call_queue db) < length inps" and "caches_known lib nets st"
    and "replies_fit lib pg (env_world lib nets :: ('ch, 'p) world) (set (call_queue db))"
  shows "\<exists>db' st'. drain lib pg g n inps db st = Some (Drained, db', st') \<and> db_ok db' \<and> call_queue db' = []
     \<and> (\<forall>row \<in> set (call_queue db). \<exists>now r. answers lib (env_world lib nets :: ('ch, 'p) world) row r
          \<and> result_row_of now r \<in> set (call_results db'))
     \<and> (\<forall>row \<in> set (call_results db). res_created row \<in> moments \<longrightarrow> row \<in> set (call_results db'))"
  using assms
proof (induction inps arbitrary: db st)
  case (Cons inp inps)
  have inp: "input_ok lib nets inp" "\<not> ci_sigterm inp" "cutoff_past (pg_cutoff pg) (guc_ttl g) (ci_now inp)"
    using Cons.prems(1) by auto
  have arr: "arranges (ci_arrange inp)" using inp(1) by (simp add: input_ok_def)
  have now: "ci_now inp \<in> moments" using Cons.prems(3) by simp
  have fresh: "c \<le> res_created row"
    if "pg_cutoff pg (ci_now inp) (guc_ttl g) = Spi_Ok c" "res_created row \<in> moments" for c row
    using that now Cons.prems(2) by (auto simp: no_expiry_def)
  show ?case
  proof (cases "call_queue db = []")
    case True
    obtain db' where idle: "worker_cycle lib pg g n inp db st = Cycle_Idle db'" "db_ok db'" "call_queue db' = []"
      using cycle_idle_step [OF inp(1) Cons.prems(4,5) inp(3,2) True] by blast
    have "row \<in> set (call_results db')" if "row \<in> set (call_results db)" "res_created row \<in> moments" for row
      using cycle_keeps_results [OF disjI2 [OF idle(1)] arr that(1)] fresh that(2) by blast
    with idle True show ?thesis by auto
  next
    case False
    obtain db1 st1 where step: "worker_cycle lib pg g n inp db st = Cycle_Done db1 st1" "db_ok db1"
        "length (call_queue db1) = length (call_queue db) - min (nat (sint n)) (length (call_queue db))"
        "\<forall>row \<in> set (call_queue db) - set (call_queue db1). \<exists>r. answers lib (env_world lib nets :: ('ch, 'p) world) row r
           \<and> result_row_of (ci_now inp) r \<in> set (call_results db1)"
        "caches_known lib nets st1" "set (call_queue db1) \<subseteq> set (call_queue db)"
      using cycle_step [OF inp(1) Cons.prems(4,5) inp(3,2) False Cons.prems(7,8)] by blast
    have "1 \<le> nat (sint n)" using Cons.prems(5) by simp
    moreover have "1 \<le> length (call_queue db)" using False by (cases "call_queue db") auto
    ultimately have "length (call_queue db1) < length (call_queue db)" using step(3) by simp
    then have shorter: "length (call_queue db1) < length inps" using Cons.prems(6) by simp
    obtain db' st' where rest: "drain lib pg g n inps db1 st1 = Some (Drained, db', st')" "db_ok db'"
        "call_queue db' = []"
        "\<forall>row \<in> set (call_queue db1). \<exists>now r. answers lib (env_world lib nets :: ('ch, 'p) world) row r
           \<and> result_row_of now r \<in> set (call_results db')"
        "\<forall>row \<in> set (call_results db1). res_created row \<in> moments \<longrightarrow> row \<in> set (call_results db')"
      using Cons.IH [of db1 st1] Cons.prems step(2,5) shorter replies_fit_subset [OF Cons.prems(8) step(6)] by auto
    have "\<exists>now r. answers lib (env_world lib nets :: ('ch, 'p) world) row r \<and> result_row_of now r \<in> set (call_results db')"
      if "row \<in> set (call_queue db)" for row
    proof (cases "row \<in> set (call_queue db1)")
      case False
      with that step(4) obtain r where "answers lib (env_world lib nets :: ('ch, 'p) world) row r"
          "result_row_of (ci_now inp) r \<in> set (call_results db1)"
        by blast
      with rest(5) now show ?thesis by fastforce
    qed (use rest(4) in blast)
    moreover have "row \<in> set (call_results db')" if "row \<in> set (call_results db)" "res_created row \<in> moments" for row
      using cycle_keeps_results [OF disjI1 [OF step(1)] arr that(1)] fresh that(2) rest(5) by blast
    ultimately show ?thesis using step(1) rest by auto
  qed
qed simp

section \<open>Theorems\<close>

definition sample_input :: "int \<Rightarrow> nat cycle_input" where
  "sample_input now =
     \<lparr>ci_sigterm = False, ci_now = now, ci_arrange = rev, ci_events = round_robin sample_net\<rparr>"

abbreviation sample_nets :: "nat grpc_net \<Rightarrow> bool" where
  "sample_nets \<equiv> (\<lambda>net. net = sample_net)"

lemma round_robin_polls: "Poll t n \<in> set (round_robin net rows) \<Longrightarrow> n = net"
  by (auto simp: round_robin_def Let_def)

lemma sample_input_ok:
  "input_ok sample_lib sample_nets (sample_input now) \<and> \<not> ci_sigterm (sample_input now)"
  using round_robin_polls
  by (fastforce simp: input_ok_def sample_input_def arranges_rev round_robin_finishes simp del: not_None_eq)

definition six_hours :: "int \<Rightarrow> string \<Rightarrow> int spi" where
  "six_hours now ttl = Spi_Ok (now - 21600)"

lemma six_hours_past: "cutoff_past six_hours ttl now"
  by (simp add: cutoff_past_def six_hours_def)

definition sample_pg :: pg_api where
  "sample_pg = \<lparr>pg_cutoff = six_hours, pg_jsonb = sample_jsonb\<rparr>"

lemma sample_replies_fit:
  assumes "\<forall>row \<in> rows. case qr_request row of JString s \<Rightarrow> CHR 0x00 \<notin> set s | _ \<Rightarrow> True"
  shows "replies_fit sample_lib sample_pg (env_world sample_lib sample_nets) rows"
proof -
  have "sample_jsonb v = Ok ()"
    if "row \<in> rows" "reply_of sample_lib (env_world sample_lib sample_nets) (row_args row opts) (Ok v)" for row opts v
    using sample_reply [OF that(2)] assms that(1)
    by (auto simp: env_world_def row_args_def sample_jsonb_def split: json.splits)
  then show ?thesis unfolding replies_fit_def sample_pg_def by auto
qed

text \<open>
  C4: a drain with no SIGTERM ends, drained, after at most one cycle per queued row and one more: the
  queue is empty, no cycle has crashed, and every call that was queued has its own result stored: the
  decoded reply of the network to its own request, sent over a channel dialled for its endpoint and TLS
  settings and encoded with a pool of its service, or an error of its own options or call, its own
  timeout, or a panic.  It takes a \<open>ttl\<close> whose arithmetic does not raise and that does not
  expire the results during the drain, replies that \<open>jsonb\<close> accepts, and batches whose tasks finish.
\<close>

theorem drain_empties_queue:
  fixes lib :: "('p, 'f, 'd, 'm) grpc_lib" and st :: "('ch, 'p) proc_state"
  assumes "\<forall>inp \<in> set inps. input_ok lib nets inp \<and> \<not> ci_sigterm inp \<and> cutoff_past (pg_cutoff pg) (guc_ttl g) (ci_now inp)"
    and "no_expiry (pg_cutoff pg) (guc_ttl g) (ci_now ` set inps)"
    and "replies_fit lib pg (env_world lib nets :: ('ch, 'p) world) (set (call_queue db))"
    and "caches_known lib nets st"
    and "db_ok db" and "batch_size_ok g" and "length (call_queue db) < length inps"
  shows "\<exists>db' st'. drain_pass lib pg g inps db st = Some (Drained, db', st') \<and> db_ok db' \<and> call_queue db' = []
     \<and> (\<forall>row \<in> set (call_queue db). \<exists>now r. answers lib (env_world lib nets :: ('ch, 'p) world) row r
          \<and> result_row_of now r \<in> set (call_results db'))"
  using drain_runs [OF assms(1,2) subset_refl assms(5) _ assms(7,4,3), of "guc_batch_size g"] assms(6)
  by (auto simp: drain_pass_def batch_size_ok_def)

theorem drain_empties_queue_witness:
  "\<exists>db' st'. drain_pass sample_lib sample_pg guc_initial (map sample_input [100, 160, 170, 180]) sample_db
       \<lparr>ps_channels = [], ps_registry = []\<rparr> = Some (Drained, db', st')
     \<and> call_queue db' = []
     \<and> (\<forall>row \<in> set (call_queue sample_db). \<exists>now r. cr_id r = qr_id row
          \<and> (case cr_outcome r of Outcome_Success v \<Rightarrow> v = JString ''{}'' | Outcome_Error m \<Rightarrow> True)
          \<and> result_row_of now r \<in> set (call_results db'))"
proof -
  let ?inps = "map sample_input [100, 160, 170, 180]"
  let ?st = "\<lparr>ps_channels = [] :: nat channels, ps_registry = []\<rparr>"
  let ?W = "env_world sample_lib sample_nets :: (nat, (string \<times> string list) list) world"
  have a: "\<forall>inp \<in> set ?inps. input_ok sample_lib sample_nets inp \<and> \<not> ci_sigterm inp
      \<and> cutoff_past (pg_cutoff sample_pg) (guc_ttl guc_initial) (ci_now inp)"
    using sample_input_ok six_hours_past by (simp add: sample_pg_def)
  have b: "no_expiry (pg_cutoff sample_pg) (guc_ttl guc_initial) (ci_now ` set ?inps)"
    by (simp add: no_expiry_def six_hours_def sample_input_def sample_pg_def)
  have c: "length (call_queue sample_db) < length ?inps" by (simp add: sample_db_def)
  have f: "replies_fit sample_lib sample_pg ?W (set (call_queue sample_db))"
    by (rule sample_replies_fit) (simp add: sample_db_def sample_row_def)
  have own: "cr_id r = qr_id row
      \<and> (case cr_outcome r of Outcome_Success v \<Rightarrow> v = JString ''{}'' | Outcome_Error m \<Rightarrow> True)"
    if "row \<in> set (call_queue sample_db)" "answers sample_lib ?W row r" for row r
    using that
    by (auto simp: answers_def sample_db_def sample_row_def row_args_def env_world_def
        dest!: sample_reply split: call_outcome.splits)
  from drain_empties_queue [OF a b f caches_known_empty sample_db_ok guc_initial_batch_ok c]
  show ?thesis using own by blast
qed

text \<open>
  A \<open>ttl\<close> setting whose interval arithmetic raises an error stops the asynchronous path: every
  cycle runs its calls and then crashes with its transaction undone, so the queue stays as it was
  and no result is ever stored.
\<close>

lemma raising_ttl_blocks_results:
  assumes "pg_cutoff pg (ci_now inp) (guc_ttl g) = Spi_Raise e" and "input_ok lib nets inp" and "\<not> ci_sigterm inp"
    and "db_ok db" and "batch_size_ok g"
  shows "\<exists>msg. drain_pass lib pg g (inp # inps) db st = Some (Crashed (Raised msg), db, st)"
proof -
  have arr: "arranges (ci_arrange inp)" using assms(2) by (simp add: input_ok_def)
  obtain rows db1 where deq: "dequeue (ci_arrange inp) (guc_batch_size g) db = Ok (rows, db1)"
    using assms(5) by (auto simp: dequeue_Ok batch_size_ok_def)
  obtain results st' where run: "run_batch lib (ci_events inp rows) rows st = Some (results, st')"
    using assms(2) by (fastforce simp: input_ok_def)
  have out: "mset (map cr_id results) = mset (map qr_id rows)" using run by (rule run_batch_ids)
  note ids = dequeue_ids [OF arr assms(4) deq] batch_ids_of_rows [OF out]
  then have sub: "cr_id ` set results \<subseteq> queue_ids db" and dist: "distinct (map cr_id results)"
    and db1: "db1 = delete_ids (cr_id ` set results) db" by auto
  have "\<exists>msg. store_batch pg g (ci_now inp) results db1 = Err (Raised msg)"
  proof (cases "insert_results (pg_jsonb pg) results (ci_now inp) db1")
    case (Ok db2)
    with assms(1) show ?thesis by (simp add: store_batch_def clean_up_def ttl_cleanup_def)
  next
    case (Err d)
    have "distinct (map cr_id results) \<and> cr_id ` set results \<inter> result_ids db1 = {}"
      using dist sub assms(4) unfolding db1 db_ok_def by auto
    with insert_results_Err [OF Err] obtain msg where "d = Raised msg" by blast
    with Err show ?thesis by (simp add: store_batch_def)
  qed
  with deq run assms(1,3) show ?thesis
    by (auto simp: drain_pass_def worker_cycle_def clean_up_def ttl_cleanup_def)
qed

text \<open>
  C11: one reply that \<open>jsonb\<close> refuses (a string with \<open>\u0000\<close>, say) costs its whole batch: the calls have run, but
  the transaction is undone and the worker process ends with the error, so no result is stored, not of the
  other calls of the batch either, every call is still queued, and the next worker runs all of them
  again.
\<close>

theorem refused_reply_blocks_batch:
  assumes "\<not> ci_sigterm inp" and "dequeue (ci_arrange inp) (guc_batch_size g) db = Ok (rows, db1)"
    and "run_batch lib (ci_events inp rows) rows st = Some (results, st')"
    and "r \<in> set results" and "cr_outcome r = Outcome_Success v" and "pg_jsonb pg v = Err msg"
  shows "\<exists>e. drain_pass lib pg g (inp # inps) db st = Some (Crashed e, db, st)
     \<and> (\<exists>r' v' msg'. r' \<in> set results \<and> cr_outcome r' = Outcome_Success v' \<and> pg_jsonb pg v' = Err msg' \<and> e = Raised msg')"
proof (cases "insert_results (pg_jsonb pg) results (ci_now inp) db1")
  case (Ok db2)
  with assms(4-6) show ?thesis by (auto simp: insert_results_Ok storable_def)
next
  case (Err e)
  have "\<not> storable (pg_jsonb pg) r" using assms(5,6) by (simp add: storable_def)
  then have refused: "\<exists>r' v' msg'. r' \<in> set results \<and> cr_outcome r' = Outcome_Success v'
      \<and> pg_jsonb pg v' = Err msg' \<and> e = Raised msg'"
    using insert_results_Err [OF Err] assms(4) by blast
  have "rows \<noteq> []" using run_batch_ids [OF assms(3)] assms(4) by auto
  with assms(1-3) Err have "drain_pass lib pg g (inp # inps) db st = Some (Crashed e, db, st)"
    by (simp add: drain_pass_def worker_cycle_def store_batch_def)
  with refused show ?thesis by blast
qed

definition poison_db :: queue_db where
  "poison_db = \<lparr>call_queue = [sample_row 1, (sample_row 2)\<lparr>qr_request := JString [CHR 0x00]\<rparr>], next_id = 3, call_results = []\<rparr>"

theorem refused_reply_blocks_batch_witness:
  "drain_pass sample_lib sample_pg guc_initial [sample_input 100] poison_db \<lparr>ps_channels = [], ps_registry = []\<rparr> =
     Some (Crashed (Raised ''unsupported Unicode escape sequence''), poison_db, \<lparr>ps_channels = [], ps_registry = []\<rparr>)"
proof -
  let ?st = "\<lparr>ps_channels = [] :: nat channels, ps_registry = []\<rparr>"
  let ?bad = "\<lparr>cr_id = 2, cr_outcome = Outcome_Success (JString [CHR 0x00])\<rparr>"
  have deq: "dequeue (ci_arrange (sample_input 100)) (guc_batch_size guc_initial) poison_db
      = Ok (rev (call_queue poison_db), poison_db\<lparr>call_queue := []\<rparr>)"
    by code_simp
  have "map_option fst (run_batch sample_lib (ci_events (sample_input 100) (rev (call_queue poison_db)))
      (rev (call_queue poison_db)) ?st) =
      Some [?bad, \<lparr>cr_id = 1, cr_outcome = Outcome_Success (JString ''{}'')\<rparr>]"
    by code_simp
  then obtain results st' where run: "run_batch sample_lib (ci_events (sample_input 100) (rev (call_queue poison_db)))
      (rev (call_queue poison_db)) ?st = Some (results, st')" and bad: "?bad \<in> set results"
    by auto
  have refused: "pg_jsonb sample_pg v = Err msg \<Longrightarrow> msg = ''unsupported Unicode escape sequence''" for v msg
    by (auto simp: sample_pg_def sample_jsonb_def split: json.splits if_splits)
  have j: "pg_jsonb sample_pg (JString [CHR 0x00]) = Err ''unsupported Unicode escape sequence''"
    by (simp add: sample_pg_def sample_jsonb_def)
  have go: "\<not> ci_sigterm (sample_input 100)" by (simp add: sample_input_def)
  from refused_reply_blocks_batch [where pg = sample_pg and inps = "[]", OF go deq run bad _ j] refused
  show ?thesis by auto
qed

end
