(* ===== verification/Sql_Api.thy ===== *)
theory Sql_Api
  imports Join_Set
begin

text \<open>
  The SQL functions of the extension (\<open>src/src/lib.rs\<close>).  A function is a map from its arguments and
  the state it can reach (the tables, the caches and statics of the backend) to its value and the
  state it leaves, or to the SQL error it raises with \<open>pgrx::error!\<close>, which aborts the statement.
\<close>

section \<open>grpc_call_async\<close>

text \<open>The queue's \<open>INSERT ... RETURNING id\<close>.\<close>

definition insert_call ::
  "string \<Rightarrow> string \<Rightarrow> json \<Rightarrow> json option \<Rightarrow> json option \<Rightarrow> i32 \<Rightarrow> queue_db \<Rightarrow> (i64 \<times> queue_db, sql_error) result" where
  "insert_call endpoint method request metadata options timeout_ms db =
     bind_result (next_call_id db) (\<lambda>(call_id, db1).
     Ok (call_id,
         insert_queue
           [\<lparr>qr_id = call_id, qr_endpoint = endpoint, qr_method = method, qr_request = request,
             qr_metadata = metadata, qr_options = options, qr_timeout_ms = timeout_ms\<rparr>] db1))"

definition raise_grpc :: "'a grpc_result \<Rightarrow> ('a, sql_error) result" where
  "raise_grpc r = map_err (\<lambda>e. Raised (display_error e)) r"

definition parse_options :: "json option \<Rightarrow> options_config grpc_result" where
  "parse_options options = (case options of None \<Rightarrow> Ok default_options | Some v \<Rightarrow> options_parse v)"

definition timeout_of :: "options_config \<Rightarrow> u64" where
  "timeout_of opts = (case opt_timeout_ms opts of None \<Rightarrow> 30000 | Some t \<Rightarrow> t)"

text \<open>The flag \<open>WAKE_CB_ACTIVE\<close> of the backend is the last component of the result.\<close>

definition grpc_call_async ::
  "string \<Rightarrow> string \<Rightarrow> json \<Rightarrow> json option \<Rightarrow> json option \<Rightarrow> queue_db \<Rightarrow> bool
     \<Rightarrow> (i64 \<times> queue_db \<times> bool, sql_error) result" where
  "grpc_call_async endpoint method request metadata options db wake_cb =
     bind_result (raise_grpc (validate_endpoint endpoint)) (\<lambda>_.
     bind_result (raise_grpc (parse_method method)) (\<lambda>_.
     bind_result (raise_grpc (parse_options options)) (\<lambda>opts.
     let timeout_raw = timeout_of opts in
     if i32_max < uint timeout_raw then
       Err (Raised (''options.timeout_ms must be <= '' @ show_int i32_max))
     else
       bind_result (insert_call endpoint method request metadata options (ucast timeout_raw) db)
         (\<lambda>(call_id, db'). Ok (call_id, db', True)))))"

section \<open>grpc_call_result\<close>

text \<open>
  Each round of the loop sees the tables through its own snapshots (one per query of \<open>lookup\<close>); a
  pending cancellation is raised by \<open>check_for_interrupts\<close> after the wait.  The loop need not end, so
  it is a partial function: \<open>None\<close> is "never returns".
\<close>

partial_function (option) poll_result ::
  "i64 \<Rightarrow> (nat \<Rightarrow> queue_db \<times> queue_db) \<Rightarrow> (nat \<Rightarrow> bool) \<Rightarrow> nat \<Rightarrow> (lookup_result, sql_error) result option" where
  "poll_result call_id views interrupted k =
     (let r = lookup call_id (fst (views k)) (snd (views k)) in
      if lr_status r = Pending then
        (if interrupted k then Some (Err (Raised ''canceling statement due to user request''))
         else poll_result call_id views interrupted (Suc k))
      else Some (Ok r))"

type_synonym result_record = "i64 \<times> string \<times> string option \<times> json option"

definition result_record_of :: "lookup_result \<Rightarrow> result_record" where
  "result_record_of r =
     (case lr_status r of
        Pending \<Rightarrow> (lr_id r, ''PENDING'', None, None)
      | Lookup_Success v \<Rightarrow> (lr_id r, ''SUCCESS'', None, Some v)
      | Lookup_Error msg \<Rightarrow> (lr_id r, ''ERROR'', Some msg, None))"

definition grpc_call_result ::
  "i64 \<Rightarrow> bool \<Rightarrow> (nat \<Rightarrow> queue_db \<times> queue_db) \<Rightarrow> (nat \<Rightarrow> bool) \<Rightarrow> (result_record list, sql_error) result option" where
  "grpc_call_result call_id is_async views interrupted =
     map_option (map_ok (\<lambda>r. [result_record_of r]))
       (if \<not> is_async then poll_result call_id views interrupted 0
        else Some (Ok (lookup call_id (fst (views 0)) (snd (views 0)))))"

section \<open>grpc_call\<close>

definition call_args_of :: "string \<Rightarrow> string \<Rightarrow> json \<Rightarrow> json option \<Rightarrow> options_config \<Rightarrow> call_args" where
  "call_args_of endpoint method request metadata opts =
     \<lparr>ca_endpoint = endpoint, ca_method = method, ca_request = request,
      ca_use_reflection = (case opt_use_reflection opts of None \<Rightarrow> True | Some b \<Rightarrow> b),
      ca_metadata = metadata, ca_tls = opt_tls opts,
      ca_max_decode = opt_max_decode opts, ca_max_encode = opt_max_encode opts\<rparr>"

definition grpc_call ::
  "('p, 'f, 'd, 'm) grpc_lib \<Rightarrow> 'ch grpc_net \<Rightarrow> (unit, string) result
     \<Rightarrow> string \<Rightarrow> string \<Rightarrow> json \<Rightarrow> json option \<Rightarrow> json option \<Rightarrow> ('ch, 'p) proc_state
     \<Rightarrow> (json, sql_error) result \<times> ('ch, 'p) proc_state" where
  "grpc_call lib net runtime endpoint method request metadata options st =
     (case parse_options options of
        Err e \<Rightarrow> (raise_grpc (Err e), st)
      | Ok opts \<Rightarrow>
          (case make_grpc_call lib net runtime (call_args_of endpoint method request metadata opts)
                  (timeout_of opts) st of
             (r, st') \<Rightarrow> (raise_grpc r, st')))"

section \<open>Staging and the registry\<close>

definition validate_stage_input :: "string \<Rightarrow> string \<Rightarrow> unit grpc_result" where
  "validate_stage_input filename source =
     (if trim filename = [] then Err (ProtoCompile ''grpc_proto_stage: filename must not be empty'')
      else if trim source = [] then Err (ProtoCompile ''grpc_proto_stage: source must not be empty'')
      else Ok ())"

text \<open>The two maps of a backend a proto function works on.\<close>

record 'p proto_state =
  pr_staging :: staging
  pr_registry :: "'p registry"

definition grpc_proto_stage :: "string \<Rightarrow> string \<Rightarrow> 'p proto_state \<Rightarrow> (unit, sql_error) result \<times> 'p proto_state" where
  "grpc_proto_stage filename source s =
     (case validate_stage_input filename source of
        Ok _ \<Rightarrow> (Ok (), s\<lparr>pr_staging := stage_file filename source (pr_staging s)\<rparr>)
      | Err e \<Rightarrow> (raise_grpc (Err e), s))"

definition grpc_proto_unstage :: "string \<Rightarrow> 'p proto_state \<Rightarrow> bool \<times> 'p proto_state" where
  "grpc_proto_unstage filename s =
     (case staging_remove filename (pr_staging s) of (removed, m) \<Rightarrow> (removed, s\<lparr>pr_staging := m\<rparr>))"

definition grpc_proto_unstage_all :: "'p proto_state \<Rightarrow> 'p proto_state" where
  "grpc_proto_unstage_all s = s\<lparr>pr_staging := staging_clear (pr_staging s)\<rparr>"

text \<open>Registering the services of a compiled pool, in the order of \<open>pool.services()\<close>.\<close>

definition register_service :: "staging \<Rightarrow> 'p \<Rightarrow> 'd service \<Rightarrow> 'p registry \<Rightarrow> 'p registry" where
  "register_service staged pool svc reg =
     (let filename = sv_file svc;
          source = (case hm_get staged filename of None \<Rightarrow> [] | Some src \<Rightarrow> src) in
      insert_proto_manual (sv_full_name svc) pool filename source reg)"

definition grpc_proto_compile ::
  "('p, 'f, 'd) pool_api \<Rightarrow> ('f, 'file, 'cs) protox_api \<Rightarrow> 'p proto_state
     \<Rightarrow> (unit, sql_error) result \<times> 'p proto_state" where
  "grpc_proto_compile api px s =
     (let staged = staging_snapshot (pr_staging s) in
      case compile_proto_files api px staged of
        Ok pool \<Rightarrow>
          (Ok (), s\<lparr>pr_registry := fold (register_service staged pool) (pool_services api pool) (pr_registry s),
                   pr_staging := staging_clear (pr_staging s)\<rparr>)
      | Err e \<Rightarrow> (raise_grpc (Err e), s))"

definition grpc_proto_unregister :: "string \<Rightarrow> 'p proto_state \<Rightarrow> bool \<times> 'p proto_state" where
  "grpc_proto_unregister service_name s =
     (case registry_remove service_name (pr_registry s) of (removed, m) \<Rightarrow> (removed, s\<lparr>pr_registry := m\<rparr>))"

definition grpc_proto_unregister_all :: "'p proto_state \<Rightarrow> 'p proto_state" where
  "grpc_proto_unregister_all s = s\<lparr>pr_registry := registry_clear (pr_registry s)\<rparr>"

definition grpc_proto_list_staged :: "'p proto_state \<Rightarrow> (string \<times> string) list" where
  "grpc_proto_list_staged s = staging_list (pr_staging s)"

type_synonym registered_row = "string \<times> string \<times> string option \<times> string option \<times> string option"

fun registered_row_of :: "string \<times> origin \<Rightarrow> registered_row" where
  "registered_row_of (service_name, User_Staged filename source) =
     (service_name, ''user'', Some filename, Some source, None)"
| "registered_row_of (service_name, Reflection endpoint) =
     (service_name, ''reflection'', None, None, Some endpoint)"

definition grpc_proto_list_registered :: "'p proto_state \<Rightarrow> registered_row list" where
  "grpc_proto_list_registered s = map registered_row_of (registry_list (pr_registry s))"

section \<open>Facts\<close>

lemma raise_grpc_Ok [simp]: "raise_grpc r = Ok x \<longleftrightarrow> r = Ok x"
  by (simp add: raise_grpc_def)

lemma raise_grpc_Err: "raise_grpc r = Err e \<longleftrightarrow> (\<exists>d. r = Err d \<and> e = Raised (display_error d))"
  by (simp add: raise_grpc_def map_err_Err)

text \<open>A timeout that fits an \<open>i32\<close> comes back from the column as it was.\<close>

lemma timeout_roundtrip:
  assumes "uint (t :: u64) \<le> i32_max"
  shows "sint (ucast t :: i32) = uint t" and "scast (ucast t :: i32) = t"
proof -
  have bounds: "0 \<le> uint t" "uint t < 2 ^ 31" using assms by simp_all
  have "(ucast t :: i32) = word_of_int (uint t)" by simp
  then have "sint (ucast t :: i32) = signed_take_bit 31 (uint t)"
    by (simp only: sint_sbintrunc') simp
  also have "- (2 ^ 31) \<le> uint t" using bounds(1) by (rule order_trans [rotated]) simp
  then have "signed_take_bit 31 (uint t) = uint t" using bounds(2) by (rule signed_take_bit_int_eq_self)
  finally show s: "sint (ucast t :: i32) = uint t" .
  have "(scast (ucast t :: i32) :: u64) = word_of_int (sint (ucast t :: i32))" by simp
  with s show "scast (ucast t :: i32) = t" by simp
qed

text \<open>The row an accepted call puts into the queue.\<close>

definition call_row ::
  "i64 \<Rightarrow> string \<Rightarrow> string \<Rightarrow> json \<Rightarrow> json option \<Rightarrow> json option \<Rightarrow> i32 \<Rightarrow> queue_row" where
  "call_row call_id endpoint method request metadata options timeout_ms =
     \<lparr>qr_id = call_id, qr_endpoint = endpoint, qr_method = method, qr_request = request,
      qr_metadata = metadata, qr_options = options, qr_timeout_ms = timeout_ms\<rparr>"

lemma insert_call_Ok:
  "insert_call ep m rq md os t db = Ok (i, db') \<longleftrightarrow>
     (\<exists>db1. next_call_id db = Ok (i, db1) \<and> db' = insert_queue [call_row i ep m rq md os t] db1)"
  by (auto simp: insert_call_def call_row_def result_split)

lemma grpc_call_async_Ok:
  "grpc_call_async ep m rq md os db w = Ok (i, db', w') \<longleftrightarrow>
     w' = True \<and> is_ok (validate_endpoint ep) \<and> is_ok (parse_method m)
     \<and> (\<exists>opts db1. parse_options os = Ok opts \<and> uint (timeout_of opts) \<le> i32_max
          \<and> next_call_id db = Ok (i, db1)
          \<and> db' = insert_queue [call_row i ep m rq md os (ucast (timeout_of opts))] db1)"
  by (auto simp: grpc_call_async_def result_split is_ok_iff Let_def insert_call_Ok not_less
      split: if_splits)

lemma row_options_call_row [simp]: "row_options (call_row i ep m rq md os t) = parse_options os"
  by (simp add: row_options_def call_row_def parse_options_def)

lemma call_row_simps [simp]:
  "qr_id (call_row i ep m rq md os t) = i"
  "row_timeout (call_row i ep m rq md os t) = scast t"
  by (simp_all add: row_timeout_def call_row_def)

lemma row_args_call_row [simp]:
  "row_args (call_row i ep m rq md os t) opts = call_args_of ep m rq md opts"
  by (simp add: row_args_def call_row_def call_args_of_def)

section \<open>Theorems: the asynchronous path\<close>

text \<open>
  C9: \<open>grpc_call_async\<close> accepts a call exactly when the endpoint, the method and the options are valid
  and the timeout fits the \<open>int\<close> column; it then appends one row holding the arguments as given, under the
  next id of the sequence, with the resolved timeout unchanged by the cast, and marks the backend's
  transaction as having something to announce.
\<close>

theorem grpc_call_async_spec:
  "grpc_call_async ep m rq md os db w = Ok (i, db', w') \<longleftrightarrow>
     w' = True
     \<and> (\<exists>h. validate_endpoint ep = Ok h) \<and> (\<exists>s n. parse_method m = Ok (s, n))
     \<and> next_id db \<le> i64_max \<and> i = word_of_int (next_id db)
     \<and> (\<exists>opts t. parse_options os = Ok opts \<and> sint t = uint (timeout_of opts)
          \<and> db' = db\<lparr>next_id := next_id db + 1,
                    call_queue := call_queue db @
                      [\<lparr>qr_id = i, qr_endpoint = ep, qr_method = m, qr_request = rq, qr_metadata = md,
                        qr_options = os, qr_timeout_ms = t\<rparr>]\<rparr>)"
proof -
  have cast: "uint (timeout_of opts) \<le> i32_max \<and> t = ucast (timeout_of opts) \<longleftrightarrow>
      sint (t :: i32) = uint (timeout_of opts)" for opts t
  proof
    assume t: "sint t = uint (timeout_of opts)"
    have "sint t \<le> i32_max" using sint_less [of t] by simp
    with t have le: "uint (timeout_of opts) \<le> i32_max" by simp
    moreover have "sint t = sint (ucast (timeout_of opts) :: i32)"
      using timeout_roundtrip(1) [OF le] t by simp
    then have "t = ucast (timeout_of opts)" by (rule signed_word_eqI)
    ultimately show "uint (timeout_of opts) \<le> i32_max \<and> t = ucast (timeout_of opts)" ..
  qed (use timeout_roundtrip(1) in auto)
  show ?thesis
    unfolding grpc_call_async_Ok is_ok_iff next_call_id_Ok cast [symmetric]
    by (auto simp: insert_queue_def call_row_def)
qed

text \<open>
  An accepted call gets an id no row of either table has, and the tables stay consistent.
\<close>

lemma enqueue_db_ok:
  assumes "db_ok db" and "0 < next_id db" and "grpc_call_async ep m rq md os db w = Ok (i, db', w')"
  shows "db_ok db' \<and> 0 < next_id db' \<and> i \<notin> queue_ids db \<union> result_ids db
     \<and> queue_ids db' = insert i (queue_ids db) \<and> result_ids db' = result_ids db"
proof -
  from assms(3) obtain opts db1 where nxt: "next_call_id db = Ok (i, db1)"
      and db': "db' = insert_queue [call_row i ep m rq md os (ucast (timeout_of opts))] db1"
    by (auto simp: grpc_call_async_Ok)
  have row: "qr_id (call_row i ep m rq md os (ucast (timeout_of opts))) = i" by simp
  have "next_call_id db = Ok (qr_id (call_row i ep m rq md os (ucast (timeout_of opts))), db1)"
    using nxt row by simp
  from db_ok_enqueue [OF assms(1,2) this] row db' nxt assms(2) show ?thesis
    by (auto simp: next_call_id_Ok insert_queue_def queue_ids_def result_ids_def)
qed

definition sample_options :: "json option" where
  "sample_options = Some (JObject [(''timeout_ms'', JNumber (PosInt 5000))])"

lemma sample_enqueue:
  "grpc_call_async ''h:1'' ''pkg.S/M'' (JString ''hello'') None sample_options empty_db False =
     Ok (1, empty_db\<lparr>call_queue := [call_row 1 ''h:1'' ''pkg.S/M'' (JString ''hello'') None sample_options 5000],
                    next_id := 2\<rparr>, True)"
  by code_simp

text \<open>
  C5: queueing a call does not change what it does: an accepted call, run by a worker, has the outcome
  \<open>grpc_call\<close> would have had with the same arguments, network and caches, and leaves the same caches;
  only the wording of an elapsed deadline differs.  In particular the worker never refuses its
  endpoint, method, options or timeout.
\<close>

theorem async_agrees_with_sync:
  assumes "grpc_call_async ep m rq md os db w = Ok (i, db', w')"
    and "row \<in> set (call_queue db')" and "row \<notin> set (call_queue db)"
    and "call_async_row lib net row st = (r, st1)"
    and "grpc_call lib net (Ok ()) ep m rq md os st = (sync, st2)"
  shows "cr_id r = i \<and> st1 = st2 \<and>
     (\<forall>v. cr_outcome r = Outcome_Success v \<longleftrightarrow> sync = Ok v) \<and>
     (\<forall>msg. cr_outcome r = Outcome_Error msg \<longrightarrow>
        sync = Err (Raised msg) \<or>
        (\<exists>t. msg = ''timeout after '' @ show_u64 t @ ''ms'' \<and> sync = Err (Raised (display_error (Timeout t)))))"
proof -
  from assms(1) obtain opts db1 where opts: "parse_options os = Ok opts" "uint (timeout_of opts) \<le> i32_max"
      and db': "db' = insert_queue [call_row i ep m rq md os (ucast (timeout_of opts))] db1"
      and q: "call_queue db1 = call_queue db"
    by (auto simp: grpc_call_async_Ok next_call_id_Ok)
  have row: "row = call_row i ep m rq md os (ucast (timeout_of opts))"
    using assms(2,3) db' q by (auto simp: insert_queue_def)
  have t: "row_timeout row = timeout_of opts"
    using timeout_roundtrip(2) [OF opts(2)] by (simp add: row)
  obtain z s where run: "call_async lib net (call_args_of ep m rq md opts) st = (z, s)" by fastforce
  have r: "r = \<lparr>cr_id = i, cr_outcome = row_outcome (timeout_of opts) z\<rparr>" "st1 = s"
    using assms(4) run t opts(1) unfolding row
    by (simp_all add: call_async_row_def)
  show ?thesis
    using assms(5) opts(1) run r
    by (cases "(timeout_of opts, z)" rule: row_outcome.cases)
       (auto simp: grpc_call_def make_grpc_call_def raise_grpc_def)
qed

theorem async_agrees_with_sync_witness:
  "\<exists>r st1. call_async_row sample_lib sample_net
       (call_row 1 ''h:1'' ''pkg.S/M'' (JString ''hello'') None sample_options 5000)
       \<lparr>ps_channels = [], ps_registry = []\<rparr> = (r, st1)
     \<and> cr_outcome r = Outcome_Success (JString ''hello'')
     \<and> fst (grpc_call sample_lib sample_net (Ok ()) ''h:1'' ''pkg.S/M'' (JString ''hello'') None sample_options
         \<lparr>ps_channels = [], ps_registry = []\<rparr>) = Ok (JString ''hello'')"
proof -
  let ?row = "call_row 1 ''h:1'' ''pkg.S/M'' (JString ''hello'') None sample_options 5000"
  let ?st = "\<lparr>ps_channels = [] :: nat channels, ps_registry = []\<rparr>"
  let ?db = "empty_db\<lparr>call_queue := [?row], next_id := 2\<rparr>"
  obtain r st1 where r: "call_async_row sample_lib sample_net ?row ?st = (r, st1)" by fastforce
  obtain sync st2 where sync: "grpc_call sample_lib sample_net (Ok ()) ''h:1'' ''pkg.S/M'' (JString ''hello'')
      None sample_options ?st = (sync, st2)" by fastforce
  have "cr_outcome (fst (call_async_row sample_lib sample_net ?row ?st)) = Outcome_Success (JString ''hello'')"
    by code_simp
  then have out: "cr_outcome r = Outcome_Success (JString ''hello'')" by (simp add: r)
  have "?row \<in> set (call_queue ?db)" "?row \<notin> set (call_queue empty_db)" by (simp_all add: empty_db_def)
  from async_agrees_with_sync [OF sample_enqueue this r sync] out r sync show ?thesis by auto
qed

section \<open>Theorems: waiting for a result\<close>

text \<open>The loop stops at the first round that does not find the call pending, or is interrupted.\<close>

definition pending_at :: "i64 \<Rightarrow> (nat \<Rightarrow> queue_db \<times> queue_db) \<Rightarrow> nat \<Rightarrow> bool" where
  "pending_at i views k \<longleftrightarrow> lr_status (lookup i (fst (views k)) (snd (views k))) = Pending"

definition stops_at :: "i64 \<Rightarrow> (nat \<Rightarrow> queue_db \<times> queue_db) \<Rightarrow> (nat \<Rightarrow> bool) \<Rightarrow> nat \<Rightarrow> (lookup_result, sql_error) result \<Rightarrow> nat \<Rightarrow> bool" where
  "stops_at i views intr k res n \<longleftrightarrow>
     k \<le> n \<and> (\<forall>j. k \<le> j \<and> j < n \<longrightarrow> pending_at i views j \<and> \<not> intr j)
     \<and> (if pending_at i views n then intr n \<and> (\<exists>e. res = Err e)
        else res = Ok (lookup i (fst (views n)) (snd (views n))))"

lemma stops_at_Suc:
  assumes "stops_at i views intr (Suc k) res n" and "pending_at i views k" "\<not> intr k"
  shows "stops_at i views intr k res n"
proof -
  have "pending_at i views j \<and> \<not> intr j" if "k \<le> j" "j < n" for j
    using that assms by (cases "j = k") (auto simp: stops_at_def)
  with assms show ?thesis by (auto simp: stops_at_def)
qed

lemma poll_result_stops:
  assumes ret: "poll_result i views intr k = Some res"
  shows "\<exists>n. stops_at i views intr k res n"
proof (rule poll_result.raw_induct [where P = "\<lambda>i views intr k res. \<exists>n. stops_at i views intr k res n", OF _ ret])
  fix poll i views intr k res
  assume IH: "\<And>i views intr k res. poll i views intr k = Some res \<Longrightarrow> \<exists>n. stops_at i views intr k res n"
    and eq: "(let r = lookup i (fst (views k)) (snd (views k)) in
      if lr_status r = Pending then
        (if intr k then Some (Err (Raised ''canceling statement due to user request''))
         else poll i views intr (Suc k))
      else Some (Ok r)) = Some res"
  show "\<exists>n. stops_at i views intr k res n"
  proof (cases "pending_at i views k \<and> \<not> intr k")
    case True
    with eq have "poll i views intr (Suc k) = Some res" by (simp add: pending_at_def Let_def)
    with IH True show ?thesis using stops_at_Suc by blast
  next
    case False
    with eq have "stops_at i views intr k res k"
      by (auto simp: stops_at_def pending_at_def Let_def split: if_splits)
    then show ?thesis ..
  qed
qed

lemma poll_result_reaches:
  "\<forall>j. k \<le> j \<and> j < k + d \<longrightarrow> pending_at i views j \<and> \<not> intr j \<Longrightarrow>
     \<not> pending_at i views (k + d) \<or> intr (k + d) \<Longrightarrow>
     \<exists>res. poll_result i views intr k = Some res"
proof (induction d arbitrary: k)
  case 0
  then show ?case by (subst poll_result.simps) (auto simp: pending_at_def Let_def)
next
  case (Suc d)
  have "\<exists>res. poll_result i views intr (Suc k) = Some res"
    using Suc.prems by (intro Suc.IH) auto
  moreover have "pending_at i views k \<and> \<not> intr k" using Suc.prems(1) by auto
  ultimately show ?case by (subst poll_result.simps) (auto simp: pending_at_def Let_def)
qed

lemma poll_result_None:
  "poll_result i views intr 0 = None \<longleftrightarrow> (\<forall>n. pending_at i views n \<and> \<not> intr n)"
proof
  assume none: "poll_result i views intr 0 = None"
  show "\<forall>n. pending_at i views n \<and> \<not> intr n"
  proof
    fix n
    show "pending_at i views n \<and> \<not> intr n"
    proof (induction n rule: less_induct)
      case (less n)
      with poll_result_reaches [of 0 n i views intr] none show ?case by auto
    qed
  qed
next
  assume always: "\<forall>n. pending_at i views n \<and> \<not> intr n"
  show "poll_result i views intr 0 = None"
  proof (cases "poll_result i views intr 0")
    case (Some res)
    from poll_result_stops [OF this] obtain n where "stops_at i views intr 0 res n" by blast
    with always show ?thesis by (auto simp: stops_at_def)
  qed simp
qed

lemma poll_result_Ok:
  "poll_result i views intr 0 = Some (Ok r) \<longleftrightarrow>
     (\<exists>n. (\<forall>j < n. pending_at i views j \<and> \<not> intr j) \<and> \<not> pending_at i views n
        \<and> r = lookup i (fst (views n)) (snd (views n)))"
    (is "?L \<longleftrightarrow> ?R")
proof
  assume ?L
  from poll_result_stops [OF this] show ?R by (auto simp: stops_at_def split: if_splits)
next
  assume ?R
  then obtain n where n: "\<forall>j < n. pending_at i views j \<and> \<not> intr j" "\<not> pending_at i views n"
      "r = lookup i (fst (views n)) (snd (views n))" by blast
  then obtain res where res: "poll_result i views intr 0 = Some res"
    using poll_result_reaches [of 0 n i views intr] by auto
  from poll_result_stops [OF this] obtain m where m: "\<forall>j < m. pending_at i views j \<and> \<not> intr j"
      "if pending_at i views m then intr m \<and> (\<exists>e. res = Err e)
       else res = Ok (lookup i (fst (views m)) (snd (views m)))" by (auto simp: stops_at_def)
  have "m = n"
    using n(1,2) m by (cases m n rule: linorder_cases) (auto split: if_splits)
  with n m res show ?L by simp
qed

text \<open>
  C18: with \<open>async => false\<close> the function returns exactly when some round does not find the call pending
  or is interrupted; what it returns is the state of the call at the first such round, and never
  \<open>PENDING\<close>.  If every round sees the call pending (as when all rounds share one snapshot taken
  while it was queued) it never returns.
\<close>

theorem grpc_call_result_waits:
  "(grpc_call_result i False views intr = None \<longleftrightarrow> (\<forall>n. pending_at i views n \<and> \<not> intr n)) \<and>
   (grpc_call_result i False views intr = Some (Ok rows) \<longleftrightarrow>
      (\<exists>n. (\<forall>j < n. pending_at i views j \<and> \<not> intr j) \<and> \<not> pending_at i views n
         \<and> rows = [result_record_of (lookup i (fst (views n)) (snd (views n)))]
         \<and> fst (snd (hd rows)) \<in> {''SUCCESS'', ''ERROR''}))"
proof -
  have status: "\<not> pending_at i views n \<Longrightarrow>
      fst (snd (result_record_of (lookup i (fst (views n)) (snd (views n))))) \<in> {''SUCCESS'', ''ERROR''}" for n
    by (auto simp: pending_at_def result_record_of_def split: lookup_status.splits)
  have "grpc_call_result i False views intr = Some (Ok rows) \<longleftrightarrow>
      (\<exists>r. poll_result i views intr 0 = Some (Ok r) \<and> rows = [result_record_of r])"
    by (auto simp: grpc_call_result_def map_ok_Ok)
  also have "\<dots> \<longleftrightarrow> (\<exists>n. (\<forall>j < n. pending_at i views j \<and> \<not> intr j) \<and> \<not> pending_at i views n
      \<and> rows = [result_record_of (lookup i (fst (views n)) (snd (views n)))])"
    unfolding poll_result_Ok by blast
  also have "\<dots> \<longleftrightarrow> (\<exists>n. (\<forall>j < n. pending_at i views j \<and> \<not> intr j) \<and> \<not> pending_at i views n
      \<and> rows = [result_record_of (lookup i (fst (views n)) (snd (views n)))]
      \<and> fst (snd (hd rows)) \<in> {''SUCCESS'', ''ERROR''})"
    using status by (metis list.sel(1))
  finally show ?thesis by (simp add: grpc_call_result_def poll_result_None)
qed

text \<open>A call that is queued in the first round and has its result in the second.\<close>

definition sample_views :: "nat \<Rightarrow> queue_db \<times> queue_db" where
  "sample_views k =
     (let queued = empty_db\<lparr>call_queue := [sample_row 7]\<rparr>;
          stored = empty_db\<lparr>call_results := [result_row_of 5 \<lparr>cr_id = 7, cr_outcome = Outcome_Error ''boom''\<rparr>]\<rparr>
      in if k = 0 then (queued, queued) else (stored, stored))"

theorem grpc_call_result_waits_witness:
  "grpc_call_result 7 False sample_views (\<lambda>_. False) = Some (Ok [(7, ''ERROR'', Some ''boom'', None)])"
proof -
  have first: "pending_at 7 sample_views 0"
    by (simp add: pending_at_def sample_views_def Let_def lookup_def empty_db_def sample_row_def)
  have second: "lookup 7 (fst (sample_views 1)) (snd (sample_views 1)) = \<lparr>lr_id = 7, lr_status = Lookup_Error ''boom''\<rparr>"
    by (simp add: sample_views_def Let_def lookup_def empty_db_def result_row_of_def lookup_status_of_def)
  have "(\<forall>j < 1. pending_at 7 sample_views j \<and> \<not> False) \<and> \<not> pending_at 7 sample_views 1"
    using first second by (simp add: pending_at_def)
  with second show ?thesis
    by (intro grpc_call_result_waits [THEN conjunct2, THEN iffD2] exI [of _ 1])
       (simp add: result_record_of_def)
qed

section \<open>Theorems: staging and the registry\<close>

definition service_entry :: "staging \<Rightarrow> 'p \<Rightarrow> 'd service \<Rightarrow> string \<times> 'p registered_service" where
  "service_entry staged pool svc =
     (sv_full_name svc,
      Registered pool (User_Staged (sv_file svc)
        (case hm_get staged (sv_file svc) of None \<Rightarrow> [] | Some src \<Rightarrow> src)))"

definition sample_proto_state :: "(string \<times> string list) list proto_state" where
  "sample_proto_state =
     \<lparr>pr_staging = [(''a.proto'', ''pkg.A'')],
      pr_registry = [(''pkg.R'', Registered [] (Reflection ''h:1''))]\<rparr>"

lemma register_services:
  "fold (register_service staged pool) svcs reg =
     fold (\<lambda>(k, v). registry_put k v) (map (service_entry staged pool) svcs) reg"
  by (induction svcs arbitrary: reg) (simp_all add: register_service_def service_entry_def Let_def)

lemma map_of_entries:
  "map_of (map (service_entry staged pool) svcs) name =
     map_option (\<lambda>svc. snd (service_entry staged pool svc)) (find (\<lambda>svc. sv_full_name svc = name) svcs)"
  by (induction svcs) (auto simp: service_entry_def)

lemma map_of_service_entries:
  "map_of (rev (map (service_entry staged pool) svcs)) name =
     map_option (\<lambda>svc. snd (service_entry staged pool svc))
       (find (\<lambda>svc. sv_full_name svc = name) (rev svcs))"
  unfolding rev_map by (rule map_of_entries)

text \<open>
  C19: \<open>grpc_proto_compile\<close> is all or nothing.  When it fails, with a compile error, staging area and
  registry are as before.  When it succeeds, the staging area is empty, every service of the
  compiled pool resolves to that pool, listed as a user's service with the source staged under the
  file that defines it, and every other service keeps its entry.
\<close>

theorem grpc_proto_compile_all_or_nothing:
  "case grpc_proto_compile api px s of
     (Err e, s') \<Rightarrow> s' = s \<and> (\<exists>d. e = Raised (''Proto compile error: '' @ d))
   | (Ok _, s') \<Rightarrow>
       \<exists>pool. compile_proto_files api px (pr_staging s) = Ok pool \<and> pr_staging s' = []
         \<and> (\<forall>svc \<in> set (pool_services api pool). \<exists>svc' \<in> set (pool_services api pool).
              sv_full_name svc' = sv_full_name svc
              \<and> hm_get (pr_registry s') (sv_full_name svc) = Some (snd (service_entry (pr_staging s) pool svc')))
         \<and> (\<forall>name. name \<notin> sv_full_name ` set (pool_services api pool) \<longrightarrow>
              hm_get (pr_registry s') name = hm_get (pr_registry s) name)"
proof (cases "compile_proto_files api px (pr_staging s)")
  case (Err e)
  then obtain d where "e = ProtoCompile d" by (auto dest: compile_proto_files_Err)
  with Err show ?thesis
    by (simp add: grpc_proto_compile_def staging_snapshot_def raise_grpc_def)
next
  case (Ok pool)
  let ?svcs = "pool_services api pool"
  let ?reg = "fold (register_service (pr_staging s) pool) ?svcs (pr_registry s)"
  have get: "hm_get ?reg name =
      (case find (\<lambda>svc. sv_full_name svc = name) (rev ?svcs) of
         Some svc \<Rightarrow> Some (snd (service_entry (pr_staging s) pool svc))
       | None \<Rightarrow> hm_get (pr_registry s) name)" for name
    unfolding register_services registered.get_put_all map_of_service_entries
    by (simp split: option.splits)
  have "\<exists>svc' \<in> set ?svcs. sv_full_name svc' = sv_full_name svc
      \<and> hm_get ?reg (sv_full_name svc) = Some (snd (service_entry (pr_staging s) pool svc'))"
    if "svc \<in> set ?svcs" for svc
  proof (cases "find (\<lambda>v. sv_full_name v = sv_full_name svc) (rev ?svcs)")
    case None
    with that show ?thesis by (auto simp: find_None_iff)
  next
    case (Some svc')
    then have "svc' \<in> set ?svcs" "sv_full_name svc' = sv_full_name svc"
      by (auto dest: find_Some_in)
    with Some show ?thesis by (auto simp: get)
  qed
  moreover have "hm_get ?reg name = hm_get (pr_registry s) name"
    if "name \<notin> sv_full_name ` set ?svcs" for name
  proof -
    from that have "find (\<lambda>svc. sv_full_name svc = name) (rev ?svcs) = None"
      by (auto simp: find_None_iff)
    then show ?thesis by (simp add: get)
  qed
  ultimately show ?thesis using Ok
    by (simp add: grpc_proto_compile_def staging_snapshot_def staging_clear_def)
qed

theorem grpc_proto_compile_all_or_nothing_witness:
  "\<exists>pool s'. grpc_proto_compile sample_pool sample_protox sample_proto_state = (Ok (), s')
     \<and> compile_proto_files sample_pool sample_protox (pr_staging sample_proto_state) = Ok pool
     \<and> pr_staging s' = []
     \<and> hm_get (pr_registry s') ''pkg.A'' = Some (Registered pool (User_Staged ''a.proto'' ''pkg.A''))
     \<and> hm_get (pr_registry s') ''pkg.R'' = hm_get (pr_registry sample_proto_state) ''pkg.R''"
proof -
  let ?pool = "[(''a.proto'', [''pkg.A'']), (''any.proto'', [])]"
  have pool: "compile_proto_files sample_pool sample_protox (pr_staging sample_proto_state) = Ok ?pool"
    by code_simp
  obtain s' where run: "grpc_proto_compile sample_pool sample_protox sample_proto_state = (Ok (), s')"
    using pool by (auto simp: grpc_proto_compile_def staging_snapshot_def Let_def)
  have svcs: "pool_services sample_pool ?pool =
      [\<lparr>sv_full_name = ''pkg.A'', sv_file = ''a.proto'', sv_methods = [\<lparr>m_name = ''M'', m_input = 0, m_output = 1\<rparr>]\<rparr>]"
    by (simp add: sample_pool_def Let_def)
  show ?thesis
    using grpc_proto_compile_all_or_nothing [of sample_pool sample_protox sample_proto_state] run pool
    by (auto simp: svcs service_entry_def sample_proto_state_def)
qed

text \<open>
  C6: \<open>grpc_proto_list_registered\<close> shows the registry: one row per registered service, a user row with
  its file and source, a reflection row with its endpoint, and nothing else.
\<close>

theorem list_registered_spec:
  assumes "hm_wf (pr_registry s)"
  shows "distinct (map fst (grpc_proto_list_registered s)) \<and>
     (\<forall>name kind fname source endpoint.
        (name, kind, fname, source, endpoint) \<in> set (grpc_proto_list_registered s) \<longleftrightarrow>
          (\<exists>r. hm_get (pr_registry s) name = Some r
             \<and> (kind = ''user'' \<and> endpoint = None
                  \<and> (\<exists>f t. svc_origin r = User_Staged f t \<and> fname = Some f \<and> source = Some t)
                \<or> kind = ''reflection'' \<and> fname = None \<and> source = None
                  \<and> (\<exists>ep. svc_origin r = Reflection ep \<and> endpoint = Some ep))))"
proof -
  let ?get = "\<lambda>name. map_option svc_origin (hm_get (pr_registry s) name)"
  have "fst (registered_row_of e) = fst e" for e
    by (cases e rule: registered_row_of.cases) simp_all
  then have "map fst (grpc_proto_list_registered s) = map fst (registry_list (pr_registry s))"
    by (simp add: grpc_proto_list_registered_def)
  then have dist: "distinct (map fst (grpc_proto_list_registered s))"
    using listed.entries_distinct [OF assms] by simp
  have rows: "row \<in> set (grpc_proto_list_registered s) \<longleftrightarrow>
      (\<exists>name org. (name, org) \<in> set (registry_list (pr_registry s)) \<and> row = registered_row_of (name, org))" for row
    by (auto simp: grpc_proto_list_registered_def)
  have row: "(name, kind, fname, source, endpoint) = registered_row_of (name', org) \<longleftrightarrow> name' = name \<and>
      (kind = ''user'' \<and> endpoint = None \<and> (\<exists>f t. org = User_Staged f t \<and> fname = Some f \<and> source = Some t)
       \<or> kind = ''reflection'' \<and> fname = None \<and> source = None \<and> (\<exists>ep. org = Reflection ep \<and> endpoint = Some ep))"
    for name name' kind fname source endpoint org
    by (cases org) auto
  have "(name, kind, fname, source, endpoint) \<in> set (grpc_proto_list_registered s) \<longleftrightarrow>
      (\<exists>r. hm_get (pr_registry s) name = Some r
         \<and> (kind = ''user'' \<and> endpoint = None
              \<and> (\<exists>f t. svc_origin r = User_Staged f t \<and> fname = Some f \<and> source = Some t)
            \<or> kind = ''reflection'' \<and> fname = None \<and> source = None
              \<and> (\<exists>ep. svc_origin r = Reflection ep \<and> endpoint = Some ep)))"
    for name kind fname source endpoint
    unfolding rows row listed.entries_get [OF assms] map_option_eq_Some by blast
  with dist show ?thesis by blast
qed

theorem list_registered_spec_witness:
  "(''pkg.R'', ''reflection'', None, None, Some ''h:1'') \<in> set (grpc_proto_list_registered sample_proto_state)"
proof -
  have w: "hm_wf (pr_registry sample_proto_state)" by (simp add: sample_proto_state_def hm_wf_def)
  show ?thesis
    using list_registered_spec [OF w] by (simp add: sample_proto_state_def)
qed

text \<open>
  C35: the staging area as a session sees it: a stage is refused only for a blank name or source and
  then changes nothing; an accepted one makes the list show exactly the old files with this one
  put in place of any of the same name; an unstage reports whether the file was there and leaves
  the others.
\<close>

theorem staging_session:
  assumes "hm_wf (pr_staging s)"
  shows "(grpc_proto_stage f src s =
            (if trim f = [] \<or> trim src = [] then (Err (Raised (''Proto compile error: grpc_proto_stage: '' @
                (if trim f = [] then ''filename'' else ''source'') @ '' must not be empty'')), s)
             else (Ok (), snd (grpc_proto_stage f src s))))
     \<and> (trim f \<noteq> [] \<and> trim src \<noteq> [] \<longrightarrow>
          (\<forall>g t. (g, t) \<in> set (grpc_proto_list_staged (snd (grpc_proto_stage f src s))) \<longleftrightarrow>
            (if g = f then t = src else (g, t) \<in> set (grpc_proto_list_staged s))))
     \<and> (fst (grpc_proto_unstage f s) \<longleftrightarrow> (\<exists>t. (f, t) \<in> set (grpc_proto_list_staged s)))
     \<and> (\<forall>g t. (g, t) \<in> set (grpc_proto_list_staged (snd (grpc_proto_unstage f s))) \<longleftrightarrow>
          g \<noteq> f \<and> (g, t) \<in> set (grpc_proto_list_staged s))"
proof -
  note wf = assms staged.wf_put [OF assms] staged.wf_del [OF assms]
  note facts = wf [THEN staged.entries_get]
  have put: "trim f \<noteq> [] \<Longrightarrow> trim src \<noteq> [] \<Longrightarrow>
      grpc_proto_stage f src s = (Ok (), s\<lparr>pr_staging := stage_file f src (pr_staging s)\<rparr>)"
    by (simp add: grpc_proto_stage_def validate_stage_input_def)
  have "grpc_proto_unstage f s = (hm_get (pr_staging s) f \<noteq> None,
      s\<lparr>pr_staging := snd (staging_remove f (pr_staging s))\<rparr>)"
    by (simp add: grpc_proto_unstage_def staging_remove_def)
  then show ?thesis
    using put
    by (auto simp: grpc_proto_list_staged_def facts staged.get_put staged.get_del
        grpc_proto_stage_def validate_stage_input_def raise_grpc_def)
qed

theorem staging_session_witness:
  "(''a.proto'', ''new'') \<in> set (grpc_proto_list_staged (snd (grpc_proto_stage ''a.proto'' ''new'' sample_proto_state)))
   \<and> fst (grpc_proto_unstage ''a.proto'' sample_proto_state)"
proof -
  have w: "hm_wf (pr_staging sample_proto_state)" by (simp add: sample_proto_state_def hm_wf_def)
  have t: "trim ''a.proto'' \<noteq> [] \<and> trim ''new'' \<noteq> []" by code_simp
  have m: "\<exists>t. (''a.proto'', t) \<in> set (grpc_proto_list_staged sample_proto_state)"
    by (auto simp: grpc_proto_list_staged_def sample_proto_state_def staging_list_def)
  note session = staging_session [OF w, of "''a.proto''" "''new''", THEN conjunct2]
  have "(''a.proto'', ''new'') \<in> set (grpc_proto_list_staged (snd (grpc_proto_stage ''a.proto'' ''new'' sample_proto_state)))
      \<longleftrightarrow> (if ''a.proto'' = ''a.proto'' then ''new'' = ''new'' else
           (''a.proto'', ''new'') \<in> set (grpc_proto_list_staged sample_proto_state))"
    by (rule session [THEN conjunct1, rule_format, OF t])
  moreover have "fst (grpc_proto_unstage ''a.proto'' sample_proto_state)"
    using session [THEN conjunct2, THEN conjunct1] m by (rule iffD2)
  ultimately show ?thesis by (simp only: simp_thms if_True refl)
qed

text \<open>
  Enqueueing is not "the same rules as the sync path": a timeout past \<open>i32::MAX\<close> passes the options
  parser, and with it \<open>grpc_call\<close>, but not \<open>grpc_call_async\<close>.
\<close>

lemma async_timeout_stricter:
  "\<exists>options. is_ok (parse_options options)
     \<and> grpc_call_async ''h:1'' ''pkg.S/M'' JNull None options empty_db False
       = Err (Raised (''options.timeout_ms must be <= '' @ show_int i32_max))"
proof -
  let ?options = "Some (JObject [(''timeout_ms'', JNumber (PosInt 3000000000))])"
  have parse: "parse_options ?options = Ok (default_options\<lparr>opt_timeout_ms := Some 3000000000\<rparr>)"
    by code_simp
  have "validate_endpoint ''h:1'' = Ok ''h:1''" "parse_method ''pkg.S/M'' = Ok (''pkg.S'', ''M'')"
    by code_simp+
  with parse have "grpc_call_async ''h:1'' ''pkg.S/M'' JNull None ?options empty_db False
      = Err (Raised (''options.timeout_ms must be <= '' @ show_int i32_max))"
    by (simp add: grpc_call_async_def raise_grpc_def timeout_of_def)
  with parse show ?thesis by (intro exI [of _ ?options]) simp
qed

end
