(* ===== verification/Wake.thy ===== *)
theory Wake
  imports Worker Sql_Api
begin

text \<open>
  The whole asynchronous path as interleaved processes: backends that enqueue, commit and signal
  (\<open>src/src/lib.rs\<close>), the shared memory between them (\<open>src/src/shmem.rs\<close>), and the background worker
  with its restarts (\<open>src/src/worker.rs\<close>).  A step is one access to shared state; the tables change when a
  transaction commits.  What PostgreSQL and pgrx decide is in \<open>wake_env\<close>.
\<close>

section \<open>The commit callback and the shared latch\<close>

datatype xact_event =
    Xact_Commit | Xact_Parallel_Commit | Xact_Abort | Xact_Parallel_Abort
  | Xact_Prepare | Xact_Pre_Commit | Xact_Parallel_Pre_Commit | Xact_Pre_Prepare

text \<open>
  The callback, from \<open>WAKE_CB_ACTIVE\<close> and \<open>should_wake\<close> to their new values and whether it goes on to
  \<open>set_latch\<close>.
\<close>

definition wake_worker_on_commit :: "xact_event \<Rightarrow> bool \<Rightarrow> bool \<Rightarrow> bool \<times> bool \<times> bool" where
  "wake_worker_on_commit event wake_cb should_wake =
     (if event = Xact_Commit \<or> event = Xact_Parallel_Commit then
        (if wake_cb then (False, True, True) else (False, should_wake, False))
      else if event = Xact_Abort \<or> event = Xact_Parallel_Abort then (False, should_wake, False)
      else (wake_cb, should_wake, False))"

text \<open>
  What \<open>_PG_init\<close> registers with PostgreSQL: the settings, the transaction callback, and the worker, which
  starts when recovery has finished and is started again one second after it dies.
\<close>

datatype bgw_start_time = Postmaster_Start | Consistent_State | Recovery_Finished

record bgworker =
  bw_name :: string
  bw_function :: string
  bw_library :: string
  bw_shmem_access :: bool
  bw_spi_access :: bool
  bw_start_time :: bgw_start_time
  bw_restart_secs :: "nat option"

record extension_setup =
  xs_settings :: "guc_def list"
  xs_xact_callback :: "xact_event \<Rightarrow> bool \<Rightarrow> bool \<Rightarrow> bool \<times> bool \<times> bool"
  xs_worker :: bgworker

definition PG_init :: extension_setup where
  "PG_init =
     \<lparr>xs_settings = guc_init,
      xs_xact_callback = wake_worker_on_commit,
      xs_worker =
        \<lparr>bw_name = ''pg_grpc async worker'', bw_function = ''grpc_async_worker'', bw_library = ''pg_grpc'',
         bw_shmem_access = True, bw_spi_access = True, bw_start_time = Recovery_Finished,
         bw_restart_secs = Some 1\<rparr>\<rparr>"

text \<open>A worker process that has died is replaced if the registration sets a restart time.\<close>

definition restarts :: "bgworker \<Rightarrow> bool" where
  "restarts w \<longleftrightarrow> bw_restart_secs w \<noteq> None"

lemma PG_init_simps [simp]:
  "xs_xact_callback PG_init = wake_worker_on_commit"
  "restarts (xs_worker PG_init)"
  by (simp_all add: PG_init_def restarts_def)

text \<open>Where a backend stands: in a transaction, in the callback, or between the accesses of \<open>set_latch\<close>.\<close>

datatype be_phase = Be_Running | Be_Callback | Be_Read_Latch | Be_Set_Latch nat

record backend =
  be_rows :: "queue_row list"
  be_wake :: bool
  be_phase :: be_phase

text \<open>The two writers of the shared pointer; a step is one locked access.\<close>

definition store_latch :: "nat \<Rightarrow> nat \<Rightarrow> nat" where
  [simp]: "store_latch latch ptr = latch"

definition clear_latch :: "nat \<Rightarrow> nat" where
  [simp]: "clear_latch ptr = 0"

text \<open>\<open>set_latch\<close> reads the pointer under the lock and uses it after releasing the lock.\<close>

definition read_latch :: "nat \<Rightarrow> be_phase" where
  "read_latch ptr = (if ptr \<noteq> 0 then Be_Set_Latch ptr else Be_Running)"

section \<open>The worker's control points\<close>

datatype worker_pc =
    W_Dead
  | W_Start
  | W_Connecting
  | W_Waiting
  | W_Woken
  | W_Drain i32
  | W_Batch i32 "queue_row list"
  | W_Cleaning
  | W_Exit_Hook bool
  | W_Exit_Clear bool
  | W_Stopped

text \<open>The process owns its PGPROC slot, and with it its latch, until the exit callbacks run.\<close>

fun owns_latch :: "worker_pc \<Rightarrow> bool" where
  "owns_latch W_Start = True"
| "owns_latch W_Connecting = True"
| "owns_latch W_Waiting = True"
| "owns_latch W_Woken = True"
| "owns_latch (W_Drain n) = True"
| "owns_latch (W_Batch n rows) = True"
| "owns_latch W_Cleaning = True"
| "owns_latch _ = False"

text \<open>The latch is published and the exit hook registered.\<close>

fun published :: "worker_pc \<Rightarrow> bool" where
  "published W_Waiting = True"
| "published W_Woken = True"
| "published (W_Drain n) = True"
| "published (W_Batch n rows) = True"
| "published W_Cleaning = True"
| "published _ = False"

text \<open>The worker will still look at the queue; and it is in a transaction of a drain.\<close>

fun draining :: "worker_pc \<Rightarrow> bool" where
  "draining (W_Drain n) = True"
| "draining (W_Batch n rows) = True"
| "draining _ = False"

fun in_drain :: "worker_pc \<Rightarrow> bool" where
  "in_drain (W_Drain n) = True"
| "in_drain (W_Batch n rows) = True"
| "in_drain W_Cleaning = True"
| "in_drain _ = False"

record ('ch, 'p) system =
  sy_db :: queue_db
  sy_prepared :: "queue_row list list"
  sy_backends :: "nat \<Rightarrow> backend"
  sy_should_wake :: bool
  sy_latch_ptr :: nat
  sy_worker :: worker_pc
  sy_slot :: nat
  sy_latch :: bool
  sy_sigterm :: bool
  sy_guc :: guc_state
  sy_caches :: "('ch, 'p) proc_state"

text \<open>
  \<open>we_latch_at_start\<close>: a new process finds its latch set when it reaches its first wait, as PostgreSQL
  sets it when the process takes its slot.  \<open>we_two_phase\<close>: prepared transactions are enabled.
  \<open>we_sigterm_clears\<close>: asking pgrx whether SIGTERM was received clears the answer.  \<open>we_lock_waits\<close>: the
  statements of a drain may have to wait for locks, and PostgreSQL waits for a lock on the latch of the
  process, which it resets.  \<open>we_pg\<close>: the interval arithmetic of the clean-up and the conversion to
  \<open>jsonb\<close>.  \<open>we_net\<close>: the networks the calls may meet.
\<close>

record 'ch wake_env =
  we_latch_at_start :: bool
  we_two_phase :: bool
  we_sigterm_clears :: bool
  we_lock_waits :: bool
  we_pg :: pg_api
  we_net :: "'ch grpc_net \<Rightarrow> bool"

definition set_backend :: "nat \<Rightarrow> backend \<Rightarrow> ('ch, 'p) system \<Rightarrow> ('ch, 'p) system" where
  "set_backend b be s = s\<lparr>sy_backends := (sy_backends s)(b := be)\<rparr>"

section \<open>Steps\<close>

inductive step ::
  "('p, 'f, 'd, 'm) grpc_lib \<Rightarrow> 'ch wake_env \<Rightarrow> ('ch, 'p) system \<Rightarrow> ('ch, 'p) system \<Rightarrow> bool"
  for lib :: "('p, 'f, 'd, 'm) grpc_lib" and env :: "'ch wake_env" where
  be_enqueue:
    "sy_backends s b = be \<Longrightarrow> be_phase be = Be_Running \<Longrightarrow>
     grpc_call_async ep m rq md os (sy_db s) (be_wake be) = Ok (call_id, db', w) \<Longrightarrow>
     step lib env s
       (set_backend b (be\<lparr>be_rows := be_rows be @ [last (call_queue db')], be_wake := w\<rparr>)
          (s\<lparr>sy_db := (sy_db s)\<lparr>next_id := next_id db'\<rparr>\<rparr>))"
| be_rollback_to_savepoint:
    "sy_backends s b = be \<Longrightarrow> be_phase be = Be_Running \<Longrightarrow>
     step lib env s (set_backend b (be\<lparr>be_rows := take k (be_rows be)\<rparr>) s)"
| be_commit:
    "sy_backends s b = be \<Longrightarrow> be_phase be = Be_Running \<Longrightarrow>
     step lib env s
       (set_backend b (be\<lparr>be_rows := [], be_phase := Be_Callback\<rparr>)
          (s\<lparr>sy_db := insert_queue (be_rows be) (sy_db s)\<rparr>))"
| be_callback:
    "sy_backends s b = be \<Longrightarrow> be_phase be = Be_Callback \<Longrightarrow>
     xs_xact_callback PG_init Xact_Commit (be_wake be) (sy_should_wake s) = (w, sw, signal) \<Longrightarrow>
     step lib env s
       (set_backend b (be\<lparr>be_wake := w, be_phase := (if signal then Be_Read_Latch else Be_Running)\<rparr>)
          (s\<lparr>sy_should_wake := sw\<rparr>))"
| be_abort:
    "sy_backends s b = be \<Longrightarrow> be_phase be = Be_Running \<Longrightarrow>
     xs_xact_callback PG_init Xact_Abort (be_wake be) (sy_should_wake s) = (w, sw, signal) \<Longrightarrow>
     step lib env s (set_backend b (be\<lparr>be_rows := [], be_wake := w\<rparr>) (s\<lparr>sy_should_wake := sw\<rparr>))"
| be_read_latch:
    "sy_backends s b = be \<Longrightarrow> be_phase be = Be_Read_Latch \<Longrightarrow>
     step lib env s (set_backend b (be\<lparr>be_phase := read_latch (sy_latch_ptr s)\<rparr>) s)"
| be_set_latch:
    "sy_backends s b = be \<Longrightarrow> be_phase be = Be_Set_Latch ptr \<Longrightarrow>
     step lib env s
       (set_backend b (be\<lparr>be_phase := Be_Running\<rparr>)
          (s\<lparr>sy_latch := sy_latch s \<or> owns_latch (sy_worker s) \<and> sy_slot s = ptr\<rparr>))"
| be_prepare:
    "we_two_phase env \<Longrightarrow> sy_backends s b = be \<Longrightarrow> be_phase be = Be_Running \<Longrightarrow>
     xs_xact_callback PG_init Xact_Prepare (be_wake be) (sy_should_wake s) = (w, sw, signal) \<Longrightarrow>
     step lib env s
       (set_backend b (be\<lparr>be_rows := [], be_wake := w\<rparr>)
          (s\<lparr>sy_should_wake := sw, sy_prepared := sy_prepared s @ [be_rows be]\<rparr>))"
| be_commit_prepared:
    "we_two_phase env \<Longrightarrow> sy_backends s b = be \<Longrightarrow> be_phase be = Be_Running \<Longrightarrow> be_rows be = [] \<Longrightarrow>
     sy_prepared s = before @ rows # after \<Longrightarrow>
     step lib env s
       (set_backend b (be\<lparr>be_phase := Be_Callback\<rparr>)
          (s\<lparr>sy_prepared := before @ after, sy_db := insert_queue rows (sy_db s)\<rparr>))"
| be_rollback_prepared:
    "we_two_phase env \<Longrightarrow> sy_backends s b = be \<Longrightarrow> be_phase be = Be_Running \<Longrightarrow> be_rows be = [] \<Longrightarrow>
     sy_prepared s = before @ rows # after \<Longrightarrow>
     step lib env s (s\<lparr>sy_prepared := before @ after\<rparr>)"
| w_start:
    "sy_worker s = W_Dead \<Longrightarrow> slot \<noteq> 0 \<Longrightarrow> sy_slot s = 0 \<or> restarts (xs_worker PG_init) \<Longrightarrow>
     step lib env s
       (s\<lparr>sy_worker := W_Start, sy_slot := slot, sy_latch := we_latch_at_start env,
          sy_sigterm := False, sy_caches := \<lparr>ps_channels = [], ps_registry = []\<rparr>\<rparr>)"
| w_clear:
    "sy_worker s = W_Start \<Longrightarrow> step lib env s (s\<lparr>sy_latch_ptr := clear_latch (sy_latch_ptr s), sy_worker := W_Connecting\<rparr>)"
| w_connect_fails:
    "sy_worker s = W_Connecting \<Longrightarrow> step lib env s (s\<lparr>sy_worker := W_Dead\<rparr>)"
| w_publish:
    "sy_worker s = W_Connecting \<Longrightarrow>
     step lib env s (s\<lparr>sy_latch_ptr := store_latch (sy_slot s) (sy_latch_ptr s), sy_worker := W_Waiting\<rparr>)"
| w_wake:
    "sy_worker s = W_Waiting \<Longrightarrow> sy_latch s \<Longrightarrow> \<not> sy_sigterm s \<Longrightarrow>
     step lib env s
       (s\<lparr>sy_latch := False, sy_guc := guc_reload Reload assigns (sy_guc s), sy_worker := W_Woken\<rparr>)"
| w_return:
    "sy_worker s = W_Waiting \<Longrightarrow> sy_latch s \<Longrightarrow> sy_sigterm s \<Longrightarrow>
     step lib env s (s\<lparr>sy_latch := False, sy_worker := W_Exit_Hook True\<rparr>)"
| w_cas:
    "sy_worker s = W_Woken \<Longrightarrow>
     step lib env s
       (if sy_should_wake s
        then s\<lparr>sy_should_wake := False, sy_worker := W_Drain (guc_batch_size (sy_guc s))\<rparr>
        else s\<lparr>sy_worker := W_Waiting\<rparr>)"
| w_break:
    "sy_worker s = W_Drain n \<Longrightarrow> sy_sigterm s \<Longrightarrow>
     step lib env s (s\<lparr>sy_sigterm := \<not> we_sigterm_clears env, sy_worker := W_Waiting\<rparr>)"
| w_empty:
    "sy_worker s = W_Drain n \<Longrightarrow> \<not> sy_sigterm s \<Longrightarrow> arranges arrange \<Longrightarrow>
     dequeue arrange n (sy_db s) = Ok ([], db1) \<Longrightarrow>
     step lib env s (s\<lparr>sy_worker := W_Cleaning\<rparr>)"
| w_clean:
    "sy_worker s = W_Cleaning \<Longrightarrow> clean_up (we_pg env) (sy_guc s) now (sy_db s) = Ok db' \<Longrightarrow>
     step lib env s (s\<lparr>sy_db := db', sy_worker := W_Waiting\<rparr>)"
| w_dequeue:
    "sy_worker s = W_Drain n \<Longrightarrow> \<not> sy_sigterm s \<Longrightarrow> arranges arrange \<Longrightarrow>
     dequeue arrange n (sy_db s) = Ok (rows, db1) \<Longrightarrow> rows \<noteq> [] \<Longrightarrow>
     step lib env s (s\<lparr>sy_worker := W_Batch n rows\<rparr>)"
| w_store:
    "sy_worker s = W_Batch n rows \<Longrightarrow> \<forall>t net. Poll t net \<in> set evs \<longrightarrow> we_net env net \<Longrightarrow>
     run_batch lib evs rows (sy_caches s) = Some (results, caches) \<Longrightarrow>
     store_batch (we_pg env) (sy_guc s) now results (delete_ids (qr_id ` set rows) (sy_db s)) = Ok db' \<Longrightarrow>
     step lib env s (s\<lparr>sy_db := db', sy_caches := caches, sy_worker := W_Drain n\<rparr>)"
| w_lock_wait:
    "we_lock_waits env \<Longrightarrow> in_drain (sy_worker s) \<Longrightarrow> step lib env s (s\<lparr>sy_latch := False\<rparr>)"
| w_crash:
    "published (sy_worker s) \<Longrightarrow> step lib env s (s\<lparr>sy_worker := W_Exit_Hook False\<rparr>)"
| w_exit_hook:
    "sy_worker s = W_Exit_Hook stop \<Longrightarrow>
     step lib env s (s\<lparr>sy_should_wake := True, sy_worker := W_Exit_Clear stop\<rparr>)"
| w_exit_clear:
    "sy_worker s = W_Exit_Clear stop \<Longrightarrow>
     step lib env s (s\<lparr>sy_latch_ptr := clear_latch (sy_latch_ptr s), sy_worker := (if stop then W_Stopped else W_Dead)\<rparr>)"
| sig_hup:
    "owns_latch (sy_worker s) \<Longrightarrow> step lib env s (s\<lparr>sy_latch := True\<rparr>)"
| sig_term:
    "owns_latch (sy_worker s) \<Longrightarrow> step lib env s (s\<lparr>sy_sigterm := True, sy_latch := True\<rparr>)"

text \<open>The server has just started: shared memory zeroed, no transaction open, the worker not yet running.\<close>

definition idle_backend :: backend where
  "idle_backend = \<lparr>be_rows = [], be_wake = False, be_phase = Be_Running\<rparr>"

definition boot :: "queue_db \<Rightarrow> guc_state \<Rightarrow> ('ch, 'p) system" where
  "boot db g =
     \<lparr>sy_db = db, sy_prepared = [], sy_backends = (\<lambda>b. idle_backend), sy_should_wake = False,
      sy_latch_ptr = 0, sy_worker = W_Dead, sy_slot = 0, sy_latch = False, sy_sigterm = False,
      sy_guc = g, sy_caches = \<lparr>ps_channels = [], ps_registry = []\<rparr>\<rparr>"

text \<open>A first start: empty tables, a valid batch size.\<close>

definition first_boot :: "('ch, 'p) system \<Rightarrow> bool" where
  "first_boot s \<longleftrightarrow> (\<exists>g. batch_size_ok g \<and> s = boot empty_db g)"

section \<open>Who still remembers a committed call\<close>

lemma set_backend_simps [simp]:
  "sy_db (set_backend b be s) = sy_db s"
  "sy_prepared (set_backend b be s) = sy_prepared s"
  "sy_backends (set_backend b be s) = (sy_backends s)(b := be)"
  "sy_should_wake (set_backend b be s) = sy_should_wake s"
  "sy_latch_ptr (set_backend b be s) = sy_latch_ptr s"
  "sy_worker (set_backend b be s) = sy_worker s"
  "sy_slot (set_backend b be s) = sy_slot s"
  "sy_latch (set_backend b be s) = sy_latch s"
  "sy_sigterm (set_backend b be s) = sy_sigterm s"
  "sy_guc (set_backend b be s) = sy_guc s"
  "sy_caches (set_backend b be s) = sy_caches s"
  by (simp_all add: set_backend_def)

definition env_ok :: "'ch wake_env \<Rightarrow> bool" where
  "env_ok env \<longleftrightarrow> we_latch_at_start env \<and> \<not> we_two_phase env"

text \<open>
  All steps but two.  Where asking for SIGTERM clears the answer, the step in which the inner loop takes
  a SIGTERM and goes back to the outer wait (what it does is \<open>sigterm_in_drain_lost\<close> below).  Where
  statements may wait for locks, a lock wait that takes back a latch set for a wake-up or a SIGTERM that the drain
  has yet to see (\<open>lock_wait_loses_wakeup\<close> below); other lock waits are among the steps.
\<close>

definition calm_step ::
  "('p, 'f, 'd, 'm) grpc_lib \<Rightarrow> 'ch wake_env \<Rightarrow> ('ch, 'p) system \<Rightarrow> ('ch, 'p) system \<Rightarrow> bool" where
  "calm_step lib env s t \<longleftrightarrow>
     step lib env s t
     \<and> (we_sigterm_clears env \<longrightarrow> \<not> (draining (sy_worker s) \<and> sy_sigterm s \<and> sy_worker t = W_Waiting))
     \<and> (we_lock_waits env \<longrightarrow> \<not> (in_drain (sy_worker s) \<and> sy_worker t = sy_worker s \<and> sy_latch s \<and> \<not> sy_latch t
          \<and> (sy_should_wake s \<or> sy_sigterm s)))"

lemma calm_step_all: "\<not> we_sigterm_clears env \<Longrightarrow> \<not> we_lock_waits env \<Longrightarrow> calm_step lib env = step lib env"
  by (intro ext) (simp add: calm_step_def)

text \<open>A backend is about to announce a commit, or on its way to the latch of the running worker.\<close>

definition announcing :: "backend \<Rightarrow> bool" where
  "announcing be \<longleftrightarrow> be_phase be = Be_Callback \<and> be_wake be"

definition signalling :: "nat \<Rightarrow> backend \<Rightarrow> bool" where
  "signalling slot be \<longleftrightarrow> be_phase be = Be_Read_Latch \<or> be_phase be = Be_Set_Latch slot"

definition backends_inv :: "('ch, 'p) system \<Rightarrow> bool" where
  "backends_inv s \<longleftrightarrow>
     (\<forall>b. be_rows (sy_backends s b) \<noteq> [] \<longrightarrow>
        be_wake (sy_backends s b) \<and> be_phase (sy_backends s b) = Be_Running)"

definition latch_inv :: "('ch, 'p) system \<Rightarrow> bool" where
  "latch_inv s \<longleftrightarrow>
     (owns_latch (sy_worker s) \<longrightarrow> sy_slot s \<noteq> 0)
     \<and> (owns_latch (sy_worker s) \<and> \<not> published (sy_worker s) \<longrightarrow> sy_latch s)
     \<and> (published (sy_worker s) \<longrightarrow> sy_latch_ptr s = sy_slot s)
     \<and> (published (sy_worker s) \<and> sy_sigterm s \<longrightarrow> sy_latch s)"

definition remembered :: "('ch, 'p) system \<Rightarrow> bool" where
  "remembered s \<longleftrightarrow>
     sy_should_wake s \<or> (\<exists>b. announcing (sy_backends s b)) \<or> draining (sy_worker s)
     \<or> (\<exists>stop. sy_worker s = W_Exit_Hook stop) \<or> published (sy_worker s) \<and> sy_sigterm s"

definition heard :: "('ch, 'p) system \<Rightarrow> bool" where
  "heard s \<longleftrightarrow> sy_latch s \<or> (\<exists>b. signalling (sy_slot s) (sy_backends s b))"

definition wake_inv :: "('ch, 'p) system \<Rightarrow> bool" where
  "wake_inv s \<longleftrightarrow>
     backends_inv s \<and> latch_inv s
     \<and> (call_queue (sy_db s) \<noteq> [] \<longrightarrow> remembered s)
     \<and> ((sy_worker s = W_Waiting \<or> in_drain (sy_worker s)) \<and> sy_should_wake s \<longrightarrow> heard s)"

lemma grpc_call_async_queue:
  "grpc_call_async ep m rq md os db w = Ok (i, db', w') \<Longrightarrow>
     w' = True \<and> (\<exists>row. qr_id row = i \<and> call_queue db' = call_queue db @ [row])"
  by (auto simp: grpc_call_async_Ok next_call_id_Ok insert_queue_def)

lemma backends_inv_step:
  assumes "step lib env s t" and "backends_inv s"
  shows "backends_inv t"
  using assms
  by (cases rule: step.cases)
     (auto simp: backends_inv_def wake_worker_on_commit_def dest: grpc_call_async_queue split: if_splits)

lemma published_owns: "published w \<Longrightarrow> owns_latch w"
  by (cases w) simp_all

lemma in_drain_published: "in_drain w \<Longrightarrow> published w"
  by (cases w) simp_all

lemma latch_inv_step:
  assumes "calm_step lib env s t" and "env_ok env" and "latch_inv s"
  shows "latch_inv t"
proof -
  have st: "step lib env s t"
    and calm: "we_lock_waits env \<longrightarrow> \<not> (in_drain (sy_worker s) \<and> sy_worker t = sy_worker s \<and> sy_latch s \<and> \<not> sy_latch t
          \<and> (sy_should_wake s \<or> sy_sigterm s))"
    using assms(1) by (simp_all add: calm_step_def)
  from st show ?thesis
    by (cases rule: step.cases)
       (use assms(2,3) calm in \<open>auto simp: latch_inv_def env_ok_def published_owns dest: in_drain_published\<close>)
qed

definition size_inv :: "('ch, 'p) system \<Rightarrow> bool" where
  "size_inv s \<longleftrightarrow>
     batch_size_ok (sy_guc s)
     \<and> (\<forall>n rows. sy_worker s = W_Drain n \<or> sy_worker s = W_Batch n rows \<longrightarrow> 1 \<le> sint n)"

lemma size_inv_step:
  assumes "step lib env s t" and "size_inv s"
  shows "size_inv t"
  using assms
  by (cases rule: step.cases)
     (auto simp: size_inv_def guc_reload_batch_ok batch_size_ok_def [symmetric])

lemma dequeue_none:
  assumes "arranges arrange" and "1 \<le> sint n" and "dequeue arrange n db = Ok ([], db1)"
  shows "call_queue db = []"
proof (rule ccontr)
  assume "call_queue db \<noteq> []"
  then have "sort_key (\<lambda>r. sint (qr_id r)) (call_queue db) \<noteq> []"
    by (metis length_0_conv length_sort)
  then obtain r rs where sorted: "sort_key (\<lambda>r. sint (qr_id r)) (call_queue db) = r # rs"
    by (cases "sort_key (\<lambda>r. sint (qr_id r)) (call_queue db)") auto
  have "0 < nat (sint n)" using assms(2) by simp
  then have "qr_id r \<in> set (batch_ids n (call_queue db))"
    unfolding batch_ids_def sorted by (cases "nat (sint n)") simp_all
  moreover have "r \<in> set (call_queue db)" using sorted by (metis list.set_intros(1) set_sort)
  ultimately have "r \<in> set ([] :: queue_row list)"
    unfolding dequeue_rows(1) [OF assms(1,3)] by simp
  then show False by simp
qed

text \<open>The step of a backend seen from outside: the other backends stand still.\<close>

lemma remembered_upd:
  assumes "remembered s" and "sy_backends t = (sy_backends s)(b := be)"
    and "announcing be \<or> \<not> announcing (sy_backends s b)"
    and "sy_should_wake t = sy_should_wake s" "sy_worker t = sy_worker s" "sy_sigterm t = sy_sigterm s"
  shows "remembered t"
proof -
  have "\<exists>c. announcing (sy_backends t c)" if "announcing (sy_backends s c)" for c
    using assms(2,3) that by (metis fun_upd_apply)
  with assms show ?thesis unfolding remembered_def by metis
qed

lemma heard_upd:
  assumes "heard s" and "sy_backends t = (sy_backends s)(b := be)"
    and "signalling (sy_slot s) be \<or> \<not> signalling (sy_slot s) (sy_backends s b)"
    and "sy_latch s \<longrightarrow> sy_latch t" "sy_slot t = sy_slot s"
  shows "heard t"
proof -
  have "\<exists>c. signalling (sy_slot t) (sy_backends t c)" if "signalling (sy_slot s) (sy_backends s c)" for c
    using assms(2,3,5) that by (metis fun_upd_apply)
  with assms show ?thesis unfolding heard_def by metis
qed

lemma not_announcing: "be_phase be \<noteq> Be_Callback \<Longrightarrow> \<not> announcing be"
  by (simp add: announcing_def)

lemma not_signalling:
  "be_phase be = Be_Running \<or> be_phase be = Be_Callback \<Longrightarrow> \<not> signalling p be"
  by (auto simp: signalling_def)

lemma remembered_step:
  assumes st: "step lib env s t" and "env_ok env" and "backends_inv s" and "size_inv s"
    and calm: "we_sigterm_clears env \<longrightarrow> \<not> (draining (sy_worker s) \<and> sy_sigterm s \<and> sy_worker t = W_Waiting)"
    and inv: "call_queue (sy_db s) \<noteq> [] \<longrightarrow> remembered s" and queue: "call_queue (sy_db t) \<noteq> []"
  shows "remembered t"
  using st
proof (cases rule: step.cases)
  case (be_commit b be)
  show ?thesis
  proof (cases "be_rows be = []")
    case True
    with be_commit queue inv have "remembered s" by (simp add: insert_queue_def)
    then show ?thesis by (rule remembered_upd) (use be_commit in \<open>auto simp: not_announcing\<close>)
  next
    case False
    with be_commit \<open>backends_inv s\<close> have "be_wake be" by (auto simp: backends_inv_def)
    with be_commit show ?thesis by (auto simp: remembered_def announcing_def)
  qed
next
  case (be_callback b be w sw signal)
  with inv queue have rem: "remembered s" by simp
  show ?thesis
  proof (cases "be_wake be")
    case True
    with be_callback show ?thesis by (simp add: remembered_def wake_worker_on_commit_def)
  next
    case False
    from rem show ?thesis
      by (rule remembered_upd)
         (use be_callback False in \<open>auto simp: announcing_def wake_worker_on_commit_def\<close>)
  qed
next
  case (w_empty n arrange db1)
  have "1 \<le> sint n" using w_empty \<open>size_inv s\<close> by (auto simp: size_inv_def)
  then have "call_queue (sy_db s) = []" using w_empty dequeue_none by blast
  with w_empty queue show ?thesis by simp
next
  case (w_clean now db')
  with queue clean_up_keeps have "call_queue (sy_db s) \<noteq> []" by fastforce
  with inv w_clean show ?thesis by (simp add: remembered_def)
next
  case (be_enqueue b be ep m rq md os call_id db' w)
  with inv queue have "remembered s" by simp
  then show ?thesis by (rule remembered_upd) (use be_enqueue in \<open>auto simp: not_announcing\<close>)
next
  case (be_rollback_to_savepoint b be k)
  with inv queue have "remembered s" by simp
  then show ?thesis by (rule remembered_upd) (use be_rollback_to_savepoint in \<open>auto simp: not_announcing\<close>)
next
  case (be_abort b be w sw signal)
  with inv queue have "remembered s" by simp
  then show ?thesis
    by (rule remembered_upd) (use be_abort in \<open>auto simp: not_announcing wake_worker_on_commit_def\<close>)
next
  case (be_read_latch b be)
  with inv queue have "remembered s" by simp
  then show ?thesis by (rule remembered_upd) (use be_read_latch in \<open>auto simp: not_announcing\<close>)
next
  case (be_set_latch b be ptr)
  with inv queue have "remembered s" by simp
  then show ?thesis by (rule remembered_upd) (use be_set_latch in \<open>auto simp: not_announcing\<close>)
qed (use assms in \<open>auto simp: remembered_def env_ok_def split: if_splits\<close>)

lemma heard_step:
  assumes calm_step: "calm_step lib env s t" and "env_ok env" and latch: "latch_inv s"
    and inv: "(sy_worker s = W_Waiting \<or> in_drain (sy_worker s)) \<and> sy_should_wake s \<longrightarrow> heard s"
    and now: "sy_worker t = W_Waiting \<or> in_drain (sy_worker t)" and sw: "sy_should_wake t"
  shows "heard t"
proof -
  have st: "step lib env s t"
    and calm: "we_lock_waits env \<longrightarrow> \<not> (in_drain (sy_worker s) \<and> sy_worker t = sy_worker s \<and> sy_latch s \<and> \<not> sy_latch t
          \<and> (sy_should_wake s \<or> sy_sigterm s))"
    using calm_step by (simp_all add: calm_step_def)
  show ?thesis
  using st
proof (cases rule: step.cases)
  case (be_enqueue b be ep m rq md os call_id db' w)
  with inv now sw have "heard s" by simp
  then show ?thesis by (rule heard_upd) (use be_enqueue in \<open>auto simp: not_signalling\<close>)
next
  case (be_rollback_to_savepoint b be k)
  with inv now sw have "heard s" by simp
  then show ?thesis by (rule heard_upd) (use be_rollback_to_savepoint in \<open>auto simp: not_signalling\<close>)
next
  case (be_commit b be)
  with inv now sw have "heard s" by simp
  then show ?thesis by (rule heard_upd) (use be_commit in \<open>auto simp: not_signalling\<close>)
next
  case (be_callback b be w sw' signal)
  show ?thesis
  proof (cases "be_wake be")
    case True
    with be_callback show ?thesis by (auto simp: heard_def wake_worker_on_commit_def signalling_def)
  next
    case False
    with be_callback inv now sw have "heard s" by (simp add: wake_worker_on_commit_def)
    then show ?thesis by (rule heard_upd) (use be_callback in \<open>auto simp: not_signalling\<close>)
  qed
next
  case (be_abort b be w sw' signal)
  with inv now sw have "heard s" by (simp add: wake_worker_on_commit_def)
  then show ?thesis by (rule heard_upd) (use be_abort in \<open>auto simp: not_signalling\<close>)
next
  case (be_read_latch b be)
  have "sy_latch_ptr s = sy_slot s \<and> sy_slot s \<noteq> 0"
    using latch be_read_latch now by (cases "sy_worker s") (auto simp: latch_inv_def)
  with be_read_latch show ?thesis by (auto simp: heard_def read_latch_def signalling_def)
next
  case (be_set_latch b be ptr)
  with inv now sw have "heard s" by simp
  have owns: "owns_latch (sy_worker s)" using be_set_latch now by (cases "sy_worker s") auto
  show ?thesis
  proof (cases "ptr = sy_slot s")
    case True
    with be_set_latch owns show ?thesis by (simp add: heard_def)
  next
    case False
    with be_set_latch have "\<not> signalling (sy_slot s) be" by (simp add: signalling_def)
    show ?thesis
      by (rule heard_upd [OF \<open>heard s\<close>])
         (use be_set_latch \<open>\<not> signalling (sy_slot s) be\<close> in auto)
  qed
next
  case w_publish
  with latch show ?thesis by (simp add: latch_inv_def heard_def)
next
  case w_lock_wait
  with inv now sw have "heard s" by simp
  moreover have "sy_latch s \<longrightarrow> sy_latch t" using w_lock_wait calm sw by auto
  ultimately show ?thesis using w_lock_wait by (auto simp: heard_def)
qed (use assms in \<open>auto simp: heard_def env_ok_def split: if_splits\<close>)
qed

lemma wake_inv_step:
  "calm_step lib env s t \<Longrightarrow> env_ok env \<Longrightarrow> size_inv s \<Longrightarrow> wake_inv s \<Longrightarrow> wake_inv t"
  unfolding wake_inv_def
  using backends_inv_step latch_inv_step remembered_step heard_step unfolding calm_step_def by metis

lemma wake_inv_boot: "first_boot s \<Longrightarrow> size_inv s \<and> wake_inv s"
  by (auto simp: first_boot_def boot_def idle_backend_def size_inv_def wake_inv_def backends_inv_def
      latch_inv_def empty_db_def)

interpretation wake: inductive_invariant first_boot "calm_step lib env"
  "\<lambda>s. size_inv s \<and> (env_ok env \<longrightarrow> wake_inv s)"
  by unfold_locales (auto simp: wake_inv_boot wake_inv_step calm_step_def [THEN iffD1, THEN conjunct1, THEN size_inv_step])

section \<open>The rows of a call\<close>

text \<open>
  Rows of open and of prepared transactions and rows of the tables have distinct ids, all handed out by
  the sequence; the rows of the running batch are still in the queue.
\<close>

definition pending_ids :: "backend \<Rightarrow> i64 set" where
  "pending_ids be = qr_id ` set (be_rows be)"

definition prepared_ids :: "('ch, 'p) system \<Rightarrow> i64 set" where
  "prepared_ids s = qr_id ` set (concat (sy_prepared s))"

definition used_ids :: "queue_db \<Rightarrow> i64 set" where
  "used_ids db = queue_ids db \<union> result_ids db"

text \<open>Ids not in the tables yet, handed out by the sequence.\<close>

definition ids_new :: "queue_db \<Rightarrow> i64 set \<Rightarrow> bool" where
  "ids_new db I \<longleftrightarrow> I \<inter> used_ids db = {} \<and> (\<forall>i \<in> I. 0 < sint i \<and> sint i < next_id db)"

definition rows_inv :: "('ch, 'p) system \<Rightarrow> bool" where
  "rows_inv s \<longleftrightarrow>
     db_ok (sy_db s) \<and> 0 < next_id (sy_db s)
     \<and> (\<forall>b. distinct (map qr_id (be_rows (sy_backends s b))) \<and> ids_new (sy_db s) (pending_ids (sy_backends s b)))
     \<and> distinct (map qr_id (concat (sy_prepared s))) \<and> ids_new (sy_db s) (prepared_ids s)
     \<and> (\<forall>b. pending_ids (sy_backends s b) \<inter> prepared_ids s = {})
     \<and> (\<forall>b c. b \<noteq> c \<longrightarrow> pending_ids (sy_backends s b) \<inter> pending_ids (sy_backends s c) = {})
     \<and> (\<forall>n rows. sy_worker s = W_Batch n rows \<longrightarrow>
          qr_id ` set rows \<subseteq> queue_ids (sy_db s) \<and> distinct (map qr_id rows))"

lemma ids_new_empty [simp]: "ids_new db {}"
  by (simp add: ids_new_def)

lemma ids_new_subset: "ids_new db I \<Longrightarrow> J \<subseteq> I \<Longrightarrow> ids_new db J"
  unfolding ids_new_def by blast

lemma ids_new_Un: "ids_new db I \<Longrightarrow> ids_new db J \<Longrightarrow> ids_new db (I \<union> J)"
  unfolding ids_new_def by blast

lemma ids_new_db:
  "ids_new db I \<Longrightarrow> used_ids db' \<subseteq> used_ids db \<union> N \<Longrightarrow> I \<inter> N = {} \<Longrightarrow> next_id db \<le> next_id db' \<Longrightarrow> ids_new db' I"
  unfolding ids_new_def by force

lemma rows_inv_boot: "first_boot s \<Longrightarrow> rows_inv s"
  by (auto simp: first_boot_def boot_def rows_inv_def idle_backend_def pending_ids_def prepared_ids_def)
     (simp add: empty_db_def)

lemma rows_inv_facts:
  assumes "rows_inv s"
  shows "db_ok (sy_db s)" and "0 < next_id (sy_db s)"
    and "distinct (map qr_id (be_rows (sy_backends s b)))" and "ids_new (sy_db s) (pending_ids (sy_backends s b))"
    and "distinct (map qr_id (concat (sy_prepared s)))" and "ids_new (sy_db s) (prepared_ids s)"
    and "pending_ids (sy_backends s b) \<inter> prepared_ids s = {}"
    and "b \<noteq> c \<Longrightarrow> pending_ids (sy_backends s b) \<inter> pending_ids (sy_backends s c) = {}"
    and "sy_worker s = W_Batch n rows \<Longrightarrow> qr_id ` set rows \<subseteq> queue_ids (sy_db s) \<and> distinct (map qr_id rows)"
  using assms unfolding rows_inv_def by blast+

text \<open>Dropping rows of open or prepared transactions, and every step that leaves rows and tables alone.\<close>

lemma rows_inv_mono:
  assumes inv: "rows_inv s" and db: "sy_db t = sy_db s"
    and bes: "\<And>c. pending_ids (sy_backends t c) \<subseteq> pending_ids (sy_backends s c)
        \<and> distinct (map qr_id (be_rows (sy_backends t c)))"
    and prep: "prepared_ids t \<subseteq> prepared_ids s \<and> distinct (map qr_id (concat (sy_prepared t)))"
    and batch: "\<And>n rows. sy_worker t = W_Batch n rows \<Longrightarrow>
        qr_id ` set rows \<subseteq> queue_ids (sy_db s) \<and> distinct (map qr_id rows)"
  shows "rows_inv t"
proof -
  note facts = rows_inv_facts [OF inv]
  have "pending_ids (sy_backends t b) \<inter> prepared_ids t = {}" for b
    using facts(7) [of b] bes [of b] prep by blast
  moreover have "pending_ids (sy_backends t b) \<inter> pending_ids (sy_backends t c) = {}" if "b \<noteq> c" for b c
    using facts(8) [OF that] bes [of b] bes [of c] by blast
  moreover have "ids_new (sy_db s) (pending_ids (sy_backends t c))" for c
    using ids_new_subset [OF facts(4)] bes by blast
  moreover have "ids_new (sy_db s) (prepared_ids t)" using ids_new_subset [OF facts(6)] prep by blast
  ultimately show ?thesis using facts(1,2) bes prep batch unfolding rows_inv_def db by blast
qed

lemma prepared_ids_cong: "sy_prepared t = sy_prepared s \<Longrightarrow> prepared_ids t = prepared_ids s"
  by (simp add: prepared_ids_def)

lemma rows_inv_same:
  assumes inv: "rows_inv s" and "sy_db t = sy_db s" and bes: "\<And>c. be_rows (sy_backends t c) = be_rows (sy_backends s c)"
    and prep: "sy_prepared t = sy_prepared s"
    and "\<And>n rows. sy_worker t = W_Batch n rows \<Longrightarrow> sy_worker s = W_Batch n rows"
  shows "rows_inv t"
  using assms(1,2)
proof (rule rows_inv_mono)
  show "pending_ids (sy_backends t c) \<subseteq> pending_ids (sy_backends s c)
      \<and> distinct (map qr_id (be_rows (sy_backends t c)))" for c
    using rows_inv_facts(3) [OF inv] by (simp add: pending_ids_def bes)
  show "prepared_ids t \<subseteq> prepared_ids s \<and> distinct (map qr_id (concat (sy_prepared t)))"
    using rows_inv_facts(5) [OF inv] prepared_ids_cong [OF prep] prep by simp
qed (use assms(5) rows_inv_facts(9) [OF inv] in blast)

lemma rows_inv_drop:
  assumes inv: "rows_inv s" and "sy_db t = sy_db s" and "sy_backends t = (sy_backends s)(b := be)"
    and "be_rows be = take k (be_rows (sy_backends s b))" and w: "sy_worker t = sy_worker s"
    and prep: "sy_prepared t = sy_prepared s"
  shows "rows_inv t"
  using assms(1,2)
proof (rule rows_inv_mono)
  show "pending_ids (sy_backends t c) \<subseteq> pending_ids (sy_backends s c)
      \<and> distinct (map qr_id (be_rows (sy_backends t c)))" for c
    using assms(3,4) rows_inv_facts(3) [OF inv]
    by (auto simp: pending_ids_def take_map [symmetric] dest: in_set_takeD)
  show "prepared_ids t \<subseteq> prepared_ids s \<and> distinct (map qr_id (concat (sy_prepared t)))"
    using rows_inv_facts(5) [OF inv] prepared_ids_cong [OF prep] prep by simp
qed (use w rows_inv_facts(9) [OF inv] in metis)

text \<open>One prepared transaction leaves the list.\<close>

lemma prepared_removed:
  assumes inv: "rows_inv s" and p: "sy_prepared s = before @ rows # after" "sy_prepared t = before @ after"
  shows "prepared_ids t \<subseteq> prepared_ids s - qr_id ` set rows \<and> distinct (map qr_id (concat (sy_prepared t)))"
    and "qr_id ` set rows \<subseteq> prepared_ids s" and "distinct (map qr_id rows)"
proof -
  let ?all = "\<lambda>xs. map qr_id (concat xs)"
  have d: "distinct (?all before @ map qr_id rows @ ?all after)"
    using rows_inv_facts(5) [OF inv] unfolding p by simp
  have ids: "prepared_ids s = set (?all before) \<union> qr_id ` set rows \<union> set (?all after)"
    by (simp only: prepared_ids_def p concat_append concat.simps set_append image_Un set_map Un_assoc)
  have t: "prepared_ids t = set (?all before) \<union> set (?all after)"
    by (simp only: prepared_ids_def p concat_append set_append image_Un set_map)
  have rows: "qr_id ` set rows = set (map qr_id rows)" by simp
  have "distinct (?all before @ ?all after)" using d unfolding distinct_append set_append by blast
  moreover have "prepared_ids t \<inter> qr_id ` set rows = {}"
    using d unfolding t rows distinct_append set_append by blast
  moreover have "prepared_ids t \<subseteq> prepared_ids s" unfolding ids t by blast
  moreover have "map qr_id (concat (sy_prepared t)) = ?all before @ ?all after" by (simp add: p(2))
  ultimately show "prepared_ids t \<subseteq> prepared_ids s - qr_id ` set rows \<and> distinct (map qr_id (concat (sy_prepared t)))"
    by (simp only:) blast
  show "qr_id ` set rows \<subseteq> prepared_ids s" unfolding ids by blast
  show "distinct (map qr_id rows)" using d by simp
qed

lemma rows_inv_rollback_prepared:
  assumes inv: "rows_inv s" and db: "sy_db t = sy_db s" and bes: "sy_backends t = sy_backends s"
    and w: "sy_worker t = sy_worker s" and p: "sy_prepared s = before @ rows # after" "sy_prepared t = before @ after"
  shows "rows_inv t"
proof (rule rows_inv_mono [OF inv db])
  show "prepared_ids t \<subseteq> prepared_ids s \<and> distinct (map qr_id (concat (sy_prepared t)))"
    using prepared_removed(1) [OF inv p] by blast
  show "pending_ids (sy_backends t c) \<subseteq> pending_ids (sy_backends s c)
      \<and> distinct (map qr_id (be_rows (sy_backends t c)))" for c
    using rows_inv_facts(3) [OF inv] by (simp add: bes)
  show "qr_id ` set rws \<subseteq> queue_ids (sy_db s) \<and> distinct (map qr_id rws)"
    if "sy_worker t = W_Batch n rws" for n rws
    using rows_inv_facts(9) [OF inv] that unfolding w by blast
qed

text \<open>PREPARE TRANSACTION moves the rows of a backend among the prepared ones.\<close>

lemma rows_inv_prepare:
  assumes inv: "rows_inv s" and db: "sy_db t = sy_db s" and bes: "sy_backends t = (sy_backends s)(b := be)" "be_rows be = []"
    and w: "sy_worker t = sy_worker s" and p: "sy_prepared t = sy_prepared s @ [be_rows (sy_backends s b)]"
  shows "rows_inv t"
proof -
  note facts = rows_inv_facts [OF inv]
  have ids: "prepared_ids t = prepared_ids s \<union> pending_ids (sy_backends s b)"
    by (simp add: prepared_ids_def p pending_ids_def image_Un)
  have none: "pending_ids be = {}" by (simp add: pending_ids_def bes)
  have "distinct (map qr_id (concat (sy_prepared t)))"
    using facts(3) [of b] facts(5) facts(7) [of b] unfolding p prepared_ids_def pending_ids_def by auto
  moreover have "ids_new (sy_db s) (prepared_ids t)" unfolding ids by (rule ids_new_Un [OF facts(6,4)])
  moreover have "pending_ids (sy_backends t c) \<inter> prepared_ids t = {}" for c
    using facts(7) [of c] facts(8) [of c b] none unfolding ids by (cases "c = b") (auto simp: bes)
  moreover have "ids_new (sy_db s) (pending_ids (sy_backends t c))" for c
    using facts(4) [of c] none by (simp add: bes)
  moreover have "distinct (map qr_id (be_rows (sy_backends t c)))" for c
    using facts(3) [of c] by (simp add: bes)
  moreover have "pending_ids (sy_backends t c) \<inter> pending_ids (sy_backends t d) = {}" if "c \<noteq> d" for c d
    using facts(8) [OF that] none by (simp add: bes)
  ultimately show ?thesis using facts(1,2,9) unfolding rows_inv_def db w by blast
qed

lemma rows_inv_enqueue:
  assumes inv: "rows_inv s" and call: "grpc_call_async ep m rq md os (sy_db s) w = Ok (i, db', w')"
    and be: "be_rows be' = be_rows (sy_backends s b) @ [last (call_queue db')]"
    and t: "sy_db t = (sy_db s)\<lparr>next_id := next_id db'\<rparr>" "sy_backends t = (sy_backends s)(b := be')"
      "sy_worker t = sy_worker s" "sy_prepared t = sy_prepared s"
  shows "rows_inv t"
proof -
  let ?n = "next_id (sy_db s)"
  have ok: "db_ok (sy_db s)" "0 < ?n" using inv by (simp_all add: rows_inv_def)
  have bound: "?n \<le> i64_max" and i: "i = word_of_int ?n" and nxt: "next_id db' = ?n + 1"
    using call by (auto simp: grpc_call_async_Ok next_call_id_Ok insert_queue_def)
  have num: "sint i = ?n" unfolding i using ok(2) bound by (rule sint_next_call_id)
  have last: "qr_id (last (call_queue db')) = i" using grpc_call_async_queue [OF call] by auto
  note facts = rows_inv_facts [OF inv]
  have used: "0 < sint j \<and> sint j < ?n" if "j \<in> used_ids (sy_db s)" for j
    using ok(1) that unfolding db_ok_def used_ids_def by blast
  have unused: "i \<notin> I" if "ids_new (sy_db s) I" for I using that num by (auto simp: ids_new_def)
  have new: "i \<notin> used_ids (sy_db s)" using used [of i] num by auto
  have q: "queue_ids (sy_db t) = queue_ids (sy_db s)" and r: "result_ids (sy_db t) = result_ids (sy_db s)"
    by (simp_all add: t queue_ids_def result_ids_def)
  have u: "used_ids (sy_db t) = used_ids (sy_db s)" by (simp add: used_ids_def q r)
  have next_t: "next_id (sy_db t) = ?n + 1" by (simp add: t nxt)
  have ids: "pending_ids be' = insert i (pending_ids (sy_backends s b))" by (simp add: pending_ids_def be last)
  have prep: "prepared_ids t = prepared_ids s" by (rule prepared_ids_cong [OF t(4)])
  have old: "ids_new (sy_db t) I" if "ids_new (sy_db s) I" for I
    by (rule ids_new_db [OF that, of _ "{}"]) (simp_all add: u next_t)
  have mine: "ids_new (sy_db t) {i}" using new num ok(2) by (simp add: ids_new_def u next_t)
  have "0 < sint j \<and> sint j < ?n + 1" if "j \<in> used_ids (sy_db s)" for j
    using used [OF that] by simp
  then have "\<forall>j \<in> queue_ids (sy_db s) \<union> result_ids (sy_db s). 0 < sint j \<and> sint j < ?n + 1"
    unfolding used_ids_def by blast
  then have "db_ok (sy_db t)" using ok(1) nxt by (simp add: db_ok_def q r) (simp add: t nxt)
  moreover have "0 < next_id (sy_db t)" using ok(2) by (simp add: next_t)
  moreover have "distinct (map qr_id (be_rows (sy_backends t c)))" for c
    using facts(3) [of c] unused [OF facts(4), of c] last by (auto simp: t(2) be pending_ids_def)
  moreover have "ids_new (sy_db t) (pending_ids (sy_backends t c))" for c
    using old [OF facts(4), of c] ids_new_Un [OF mine old [OF facts(4), of b]] by (simp add: t(2) ids)
  moreover have "distinct (map qr_id (concat (sy_prepared t)))" using facts(5) by (simp add: t(4))
  moreover have "ids_new (sy_db t) (prepared_ids t)" unfolding prep by (rule old [OF facts(6)])
  moreover have "pending_ids (sy_backends t c) \<inter> prepared_ids t = {}" for c
    using facts(7) [of c] facts(7) [of b] unused [OF facts(6)] unfolding prep by (simp add: t(2) ids)
  moreover have "pending_ids (sy_backends t c) \<inter> pending_ids (sy_backends t d) = {}" if "c \<noteq> d" for c d
    using facts(8) [OF that] unused [OF facts(4), of c] unused [OF facts(4), of d] that by (auto simp: t(2) ids)
  moreover have "qr_id ` set rows \<subseteq> queue_ids (sy_db t) \<and> distinct (map qr_id rows)"
    if "sy_worker t = W_Batch n rows" for n rows
    using that facts(9) [of n rows] unfolding q t(3) by blast
  ultimately show ?thesis unfolding rows_inv_def by blast
qed

text \<open>The tables change by a commit: of a backend, of a prepared transaction, or of the worker.\<close>

lemma rows_inv_insert:
  assumes inv: "rows_inv s" and new: "ids_new (sy_db s) (qr_id ` set rows)" "distinct (map qr_id rows)"
    and t: "sy_db t = insert_queue rows (sy_db s)" "sy_worker t = sy_worker s"
    and bes: "\<And>c. pending_ids (sy_backends t c) \<subseteq> pending_ids (sy_backends s c) - qr_id ` set rows
        \<and> distinct (map qr_id (be_rows (sy_backends t c)))"
    and prep: "prepared_ids t \<subseteq> prepared_ids s - qr_id ` set rows \<and> distinct (map qr_id (concat (sy_prepared t)))"
  shows "rows_inv t"
proof -
  let ?new = "qr_id ` set rows"
  note facts = rows_inv_facts [OF inv]
  have q: "queue_ids (sy_db t) = queue_ids (sy_db s) \<union> ?new" by (simp add: t)
  have r: "result_ids (sy_db t) = result_ids (sy_db s)" by (simp add: t)
  have n: "next_id (sy_db t) = next_id (sy_db s)" by (simp add: t insert_queue_def)
  have u: "used_ids (sy_db t) \<subseteq> used_ids (sy_db s) \<union> ?new" by (auto simp: used_ids_def q r)
  have fresh: "?new \<inter> queue_ids (sy_db s) = {}" "?new \<inter> result_ids (sy_db s) = {}"
    using new(1) unfolding ids_new_def used_ids_def by blast+
  have kept: "ids_new (sy_db t) J" if "ids_new (sy_db s) I" "J \<subseteq> I - ?new" for I J
    by (rule ids_new_db [OF ids_new_subset [OF that(1)] u]) (use that(2) n in auto)
  have "distinct (map qr_id (call_queue (sy_db t)))"
    using facts(1) new(2) fresh(1) by (auto simp: t insert_queue_def db_ok_def queue_ids_def)
  moreover have "distinct (map res_id (call_results (sy_db t)))"
    using facts(1) by (simp add: t insert_queue_def db_ok_def)
  moreover have "queue_ids (sy_db t) \<inter> result_ids (sy_db t) = {}"
    using facts(1) fresh unfolding q r db_ok_def by blast
  moreover have "\<forall>i \<in> queue_ids (sy_db t) \<union> result_ids (sy_db t). 0 < sint i \<and> sint i < next_id (sy_db t)"
    using facts(1) new(1) unfolding q r n db_ok_def ids_new_def by blast
  ultimately have "db_ok (sy_db t)" by (simp add: db_ok_def)
  moreover have "ids_new (sy_db t) (pending_ids (sy_backends t c))" for c using kept [OF facts(4)] bes by blast
  moreover have "ids_new (sy_db t) (prepared_ids t)" using kept [OF facts(6)] prep by blast
  moreover have "pending_ids (sy_backends t c) \<inter> prepared_ids t = {}" for c
    using facts(7) [of c] bes [of c] prep by blast
  moreover have "pending_ids (sy_backends t c) \<inter> pending_ids (sy_backends t d) = {}" if "c \<noteq> d" for c d
    using facts(8) [OF that] bes [of c] bes [of d] by blast
  moreover have "qr_id ` set rws \<subseteq> queue_ids (sy_db t) \<and> distinct (map qr_id rws)"
    if "sy_worker t = W_Batch m rws" for m rws
    using that facts(9) [of m rws] unfolding q t(2) by blast
  moreover have "0 < next_id (sy_db t)" using facts(2) by (simp add: n)
  moreover have "distinct (map qr_id (be_rows (sy_backends t c)))" for c using bes by blast
  moreover have "distinct (map qr_id (concat (sy_prepared t)))" using prep by blast
  ultimately show ?thesis unfolding rows_inv_def by blast
qed

lemma rows_inv_commit:
  assumes inv: "rows_inv s" and be: "be_rows be' = []"
    and t: "sy_db t = insert_queue (be_rows (sy_backends s b)) (sy_db s)"
      "sy_backends t = (sy_backends s)(b := be')" "sy_worker t = sy_worker s" "sy_prepared t = sy_prepared s"
  shows "rows_inv t"
proof (rule rows_inv_insert [OF inv _ _ t(1,3)])
  note facts = rows_inv_facts [OF inv]
  have ids: "qr_id ` set (be_rows (sy_backends s b)) = pending_ids (sy_backends s b)" by (simp add: pending_ids_def)
  have none: "pending_ids be' = {}" by (simp add: pending_ids_def be)
  show "ids_new (sy_db s) (qr_id ` set (be_rows (sy_backends s b)))" unfolding ids by (rule facts(4))
  show "distinct (map qr_id (be_rows (sy_backends s b)))" by (rule facts(3))
  show "pending_ids (sy_backends t c) \<subseteq> pending_ids (sy_backends s c) - qr_id ` set (be_rows (sy_backends s b))
      \<and> distinct (map qr_id (be_rows (sy_backends t c)))" for c
    using facts(3) [of c] facts(8) [of c b] none unfolding ids by (cases "c = b") (auto simp: t(2) be)
  show "prepared_ids t \<subseteq> prepared_ids s - qr_id ` set (be_rows (sy_backends s b))
      \<and> distinct (map qr_id (concat (sy_prepared t)))"
    using facts(5) facts(7) [of b] unfolding ids prepared_ids_cong [OF t(4)] t(4) by blast
qed

lemma rows_inv_commit_prepared:
  assumes inv: "rows_inv s" and be: "be_rows be' = be_rows (sy_backends s b)"
    and p: "sy_prepared s = before @ rows # after" "sy_prepared t = before @ after"
    and t: "sy_db t = insert_queue rows (sy_db s)" "sy_backends t = (sy_backends s)(b := be')" "sy_worker t = sy_worker s"
  shows "rows_inv t"
proof (rule rows_inv_insert [OF inv _ _ t(1,3)])
  note facts = rows_inv_facts [OF inv] and removed = prepared_removed [OF inv p]
  show "ids_new (sy_db s) (qr_id ` set rows)" by (rule ids_new_subset [OF facts(6) removed(2)])
  show "distinct (map qr_id rows)" by (rule removed(3))
  have "pending_ids be' = pending_ids (sy_backends s b)" by (simp add: pending_ids_def be)
  then show "pending_ids (sy_backends t c) \<subseteq> pending_ids (sy_backends s c) - qr_id ` set rows
      \<and> distinct (map qr_id (be_rows (sy_backends t c)))" for c
    using facts(3) [of c] facts(7) [of c] removed(2) be by (cases "c = b") (auto simp: t(2))
  show "prepared_ids t \<subseteq> prepared_ids s - qr_id ` set rows \<and> distinct (map qr_id (concat (sy_prepared t)))"
    by (rule removed(1))
qed

lemma rows_inv_tables:
  assumes inv: "rows_inv s" and "db_ok (sy_db t)" and n: "next_id (sy_db t) = next_id (sy_db s)"
    and u: "used_ids (sy_db t) \<subseteq> used_ids (sy_db s)" and bes: "sy_backends t = sy_backends s"
    and p: "sy_prepared t = sy_prepared s" and "\<And>n rows. sy_worker t \<noteq> W_Batch n rows"
  shows "rows_inv t"
proof -
  note facts = rows_inv_facts [OF inv]
  have "ids_new (sy_db t) I" if "ids_new (sy_db s) I" for I
    by (rule ids_new_db [OF that, of _ "{}"]) (use u n in auto)
  with facts assms show ?thesis by (simp add: rows_inv_def prepared_ids_cong [OF p])
qed

lemma rows_inv_step:
  assumes st: "step lib env s t" and inv: "rows_inv s"
  shows "rows_inv t"
  using st
proof (cases rule: step.cases)
  case (be_enqueue b be ep m rq md os call_id db' w)
  show ?thesis
    by (rule rows_inv_enqueue [OF inv be_enqueue(4)]) (use be_enqueue in auto)
next
  case (be_rollback_to_savepoint b be k)
  then show ?thesis by (intro rows_inv_drop [OF inv, of t b "be\<lparr>be_rows := take k (be_rows be)\<rparr>" k]) auto
next
  case (be_commit b be)
  then show ?thesis by (intro rows_inv_commit [OF inv, of "be\<lparr>be_rows := [], be_phase := Be_Callback\<rparr>" t b]) auto
next
  case (be_abort b be w sw signal)
  then show ?thesis by (intro rows_inv_drop [OF inv, of t b "be\<lparr>be_rows := [], be_wake := w\<rparr>" 0]) auto
next
  case (be_prepare b be w sw signal)
  then show ?thesis by (intro rows_inv_prepare [OF inv, of t b "be\<lparr>be_rows := [], be_wake := w\<rparr>"]) auto
next
  case (be_commit_prepared b be before rows after)
  then show ?thesis
    by (intro rows_inv_commit_prepared [OF inv, of "be\<lparr>be_phase := Be_Callback\<rparr>" b before rows after t]) auto
next
  case (be_rollback_prepared b be before rows after)
  then show ?thesis by (intro rows_inv_rollback_prepared [OF inv, of t before rows after]) auto
next
  case (w_clean now db')
  have "db_ok (sy_db s)" using inv by (simp add: rows_inv_def)
  with w_clean have cl: "call_queue db' = call_queue (sy_db s) \<and> next_id db' = next_id (sy_db s) \<and> db_ok db'
      \<and> set (call_results db') \<subseteq> set (call_results (sy_db s))"
    using clean_up_keeps [of "we_pg env" "sy_guc s" now "sy_db s" db'] by blast
  then have "used_ids db' \<subseteq> used_ids (sy_db s)" unfolding used_ids_def queue_ids_def result_ids_def by auto
  with w_clean cl show ?thesis by (intro rows_inv_tables [OF inv]) auto
next
  case (w_dequeue n arrange rows db1)
  have "db_ok (sy_db s)" using inv by (simp add: rows_inv_def)
  then have "qr_id ` set rows \<subseteq> queue_ids (sy_db s) \<and> distinct (map qr_id rows)"
    using w_dequeue dequeue_ids by blast
  with w_dequeue inv show ?thesis
    by (intro rows_inv_mono [OF inv]) (auto simp: rows_inv_def prepared_ids_def)
next
  case (w_store n rows evs results caches now db')
  have ok: "db_ok (sy_db s)" and rows: "qr_id ` set rows \<subseteq> queue_ids (sy_db s)" "distinct (map qr_id rows)"
    using inv w_store unfolding rows_inv_def by blast+
  have out: "mset (map cr_id results) = mset (map qr_id rows)" using w_store by (auto dest: run_batch_ids)
  have eff: "db_ok db' \<and> next_id db' = next_id (sy_db s)
      \<and> call_queue db' = call_queue (delete_ids (qr_id ` set rows) (sy_db s))
      \<and> result_ids db' \<subseteq> result_ids (sy_db s) \<union> qr_id ` set rows"
    using w_store by (intro store_batch_effect [OF ok rows out]) auto
  have "queue_ids db' = queue_ids (sy_db s) - qr_id ` set rows"
    using eff queue_ids_delete [of "qr_id ` set rows" "sy_db s"] by (simp add: queue_ids_def)
  with eff rows(1) have "used_ids db' \<subseteq> used_ids (sy_db s)" unfolding used_ids_def by blast
  with w_store eff show ?thesis by (intro rows_inv_tables [OF inv]) auto
qed (auto intro!: rows_inv_same [OF inv] split: if_splits)

interpretation rows: inductive_invariant first_boot "step lib env" rows_inv
  by unfold_locales (auto simp: rows_inv_boot rows_inv_step)

lemma reachable_steps:
  "(step lib env)\<^sup>*\<^sup>* s t \<Longrightarrow> reachable start (step lib env) s \<Longrightarrow> reachable start (step lib env) t"
  by (induction rule: rtranclp_induct) (auto intro: reachable_step)

section \<open>Runs, for the witnesses\<close>

text \<open>A system in which the worker has slot 1 and the first settings.\<close>

definition sys ::
  "queue_db \<Rightarrow> queue_row list list \<Rightarrow> (nat \<Rightarrow> backend) \<Rightarrow> bool \<Rightarrow> nat \<Rightarrow> worker_pc \<Rightarrow> bool \<Rightarrow> bool
     \<Rightarrow> (nat, (string \<times> string list) list) system" where
  "sys db prepared backends should_wake ptr w latch sigterm =
     \<lparr>sy_db = db, sy_prepared = prepared, sy_backends = backends, sy_should_wake = should_wake,
      sy_latch_ptr = ptr, sy_worker = w, sy_slot = 1, sy_latch = latch, sy_sigterm = sigterm,
      sy_guc = guc_initial, sy_caches = \<lparr>ps_channels = [], ps_registry = []\<rparr>\<rparr>"

abbreviation sstep :: "nat wake_env \<Rightarrow> (nat, (string \<times> string list) list) system
    \<Rightarrow> (nat, (string \<times> string list) list) system \<Rightarrow> bool" where
  "sstep env \<equiv> step sample_lib env"

abbreviation sample_call :: queue_row where
  "sample_call \<equiv> call_row 1 ''h:1'' ''pkg.S/M'' (JString ''hello'') None sample_options 5000"

definition db_enqueued :: queue_db where
  "db_enqueued = empty_db\<lparr>next_id := 2\<rparr>"

definition db_committed :: queue_db where
  "db_committed = empty_db\<lparr>call_queue := [sample_call], next_id := 2\<rparr>"

definition caller :: "queue_row list \<Rightarrow> bool \<Rightarrow> be_phase \<Rightarrow> nat \<Rightarrow> backend" where
  "caller rows wake phase = (\<lambda>b. idle_backend)(0 := \<lparr>be_rows = rows, be_wake = wake, be_phase = phase\<rparr>)"

lemma boot_arrives:
  "(sstep env)\<^sup>*\<^sup>* (boot db guc_initial)
     (sys db [] (\<lambda>b. idle_backend) False 1 W_Waiting (we_latch_at_start env) False)"
proof -
  let ?s = "boot db guc_initial :: (nat, (string \<times> string list) list) system"
  have "sstep env ?s (sys db [] (\<lambda>b. idle_backend) False 0 W_Start (we_latch_at_start env) False)"
    using step.w_start [of ?s 1] by (simp add: boot_def sys_def)
  moreover have "sstep env (sys db [] (\<lambda>b. idle_backend) False 0 W_Start (we_latch_at_start env) False)
      (sys db [] (\<lambda>b. idle_backend) False 0 W_Connecting (we_latch_at_start env) False)"
    using step.w_clear [of "sys db [] (\<lambda>b. idle_backend) False 0 W_Start (we_latch_at_start env) False"]
    by (simp add: sys_def)
  moreover have "sstep env (sys db [] (\<lambda>b. idle_backend) False 0 W_Connecting (we_latch_at_start env) False)
      (sys db [] (\<lambda>b. idle_backend) False 1 W_Waiting (we_latch_at_start env) False)"
    using step.w_publish [of "sys db [] (\<lambda>b. idle_backend) False 0 W_Connecting (we_latch_at_start env) False"]
    by (simp add: sys_def)
  ultimately show ?thesis by (meson converse_rtranclp_into_rtranclp rtranclp.rtrancl_refl)
qed

lemma wake_up:
  "sstep env (sys db prep bes sw 1 W_Waiting True False) (sys db prep bes sw 1 W_Woken False False)"
  using step.w_wake [of "sys db prep bes sw 1 W_Waiting True False" _ _ "[]"]
  by (simp add: sys_def guc_reload_def)

lemma cas:
  "sstep env (sys db prep bes sw 1 W_Woken latch False)
     (sys db prep bes False 1 (if sw then W_Drain 200 else W_Waiting) latch False)"
  using step.w_cas [of "sys db prep bes sw 1 W_Woken latch False"]
  by (cases sw) (simp_all add: sys_def guc_batch_size_def guc_initial_def)

lemma park:
  "(sstep env)\<^sup>*\<^sup>* (sys db prep bes False 1 W_Waiting True False) (sys db prep bes False 1 W_Waiting False False)"
  using wake_up [of env db prep bes False] cas [of env db prep bes False False]
  by (simp add: converse_rtranclp_into_rtranclp r_into_rtranclp)

lemma caller_idle: "caller [] False Be_Running = (\<lambda>b. idle_backend)"
  by (auto simp: caller_def idle_backend_def)

lemma caller_simps [simp]:
  "caller rows wake phase 0 = \<lparr>be_rows = rows, be_wake = wake, be_phase = phase\<rparr>"
  "b \<noteq> 0 \<Longrightarrow> caller rows wake phase b = idle_backend"
  "(caller rows wake phase)(0 := \<lparr>be_rows = rows', be_wake = wake', be_phase = phase'\<rparr>) = caller rows' wake' phase'"
  by (simp_all add: caller_def)

lemma call_enqueued:
  "sstep env (sys empty_db prep (\<lambda>b. idle_backend) sw ptr w latch t)
     (sys db_enqueued prep (caller [sample_call] True Be_Running) sw ptr w latch t)"
proof -
  let ?s = "sys empty_db prep (\<lambda>b. idle_backend) sw ptr w latch t"
  have "grpc_call_async ''h:1'' ''pkg.S/M'' (JString ''hello'') None sample_options (sy_db ?s) (be_wake idle_backend)
      = Ok (1, db_committed, True)"
    using sample_enqueue by (simp add: sys_def idle_backend_def db_committed_def)
  from step.be_enqueue [of ?s 0 idle_backend, OF _ _ this] show ?thesis
    by (simp add: sys_def idle_backend_def set_backend_def db_enqueued_def db_committed_def caller_def)
qed

lemma call_committed:
  "sstep env (sys db_enqueued prep (caller [sample_call] True Be_Running) sw ptr w latch t)
     (sys db_committed prep (caller [] True Be_Callback) sw ptr w latch t)"
  using step.be_commit [of "sys db_enqueued prep (caller [sample_call] True Be_Running) sw ptr w latch t" 0, OF refl]
  by (simp add: sys_def set_backend_def db_enqueued_def db_committed_def insert_queue_def empty_db_def)

lemma call_announced:
  "sstep env (sys db prep (caller [] True Be_Callback) sw ptr w latch t)
     (sys db prep (caller [] False Be_Read_Latch) True ptr w latch t)"
  using step.be_callback [of "sys db prep (caller [] True Be_Callback) sw ptr w latch t" 0 _ False True True,
      OF refl]
  by (simp add: sys_def set_backend_def wake_worker_on_commit_def)

lemma no_latch_to_set:
  "sstep env (sys db prep (caller [] False Be_Read_Latch) sw 0 w latch t)
     (sys db prep (\<lambda>b. idle_backend) sw 0 w latch t)"
  using step.be_read_latch [of "sys db prep (caller [] False Be_Read_Latch) sw 0 w latch t" 0, OF refl]
  by (simp add: sys_def set_backend_def read_latch_def caller_idle)

lemma latch_read:
  "sstep env (sys db prep (caller [] False Be_Read_Latch) sw 1 w latch t)
     (sys db prep (caller [] False (Be_Set_Latch 1)) sw 1 w latch t)"
  using step.be_read_latch [of "sys db prep (caller [] False Be_Read_Latch) sw 1 w latch t" 0, OF refl]
  by (simp add: sys_def set_backend_def read_latch_def)

lemma latch_set:
  "owns_latch w \<Longrightarrow> sstep env (sys db prep (caller [] False (Be_Set_Latch 1)) sw 1 w latch t)
     (sys db prep (\<lambda>b. idle_backend) sw 1 w True t)"
  using step.be_set_latch [of "sys db prep (caller [] False (Be_Set_Latch 1)) sw 1 w latch t" 0 _ 1, OF refl]
  by (simp add: sys_def set_backend_def caller_idle)

text \<open>A call made while the worker sleeps wakes it.\<close>

lemma run_draining:
  "(sstep env)\<^sup>*\<^sup>*
     (sys empty_db [] (\<lambda>b. idle_backend) False 1 W_Waiting False False)
     (sys db_committed [] (\<lambda>b. idle_backend) False 1 (W_Drain 200) False False)"
proof -
  let ?s = "sys empty_db [] (\<lambda>b. idle_backend) False 1 W_Waiting False False"
  have "(sstep env)\<^sup>*\<^sup>* ?s ?s" by simp
  also note call_enqueued
  also note call_committed
  also note call_announced
  also note latch_read
  also have "sstep env (sys db_committed [] (caller [] False (Be_Set_Latch 1)) True 1 W_Waiting False False)
      (sys db_committed [] (\<lambda>b. idle_backend) True 1 W_Waiting True False)"
    by (rule latch_set) simp
  also note wake_up
  also note cas
  finally show ?thesis by simp
qed

lemma batch_taken:
  "sstep env (sys db_committed prep bes sw 1 (W_Drain 200) latch False)
     (sys db_committed prep bes sw 1 (W_Batch 200 [sample_call]) latch False)"
proof -
  let ?s = "sys db_committed prep bes sw 1 (W_Drain 200) latch False"
  obtain db1 where "dequeue (\<lambda>xs. xs) 200 (sy_db ?s) = Ok ([sample_call], db1)"
    by (auto simp: dequeue_Ok sys_def db_committed_def batch_ids_def)
  then show ?thesis
    using step.w_dequeue [of ?s 200 "\<lambda>xs. xs" "[sample_call]" db1 sample_lib env]
    by (simp add: sys_def arranges_id)
qed

lemma run_parked:
  "we_latch_at_start env \<Longrightarrow> (sstep env)\<^sup>*\<^sup>* (boot db guc_initial)
     (sys db [] (\<lambda>b. idle_backend) False 1 W_Waiting False False)"
  using boot_arrives [of env db] park [of env db "[]" "\<lambda>b. idle_backend"] by simp

lemma reachable_run:
  "(sstep env)\<^sup>*\<^sup>* (boot empty_db guc_initial) t \<Longrightarrow> reachable first_boot (sstep env) t"
proof -
  have "first_boot (boot empty_db guc_initial :: (nat, (string \<times> string list) list) system)"
    using guc_initial_batch_ok unfolding first_boot_def by blast
  then have "reachable first_boot (sstep env) (boot empty_db guc_initial)" by (rule reachable_start)
  then show "(sstep env)\<^sup>*\<^sup>* (boot empty_db guc_initial) t \<Longrightarrow> reachable first_boot (sstep env) t"
    using reachable_steps by blast
qed

section \<open>Theorems\<close>

text \<open>The worker sleeps: nobody has set its latch, and no backend is on its way to do so.\<close>

definition parked :: "('ch, 'p) system \<Rightarrow> bool" where
  "parked s \<longleftrightarrow> sy_worker s = W_Waiting \<and> \<not> sy_latch s \<and> (\<forall>b. be_phase (sy_backends s b) = Be_Running)"

definition sample_env :: "nat wake_env" where
  "sample_env =
     \<lparr>we_latch_at_start = True, we_two_phase = False, we_sigterm_clears = False, we_lock_waits = False,
      we_pg = sample_pg, we_net = sample_nets\<rparr>"

lemma parked_empty:
  assumes "wake_inv s" and "parked s"
  shows "call_queue (sy_db s) = []"
proof (rule ccontr)
  assume "call_queue (sy_db s) \<noteq> []"
  then have "remembered s" using assms(1) by (simp add: wake_inv_def)
  moreover have "sy_worker s = W_Waiting" "\<not> sy_latch s" using assms(2) by (simp_all add: parked_def)
  moreover have "\<not> announcing (sy_backends s b)" "\<not> signalling p (sy_backends s b)" for b p
    using assms(2) by (simp_all add: parked_def announcing_def signalling_def)
  moreover have "\<not> sy_sigterm s" using assms by (auto simp: wake_inv_def latch_inv_def parked_def)
  ultimately have "sy_should_wake s" by (simp add: remembered_def)
  with assms(1) \<open>sy_worker s = W_Waiting\<close> have "heard s" by (simp add: wake_inv_def)
  with \<open>\<not> sy_latch s\<close> \<open>\<And>b p. \<not> signalling p (sy_backends s b)\<close> show False by (simp add: heard_def)
qed

text \<open>
  C2: no lost wake-up.  However enqueues, commits, aborts, callbacks, latch accesses, signals, crashes
  and restarts interleave, a worker that sleeps with nobody about to wake it leaves no committed call
  in the queue.  Two steps are left out: a SIGTERM taken by the inner loop of a drain where asking for
  it clears it, and, where a drain may wait for locks, a lock wait that takes back a latch set for a
  wake-up or a SIGTERM the worker has yet to see.
\<close>

theorem no_lost_wakeup:
  assumes "env_ok env" and "reachable first_boot (calm_step lib env) s" and "parked s"
  shows "call_queue (sy_db s) = []"
  using wake.reachable_inv [OF assms(2)] assms(1,3) parked_empty by blast

theorem no_lost_wakeup_witness:
  "\<exists>s :: (nat, (string \<times> string list) list) system.
     reachable first_boot (calm_step sample_lib sample_env) s \<and> parked s \<and> call_queue (sy_db s) = []"
proof -
  let ?t = "sys empty_db [] (\<lambda>b. idle_backend) False 1 W_Waiting False False"
  have e: "env_ok sample_env" by (simp add: env_ok_def sample_env_def)
  have "(sstep sample_env)\<^sup>*\<^sup>* (boot empty_db guc_initial) ?t"
    by (rule run_parked) (simp add: sample_env_def)
  then have "reachable first_boot (sstep sample_env) ?t" by (rule reachable_run)
  moreover have "\<not> we_sigterm_clears sample_env" "\<not> we_lock_waits sample_env" by (simp_all add: sample_env_def)
  ultimately have r: "reachable first_boot (calm_step sample_lib sample_env) ?t" by (simp add: calm_step_all)
  have p: "parked ?t" by (simp add: parked_def sys_def idle_backend_def)
  show ?thesis using r p no_lost_wakeup [OF e r p] by blast
qed

text \<open>
  C10: the tables and the open transactions stay consistent: in every state a run reaches, primary keys
  are distinct, no id is in both tables, the rows of the running batch are still queued, and no two
  transactions that are open or prepared, nor one and the tables, hold the same id.
\<close>

theorem reachable_tables_ok:
  assumes "reachable first_boot (step lib env) s"
  shows "db_ok (sy_db s)
     \<and> (\<forall>b. pending_ids (sy_backends s b) \<inter> (queue_ids (sy_db s) \<union> result_ids (sy_db s)) = {})
     \<and> (\<forall>b c. b \<noteq> c \<longrightarrow> pending_ids (sy_backends s b) \<inter> pending_ids (sy_backends s c) = {})
     \<and> prepared_ids s \<inter> (queue_ids (sy_db s) \<union> result_ids (sy_db s)) = {}
     \<and> (\<forall>b. pending_ids (sy_backends s b) \<inter> prepared_ids s = {})
     \<and> distinct (map qr_id (concat (sy_prepared s)))
     \<and> (\<forall>n rows. sy_worker s = W_Batch n rows \<longrightarrow> qr_id ` set rows \<subseteq> queue_ids (sy_db s))"
  using rows.reachable_inv [OF assms] by (simp add: rows_inv_def used_ids_def ids_new_def)

lemma run_committed:
  "(sstep env)\<^sup>*\<^sup>* (boot empty_db guc_initial)
     (sys db_committed [] (caller [] True Be_Callback) False 1 W_Waiting (we_latch_at_start env) False)"
  using boot_arrives [of env empty_db] call_enqueued call_committed
  by (meson rtranclp.rtrancl_into_rtrancl)

theorem reachable_tables_ok_witness:
  "\<exists>s. reachable first_boot (sstep sample_env) s \<and> call_queue (sy_db s) = [sample_call] \<and> db_ok (sy_db s)"
proof -
  let ?t = "sys db_committed [] (caller [] True Be_Callback) False 1 W_Waiting (we_latch_at_start sample_env) False"
  have r: "reachable first_boot (sstep sample_env) ?t" by (rule reachable_run [OF run_committed])
  have q: "call_queue (sy_db ?t) = [sample_call]" by (simp add: sys_def db_committed_def)
  have "db_ok (sy_db ?t)" using reachable_tables_ok [OF r] by (rule conjunct1)
  with r q show ?thesis by (intro exI [of _ ?t] conjI)
qed

text \<open>The worker of the sample system, with the sample call as its batch.\<close>

abbreviation batch_state :: "(nat, (string \<times> string list) list) system" where
  "batch_state \<equiv> sys db_committed [] (\<lambda>b. idle_backend) False 1 (W_Batch 200 [sample_call]) False False"

lemma sample_batch_reached: "reachable first_boot (sstep sample_env) batch_state"
proof (rule reachable_run)
  have "(sstep sample_env)\<^sup>*\<^sup>* (boot empty_db guc_initial)
      (sys empty_db [] (\<lambda>b. idle_backend) False 1 W_Waiting False False)"
    by (rule run_parked) (simp add: sample_env_def)
  also note run_draining
  also note batch_taken
  finally show "(sstep sample_env)\<^sup>*\<^sup>* (boot empty_db guc_initial) batch_state" .
qed

text \<open>
  C8: what becomes of a batch that has run, in every reachable state: the worker stores it, the calls leave
  the queue, each has the result of its task (unless the clean-up of the same transaction has already
  expired it, which takes a cutoff in the future) and the drain goes on; or the transaction fails, and
  then because \<open>jsonb\<close> refused the value of a success or because the arithmetic of the \<open>ttl\<close> raised.  The
  constraints of the table never fail, although other transactions have committed since the dequeue.
\<close>

theorem running_batch_stores:
  assumes reach: "reachable first_boot (step lib env) s" and w: "sy_worker s = W_Batch n rows"
    and nets: "\<forall>t net. Poll t net \<in> set evs \<longrightarrow> we_net env net"
    and run: "run_batch lib evs rows (sy_caches s) = Some (results, caches)"
  shows "case store_batch (we_pg env) (sy_guc s) now results (delete_ids (qr_id ` set rows) (sy_db s)) of
       Ok db' \<Rightarrow>
         step lib env s (s\<lparr>sy_db := db', sy_caches := caches, sy_worker := W_Drain n\<rparr>)
         \<and> queue_ids db' = queue_ids (sy_db s) - qr_id ` set rows
         \<and> cr_id ` set results = qr_id ` set rows
         \<and> (\<forall>r \<in> set results. result_row_of now r \<in> set (call_results db')
              \<or> (\<exists>c. pg_cutoff (we_pg env) now (guc_ttl (sy_guc s)) = Spi_Ok c \<and> now < c))
     | Err e \<Rightarrow>
         (\<exists>r v msg. r \<in> set results \<and> cr_outcome r = Outcome_Success v \<and> pg_jsonb (we_pg env) v = Err msg \<and> e = Raised msg)
         \<or> (\<exists>msg. pg_cutoff (we_pg env) now (guc_ttl (sy_guc s)) = Spi_Raise msg \<and> e = Raised msg)"
proof -
  note facts = rows_inv_facts [OF rows.reachable_inv [OF reach]]
  have rows: "qr_id ` set rows \<subseteq> queue_ids (sy_db s)" "distinct (map qr_id rows)"
    using facts(9) [OF w] by simp_all
  have out: "mset (map cr_id results) = mset (map qr_id rows)" using run by (rule run_batch_ids)
  note ids = batch_ids_of_rows [OF out]
  let ?db = "delete_ids (qr_id ` set rows) (sy_db s)"
  show ?thesis
  proof (cases "store_batch (we_pg env) (sy_guc s) now results ?db")
    case (Ok db')
    note eff = store_batch_effect [OF facts(1) rows out Ok]
    have "queue_ids db' = queue_ids (sy_db s) - qr_id ` set rows"
      using eff queue_ids_delete [of "qr_id ` set rows" "sy_db s"] by (simp add: queue_ids_def)
    moreover have "step lib env s (s\<lparr>sy_db := db', sy_caches := caches, sy_worker := W_Drain n\<rparr>)"
      by (rule step.w_store [OF w nets run Ok])
    moreover have "result_row_of now r \<in> set (call_results db')
        \<or> (\<exists>c. pg_cutoff (we_pg env) now (guc_ttl (sy_guc s)) = Spi_Ok c \<and> now < c)" if "r \<in> set results" for r
      using Ok that by (rule store_batch_kept)
    ultimately show ?thesis using ids(1) Ok by simp
  next
    case (Err e)
    have "distinct (map cr_id results) \<and> cr_id ` set results \<inter> result_ids ?db = {}"
      using rows facts(1) ids unfolding db_ok_def by auto
    from store_batch_Err [OF Err this] Err show ?thesis by simp
  qed
qed

theorem running_batch_stores_witness:
  "\<exists>db'. reachable first_boot (sstep sample_env) batch_state \<and> 1 \<notin> queue_ids db'
     \<and> result_row_of 100 \<lparr>cr_id = 1, cr_outcome = Outcome_Success (JString ''hello'')\<rparr> \<in> set (call_results db')
     \<and> (\<exists>caches. sstep sample_env batch_state (batch_state\<lparr>sy_db := db', sy_caches := caches, sy_worker := W_Drain 200\<rparr>))"
proof -
  let ?evs = "round_robin sample_net [sample_call]"
  let ?db = "delete_ids (qr_id ` set [sample_call]) (sy_db batch_state)"
  have w: "sy_worker batch_state = W_Batch 200 [sample_call]" by (simp add: sys_def)
  have nets: "\<forall>t net. Poll t net \<in> set ?evs \<longrightarrow> we_net sample_env net"
    using round_robin_polls by (auto simp: sample_env_def)
  have "map_option fst (run_batch sample_lib ?evs [sample_call] (sy_caches batch_state)) =
      Some [\<lparr>cr_id = 1, cr_outcome = Outcome_Success (JString ''hello'')\<rparr>]"
    by code_simp
  then obtain results caches where
      run: "run_batch sample_lib ?evs [sample_call] (sy_caches batch_state) = Some (results, caches)"
      and res: "results = [\<lparr>cr_id = 1, cr_outcome = Outcome_Success (JString ''hello'')\<rparr>]"
    by auto
  have fit: "storable (pg_jsonb (we_pg sample_env)) r" if "r \<in> set results" for r
    using that by (simp add: res storable_def sample_env_def sample_pg_def sample_jsonb_def)
  have "cutoff_past (pg_cutoff (we_pg sample_env)) (guc_ttl (sy_guc batch_state)) 100"
    using six_hours_past by (simp add: sample_env_def sample_pg_def)
  moreover have ok: "db_ok (sy_db batch_state)" "qr_id ` set [sample_call] \<subseteq> queue_ids (sy_db batch_state)"
    using rows_inv_facts(1,9) [OF rows.reachable_inv [OF sample_batch_reached]] w by blast+
  ultimately obtain db' where
      db': "store_batch (we_pg sample_env) (sy_guc batch_state) 100 results ?db = Ok db'"
      "result_row_of 100 (hd results) \<in> set (call_results db')"
    using store_batch_fits [OF ok _ _ _, of results "we_pg sample_env" "sy_guc batch_state" 100] fit
    by (auto simp: res call_row_def)
  have "sstep sample_env batch_state (batch_state\<lparr>sy_db := db', sy_caches := caches, sy_worker := W_Drain 200\<rparr>)
      \<and> queue_ids db' = queue_ids (sy_db batch_state) - qr_id ` set [sample_call]"
    using running_batch_stores [OF sample_batch_reached w nets run, of 100] unfolding db'(1) by simp
  moreover have "1 \<in> qr_id ` set [sample_call]" by (simp add: call_row_def)
  ultimately show ?thesis using db'(2) sample_batch_reached unfolding res list.sel by blast
qed

text \<open>
  The commit callback: only a commit with a call enqueued signals the worker, and it always does;
  a commit or an abort leaves the backend's flag down, every other event leaves it alone, and no event
  takes back a signal already given.
\<close>

theorem commit_callback_spec:
  "wake_worker_on_commit event wake_cb should_wake = (w, sw, signal) \<longleftrightarrow>
     signal = (wake_cb \<and> (event = Xact_Commit \<or> event = Xact_Parallel_Commit))
     \<and> sw = (should_wake \<or> signal)
     \<and> w = (wake_cb \<and> event \<notin> {Xact_Commit, Xact_Parallel_Commit, Xact_Abort, Xact_Parallel_Abort})"
  by (cases event) (auto simp: wake_worker_on_commit_def)

section \<open>Where a committed call can be forgotten\<close>

text \<open>
  C38: with prepared transactions the wake-up can be lost: PREPARE TRANSACTION does not announce the
  calls of its transaction, and a COMMIT PREPARED in another session, whose own flag is down, does not
  either; the worker sleeps on a queue with a committed call.
\<close>

theorem prepared_commit_not_announced:
  "\<exists>env s. we_latch_at_start env \<and> \<not> we_sigterm_clears env
     \<and> reachable first_boot (sstep env) s \<and> parked s \<and> call_queue (sy_db s) \<noteq> []"
proof -
  let ?env = "sample_env\<lparr>we_two_phase := True\<rparr>"
  let ?bes = "caller [] True Be_Running"
  let ?s1 = "sys db_enqueued [] (caller [sample_call] True Be_Running) False 1 W_Waiting False False"
  let ?s2 = "sys db_enqueued [[sample_call]] ?bes False 1 W_Waiting False False"
  let ?s3 = "sys db_committed [] (?bes(1 := idle_backend\<lparr>be_phase := Be_Callback\<rparr>)) False 1 W_Waiting False False"
  let ?s4 = "sys db_committed [] (?bes(1 := idle_backend)) False 1 W_Waiting False False"
  have "(sstep ?env)\<^sup>*\<^sup>* (boot empty_db guc_initial)
      (sys empty_db [] (\<lambda>b. idle_backend) False 1 W_Waiting False False)"
    by (rule run_parked) (simp add: sample_env_def)
  also have "sstep ?env \<dots> ?s1" by (rule call_enqueued)
  also have "sstep ?env ?s1 ?s2"
    using step.be_prepare [of ?env ?s1 0 _ True False False, OF _ refl]
    by (simp add: sys_def set_backend_def wake_worker_on_commit_def)
  also have "sstep ?env ?s2 ?s3"
    using step.be_commit_prepared [of ?env ?s2 1 idle_backend "[]" "[sample_call]" "[]"]
    by (simp add: sys_def set_backend_def insert_queue_def db_enqueued_def db_committed_def empty_db_def idle_backend_def)
  also have "sstep ?env ?s3 ?s4"
    using step.be_callback [of ?s3 1 _ False False False, OF refl]
    by (simp add: sys_def set_backend_def wake_worker_on_commit_def idle_backend_def)
  finally have "reachable first_boot (sstep ?env) ?s4" by (rule reachable_run)
  moreover have "parked ?s4" by (simp add: parked_def sys_def idle_backend_def caller_def)
  moreover have "call_queue (sy_db ?s4) \<noteq> []" by (simp add: sys_def db_committed_def)
  moreover have "we_latch_at_start ?env \<and> \<not> we_sigterm_clears ?env" by (simp add: sample_env_def)
  ultimately show ?thesis by blast
qed

text \<open>
  C39: calls that are still queued when the server is shut down are not resumed by the next start: the
  tables survive a clean restart and the shared flag does not, so the new worker finds nothing to
  wake up for, and sleeps.
\<close>

theorem restart_forgets_queue:
  "\<exists>s. reachable (\<lambda>s. s = boot db_committed guc_initial) (sstep sample_env) s
     \<and> parked s \<and> call_queue (sy_db s) \<noteq> []"
proof -
  let ?t = "sys db_committed [] (\<lambda>b. idle_backend) False 1 W_Waiting False False"
  have "(sstep sample_env)\<^sup>*\<^sup>* (boot db_committed guc_initial) ?t"
    by (rule run_parked) (simp add: sample_env_def)
  then have "reachable (\<lambda>s. s = boot db_committed guc_initial) (sstep sample_env) ?t"
    by (rule reachable_steps) (simp add: reachable_start)
  moreover have "parked ?t" "call_queue (sy_db ?t) \<noteq> []"
    by (simp_all add: parked_def sys_def idle_backend_def db_committed_def)
  ultimately show ?thesis by blast
qed

text \<open>
  C40: if asking for SIGTERM clears the answer, a SIGTERM that arrives during a drain is lost: the inner
  loop takes it and leaves, the outer loop no longer sees it, and the worker goes back to sleep, alive,
  with calls in the queue.
\<close>

theorem sigterm_in_drain_lost:
  "\<exists>env s. env = sample_env\<lparr>we_sigterm_clears := True\<rparr>
     \<and> reachable first_boot (sstep env) s \<and> parked s \<and> \<not> sy_sigterm s \<and> call_queue (sy_db s) \<noteq> []
     \<and> (\<exists>u. reachable first_boot (sstep env) u \<and> sy_sigterm u \<and> (sstep env)\<^sup>*\<^sup>* u s)"
proof -
  let ?env = "sample_env\<lparr>we_sigterm_clears := True\<rparr>"
  let ?s1 = "sys db_committed [] (\<lambda>b. idle_backend) False 1 (W_Drain 200) False False"
  let ?u = "sys db_committed [] (\<lambda>b. idle_backend) False 1 (W_Drain 200) True True"
  let ?s2 = "sys db_committed [] (\<lambda>b. idle_backend) False 1 W_Waiting True False"
  let ?s3 = "sys db_committed [] (\<lambda>b. idle_backend) False 1 W_Waiting False False"
  have "(sstep ?env)\<^sup>*\<^sup>* (boot empty_db guc_initial)
      (sys empty_db [] (\<lambda>b. idle_backend) False 1 W_Waiting False False)"
    by (rule run_parked) (simp add: sample_env_def)
  also note run_draining
  also have "sstep ?env ?s1 ?u" using step.sig_term [of ?s1] by (simp add: sys_def)
  finally have u: "(sstep ?env)\<^sup>*\<^sup>* (boot empty_db guc_initial) ?u" .
  have "sstep ?env ?u ?s2" using step.w_break [of ?u 200 sample_lib ?env] by (simp add: sys_def)
  then have us: "(sstep ?env)\<^sup>*\<^sup>* ?u ?s3" using park by (rule converse_rtranclp_into_rtranclp)
  have "reachable first_boot (sstep ?env) ?u" using u by (rule reachable_run)
  moreover have "reachable first_boot (sstep ?env) ?s3" by (rule reachable_run [OF rtranclp_trans [OF u us]])
  moreover have "parked ?s3" "\<not> sy_sigterm ?s3" "call_queue (sy_db ?s3) \<noteq> []" "sy_sigterm ?u"
    by (simp_all add: parked_def sys_def idle_backend_def db_committed_def)
  ultimately show ?thesis using us by blast
qed

text \<open>
  C16: if a statement of a drain waits for a lock, it waits on the latch of the worker and resets it: a
  call committed and announced after the last, empty, dequeue of the drain is then not seen.  The worker
  goes back to sleep with the flag raised and the call in the queue, and nobody is left to wake it.
\<close>

theorem lock_wait_loses_wakeup:
  "\<exists>env s. env = sample_env\<lparr>we_lock_waits := True\<rparr>
     \<and> reachable first_boot (sstep env) s \<and> parked s \<and> sy_should_wake s \<and> call_queue (sy_db s) \<noteq> []"
proof -
  let ?env = "sample_env\<lparr>we_lock_waits := True\<rparr>"
  let ?idle = "\<lambda>sw ptr w latch. sys empty_db [] (\<lambda>b. idle_backend) sw ptr w latch False"
  let ?called = "\<lambda>w latch. sys db_committed [] (\<lambda>b. idle_backend) True 1 w latch False"
  have "(sstep ?env)\<^sup>*\<^sup>* (boot empty_db guc_initial) (?idle False 1 W_Waiting False)"
    by (rule run_parked) (simp add: sample_env_def)
  also have "sstep ?env (?idle False 1 W_Waiting False) (?idle False 1 (W_Exit_Hook False) False)"
    using step.w_crash [of "?idle False 1 W_Waiting False" sample_lib ?env] by (simp add: sys_def)
  also have "sstep ?env (?idle False 1 (W_Exit_Hook False) False) (?idle True 1 (W_Exit_Clear False) False)"
    using step.w_exit_hook [of "?idle False 1 (W_Exit_Hook False) False" False sample_lib ?env] by (simp add: sys_def)
  also have "sstep ?env (?idle True 1 (W_Exit_Clear False) False) (?idle True 0 W_Dead False)"
    using step.w_exit_clear [of "?idle True 1 (W_Exit_Clear False) False" False sample_lib ?env] by (simp add: sys_def)
  also have "sstep ?env (?idle True 0 W_Dead False) (?idle True 0 W_Start True)"
    using step.w_start [of "?idle True 0 W_Dead False" 1 sample_lib ?env] by (simp add: sys_def sample_env_def)
  also have "sstep ?env (?idle True 0 W_Start True) (?idle True 0 W_Connecting True)"
    using step.w_clear [of "?idle True 0 W_Start True" sample_lib ?env] by (simp add: sys_def)
  also have "sstep ?env (?idle True 0 W_Connecting True) (?idle True 1 W_Waiting True)"
    using step.w_publish [of "?idle True 0 W_Connecting True" sample_lib ?env] by (simp add: sys_def)
  also note wake_up
  also have "sstep ?env (?idle True 1 W_Woken False) (?idle False 1 (W_Drain 200) False)"
    using cas [of ?env empty_db "[]" "\<lambda>b. idle_backend" True False] by simp
  also have "sstep ?env (?idle False 1 (W_Drain 200) False) (?idle False 1 W_Cleaning False)"
    using step.w_empty [of "?idle False 1 (W_Drain 200) False" 200 "\<lambda>xs. xs" empty_db sample_lib ?env]
    by (simp add: sys_def arranges_id dequeue_Ok batch_ids_def delete_ids_def empty_db_def)
  also note call_enqueued
  also note call_committed
  also note call_announced
  also note latch_read
  also have "sstep ?env (sys db_committed [] (caller [] False (Be_Set_Latch 1)) True 1 W_Cleaning False False)
      (?called W_Cleaning True)"
    by (rule latch_set) simp
  also have "sstep ?env (?called W_Cleaning True) (?called W_Cleaning False)"
    using step.w_lock_wait [of ?env "?called W_Cleaning True" sample_lib] by (simp add: sys_def)
  also have "sstep ?env (?called W_Cleaning False) (?called W_Waiting False)"
    using step.w_clean [of "?called W_Cleaning False" ?env 100 db_committed sample_lib]
    by (simp add: sys_def clean_up_def ttl_cleanup_def sample_env_def sample_pg_def six_hours_def db_committed_def empty_db_def)
  finally have "reachable first_boot (sstep ?env) (?called W_Waiting False)" by (rule reachable_run)
  moreover have "parked (?called W_Waiting False)" by (simp add: parked_def sys_def idle_backend_def)
  moreover have "sy_should_wake (?called W_Waiting False)" "call_queue (sy_db (?called W_Waiting False)) \<noteq> []"
    by (simp_all add: sys_def db_committed_def)
  ultimately show ?thesis by blast
qed

text \<open>
  The exit hook runs after the process has given up its slot, so for a moment the shared pointer names a
  latch that no longer belongs to the worker.
\<close>

theorem latch_pointer_dangles:
  "\<exists>s. reachable first_boot (sstep sample_env) s \<and> sy_latch_ptr s \<noteq> 0 \<and> \<not> owns_latch (sy_worker s)"
proof -
  let ?s = "sys empty_db [] (\<lambda>b. idle_backend) False 1 W_Waiting False False"
  let ?t = "sys empty_db [] (\<lambda>b. idle_backend) False 1 (W_Exit_Hook False) False False"
  have "(sstep sample_env)\<^sup>*\<^sup>* (boot empty_db guc_initial) ?s"
    by (rule run_parked) (simp add: sample_env_def)
  moreover have "sstep sample_env ?s ?t"
    using step.w_crash [of ?s sample_lib sample_env] by (simp add: sys_def)
  ultimately have "(sstep sample_env)\<^sup>*\<^sup>* (boot empty_db guc_initial) ?t"
    by (rule rtranclp.rtrancl_into_rtrancl)
  then have "reachable first_boot (sstep sample_env) ?t" by (rule reachable_run)
  moreover have "sy_latch_ptr ?t \<noteq> 0" "\<not> owns_latch (sy_worker ?t)" by (simp_all add: sys_def)
  ultimately show ?thesis by blast
qed

end
