(* ===== verification/Lifecycle.thy ===== *)
theory Lifecycle
  imports Wake
begin

text \<open>
  What the queue promises its callers, as a small automaton, and the proof that the interleaved system of
  \<open>Wake\<close> implements it.  An id is first free, then a row of an open (or prepared) transaction, then a row
  of the queue, then an answered call, and in the end gone; it never goes back.  The answer is a result of
  the very row that was queued.
\<close>

section \<open>The life of a call\<close>

datatype call_state =
    Free
  | Open queue_row
  | Queued queue_row
  | Answered result_row
  | Gone

text \<open>
  \<open>F\<close>: the clean-up may reach into the future (a negative \<open>ttl\<close>), so that a call can be answered and
  expire in the same transaction.
\<close>

inductive life ::
  "('p, 'f, 'd, 'm) grpc_lib \<Rightarrow> ('ch, 'p) world \<Rightarrow> bool \<Rightarrow> i64 \<Rightarrow> call_state \<Rightarrow> call_state \<Rightarrow> bool"
  for lib :: "('p, 'f, 'd, 'm) grpc_lib" and W :: "('ch, 'p) world" and F :: bool and i :: i64 where
  life_enqueue: "qr_id row = i \<Longrightarrow> life lib W F i Free (Open row)"
| life_commit: "life lib W F i (Open row) (Queued row)"
| life_abort: "life lib W F i (Open row) Gone"
| life_answer: "answers lib W row r \<Longrightarrow> life lib W F i (Queued row) (Answered (result_row_of now r))"
| life_expire: "life lib W F i (Answered a) Gone"
| life_lapse: "F \<Longrightarrow> answers lib W row r \<Longrightarrow> life lib W F i (Queued row) Gone"

inductive_cases life_from_Queued: "life lib W F i (Queued row) c"
inductive_cases life_from_Gone: "life lib W F i Gone c"

lemma life_Gone: "(life lib W F i)\<^sup>*\<^sup>* Gone c \<Longrightarrow> c = Gone"
  by (induction rule: rtranclp_induct) (auto elim: life_from_Gone)



text \<open>Whether a call can lapse makes no difference but that edge.\<close>

lemma life_mono: "life lib W F i c d \<Longrightarrow> (F \<Longrightarrow> F') \<Longrightarrow> life lib W F' i c d"
  by (induction rule: life.induct) (auto intro: life.intros)

text \<open>The states in the order in which a call passes through them.\<close>

instantiation call_state :: preorder
begin

fun stage :: "call_state \<Rightarrow> nat" where
  "stage Free = 0"
| "stage (Open row) = 1"
| "stage (Queued row) = 2"
| "stage (Answered a) = 3"
| "stage Gone = 4"

definition less_eq_call_state :: "call_state \<Rightarrow> call_state \<Rightarrow> bool" where
  "c \<le> d \<longleftrightarrow> stage c \<le> stage d"

definition less_call_state :: "call_state \<Rightarrow> call_state \<Rightarrow> bool" where
  "c < d \<longleftrightarrow> stage c < stage d"

instance
  by standard (auto simp: less_eq_call_state_def less_call_state_def)

end

lemma life_less: "life lib W F i c d \<Longrightarrow> c < d"
  by (induction rule: life.induct) (simp_all add: less_call_state_def)

lemma life_le: "(life lib W F i)\<^sup>*\<^sup>* c d \<Longrightarrow> c \<le> d"
  by (induction rule: rtranclp_induct) (auto dest: life_less less_imp_le order_trans)

section \<open>Where a call of the system stands\<close>

text \<open>The rows of transactions that are open or prepared.\<close>

definition open_rows :: "('ch, 'p) system \<Rightarrow> queue_row set" where
  "open_rows s = (\<Union>b. set (be_rows (sy_backends s b))) \<union> set (concat (sy_prepared s))"

definition open_ids :: "('ch, 'p) system \<Rightarrow> i64 set" where
  "open_ids s = qr_id ` open_rows s"

fun in_state :: "i64 \<Rightarrow> ('ch, 'p) system \<Rightarrow> call_state \<Rightarrow> bool" where
  "in_state i s Free \<longleftrightarrow> \<not> (0 < sint i \<and> sint i < next_id (sy_db s))"
| "in_state i s (Open row) \<longleftrightarrow> qr_id row = i \<and> row \<in> open_rows s"
| "in_state i s (Queued row) \<longleftrightarrow> qr_id row = i \<and> row \<in> set (call_queue (sy_db s))"
| "in_state i s (Answered a) \<longleftrightarrow> res_id a = i \<and> a \<in> set (call_results (sy_db s))"
| "in_state i s Gone \<longleftrightarrow>
     0 < sint i \<and> sint i < next_id (sy_db s) \<and> i \<notin> used_ids (sy_db s) \<and> i \<notin> open_ids s"

text \<open>The id of a row, by the table or transaction that holds it.\<close>

lemma id_memberships:
  "row \<in> set (call_queue db) \<Longrightarrow> qr_id row \<in> queue_ids db"
  "a \<in> set (call_results db) \<Longrightarrow> res_id a \<in> result_ids db"
  "row \<in> open_rows s \<Longrightarrow> qr_id row \<in> open_ids s"
  by (simp_all add: queue_ids_def result_ids_def open_ids_def)

lemma open_ids_eq: "open_ids s = (\<Union>b. pending_ids (sy_backends s b)) \<union> prepared_ids s"
  unfolding open_ids_def open_rows_def pending_ids_def prepared_ids_def by blast

lemma open_ids_new:
  assumes "rows_inv s"
  shows "ids_new (sy_db s) (open_ids s)"
  using rows_inv_facts(4,6) [OF assms] unfolding open_ids_eq ids_new_def by blast

lemma open_rows_inj:
  assumes inv: "rows_inv s"
  shows "inj_on qr_id (open_rows s)"
proof (rule inj_onI)
  fix r r'
  assume r: "r \<in> open_rows s" "r' \<in> open_rows s" "qr_id r = qr_id r'"
  note facts = rows_inv_facts [OF inv]
  have be: "qr_id x \<in> pending_ids (sy_backends s b)" if "x \<in> set (be_rows (sy_backends s b))" for x b
    using that by (simp add: pending_ids_def)
  have prep: "qr_id x \<in> prepared_ids s" if "x \<in> set (concat (sy_prepared s))" for x
    using that unfolding prepared_ids_def by (rule imageI)
  consider b b' where "r \<in> set (be_rows (sy_backends s b))" "r' \<in> set (be_rows (sy_backends s b'))"
    | b where "r \<in> set (be_rows (sy_backends s b))" "r' \<in> set (concat (sy_prepared s))"
    | b where "r \<in> set (concat (sy_prepared s))" "r' \<in> set (be_rows (sy_backends s b))"
    | "r \<in> set (concat (sy_prepared s))" "r' \<in> set (concat (sy_prepared s))"
    using r(1,2) unfolding open_rows_def by blast
  then show "r = r'"
  proof cases
    case (1 b b')
    have "b = b'" using be [OF 1(1)] be [OF 1(2)] r(3) facts(8) [of b b'] by auto
    with 1 r(3) facts(3) [of b] show ?thesis by (auto simp: distinct_map dest: inj_onD)
  next
    case (2 b)
    with be prep r(3) facts(7) [of b] show ?thesis by (metis IntI empty_iff)
  next
    case (3 b)
    with be prep r(3) facts(7) [of b] show ?thesis by (metis IntI empty_iff)
  next
    case 4
    with facts(5) r(3) show ?thesis unfolding distinct_map by (blast dest: inj_onD)
  qed
qed

lemma rows_inv_parts:
  assumes "rows_inv s"
  shows "queue_ids (sy_db s) \<inter> result_ids (sy_db s) = {}"
    and "open_ids s \<inter> used_ids (sy_db s) = {}"
    and "i \<in> used_ids (sy_db s) \<Longrightarrow> 0 < sint i \<and> sint i < next_id (sy_db s)"
    and "i \<in> open_ids s \<Longrightarrow> 0 < sint i \<and> sint i < next_id (sy_db s)"
    and "inj_on qr_id (set (call_queue (sy_db s)))"
    and "inj_on res_id (set (call_results (sy_db s)))"
  using assms open_ids_new [OF assms]
  by (simp_all add: rows_inv_def db_ok_def distinct_map used_ids_def ids_new_def)

lemma rows_inv_disjoint:
  assumes "rows_inv s"
  shows "i \<in> queue_ids (sy_db s) \<Longrightarrow> i \<notin> result_ids (sy_db s)"
    and "i \<in> open_ids s \<Longrightarrow> i \<notin> queue_ids (sy_db s) \<and> i \<notin> result_ids (sy_db s)"
  using rows_inv_parts(1,2) [OF assms] by (auto simp: used_ids_def)

lemma in_range:
  assumes "rows_inv s"
    and "i \<in> queue_ids (sy_db s) \<or> i \<in> result_ids (sy_db s) \<or> i \<in> open_ids s"
  shows "0 < sint i \<and> sint i < next_id (sy_db s)"
  using rows_inv_parts(3,4) [OF assms(1)] assms(2) unfolding used_ids_def by blast

lemma state_total:
  assumes inv: "rows_inv s"
  shows "\<exists>c. in_state i s c"
proof -
  consider "\<not> (0 < sint i \<and> sint i < next_id (sy_db s))" | "i \<in> queue_ids (sy_db s)" | "i \<in> result_ids (sy_db s)"
    | "i \<in> open_ids s"
    | "0 < sint i \<and> sint i < next_id (sy_db s)" "i \<notin> used_ids (sy_db s)" "i \<notin> open_ids s"
    unfolding used_ids_def by blast
  then show ?thesis
  proof cases
    case 1
    then have "in_state i s Free" by simp
    then show ?thesis ..
  next
    case 2
    then obtain row where "in_state i s (Queued row)" by (auto simp: queue_ids_def)
    then show ?thesis ..
  next
    case 3
    then obtain a where "in_state i s (Answered a)" by (auto simp: result_ids_def)
    then show ?thesis ..
  next
    case 4
    then obtain row where "in_state i s (Open row)" by (auto simp: open_ids_def)
    then show ?thesis ..
  next
    case 5
    then have "in_state i s Gone" by simp
    then show ?thesis ..
  qed
qed

text \<open>One state per id: the five are told apart by where the id is.\<close>

definition where_is :: "i64 \<Rightarrow> ('ch, 'p) system \<Rightarrow> bool \<times> bool \<times> bool \<times> bool" where
  "where_is i s =
     (i \<in> queue_ids (sy_db s), i \<in> result_ids (sy_db s), i \<in> open_ids s,
      0 < sint i \<and> sint i < next_id (sy_db s))"

fun place_of :: "call_state \<Rightarrow> bool \<times> bool \<times> bool \<times> bool" where
  "place_of Free = (False, False, False, False)"
| "place_of (Open row) = (False, False, True, True)"
| "place_of (Queued row) = (True, False, False, True)"
| "place_of (Answered a) = (False, True, False, True)"
| "place_of Gone = (False, False, False, True)"

lemma in_state_where:
  assumes inv: "rows_inv s" and c: "in_state i s c"
  shows "where_is i s = place_of c"
proof (cases c)
  case Free
  with c in_range [OF inv, of i] show ?thesis by (auto simp: where_is_def)
next
  case (Open row)
  with c have "i \<in> open_ids s" by (auto dest: id_memberships)
  with Open rows_inv_disjoint(2) [OF inv] in_range [OF inv, of i] show ?thesis by (auto simp: where_is_def)
next
  case (Queued row)
  with c have "i \<in> queue_ids (sy_db s)" by (auto dest: id_memberships)
  with Queued rows_inv_disjoint(1,2) [OF inv] in_range [OF inv, of i] show ?thesis by (auto simp: where_is_def)
next
  case (Answered a)
  with c have "i \<in> result_ids (sy_db s)" by (auto dest: id_memberships)
  with Answered rows_inv_disjoint(1,2) [OF inv] in_range [OF inv, of i] show ?thesis by (auto simp: where_is_def)
next
  case Gone
  with c show ?thesis by (auto simp: where_is_def used_ids_def)
qed

lemma state_unique:
  assumes inv: "rows_inv s" and c: "in_state i s c" and d: "in_state i s d"
  shows "c = d"
proof -
  have same: "place_of c = place_of d" using in_state_where [OF inv c] in_state_where [OF inv d] by simp
  show ?thesis
  proof (cases c)
    case (Open row)
    with same obtain row' where d': "d = Open row'" by (cases d) auto
    with c d Open inj_onD [OF open_rows_inj [OF inv]] show ?thesis by simp
  next
    case (Queued row)
    with same obtain row' where d': "d = Queued row'" by (cases d) auto
    with c d Queued inj_onD [OF rows_inv_parts(5) [OF inv]] show ?thesis by simp
  next
    case (Answered a)
    with same obtain a' where d': "d = Answered a'" by (cases d) auto
    with c d Answered inj_onD [OF rows_inv_parts(6) [OF inv]] show ?thesis by simp
  qed (use same in \<open>cases d; simp\<close>)+
qed

section \<open>What the steps do to a call\<close>

text \<open>A step that leaves tables and open transactions alone.\<close>

lemma in_state_same:
  assumes "in_state i s c" and "sy_db t = sy_db s" and "open_rows t = open_rows s"
  shows "in_state i t c"
  using assms by (cases c) (auto simp: open_ids_def)

text \<open>Rows of a transaction undone, by a rollback.\<close>

lemma in_state_drop:
  assumes inv: "rows_inv s" and c: "in_state i s c" and db: "sy_db t = sy_db s"
    and sub: "open_rows t \<subseteq> open_rows s"
  shows "\<exists>c'. in_state i t c' \<and> (life lib W F i)\<^sup>=\<^sup>= c c'"
proof (cases "\<exists>row. c = Open row \<and> row \<notin> open_rows t")
  case True
  then obtain row where row: "c = Open row" "row \<notin> open_rows t" by blast
  with c have own: "qr_id row = i" "row \<in> open_rows s" by auto
  have i: "i \<in> open_ids s" using id_memberships(3) [OF own(2)] own(1) by simp
  have "i \<notin> open_ids t"
  proof
    assume "i \<in> open_ids t"
    then obtain row' where row': "row' \<in> open_rows t" "qr_id row' = i" by (auto simp: open_ids_def)
    then have "in_state i s (Open row')" using sub by auto
    from state_unique [OF inv c this] row(1) have "row' = row" by simp
    with row' row(2) show False by blast
  qed
  then have "in_state i t Gone"
    using in_range [OF inv, of i] rows_inv_disjoint(2) [OF inv i] i by (simp add: db used_ids_def)
  with row(1) life_abort show ?thesis by blast
next
  case False
  have "in_state i t c" using c False sub by (cases c) (auto simp: db open_ids_def)
  then show ?thesis by blast
qed

text \<open>A call made in an open transaction takes the next id.\<close>

lemma in_state_enqueue:
  assumes inv: "rows_inv s" and c: "in_state i s c"
    and row: "qr_id row = word_of_int (next_id (sy_db s))" "next_id (sy_db s) \<le> i64_max"
    and db: "sy_db t = (sy_db s)\<lparr>next_id := next_id (sy_db s) + 1\<rparr>"
    and new: "open_rows t = insert row (open_rows s)"
  shows "\<exists>c'. in_state i t c' \<and> (life lib W F i)\<^sup>=\<^sup>= c c'"
proof -
  have pos: "0 < next_id (sy_db s)" using inv by (simp add: rows_inv_def)
  have num: "sint (qr_id row) = next_id (sy_db s)" using sint_next_call_id [OF pos row(2)] row(1) by simp
  show ?thesis
  proof (cases "i = qr_id row")
    case True
    with c num in_state_where [OF inv c] have "c = Free" by (cases c) (auto simp: where_is_def)
    moreover have "in_state i t (Open row)" using True new by simp
    ultimately show ?thesis using life_enqueue True by blast
  next
    case False
    then have ne: "sint i \<noteq> next_id (sy_db s)" using num by (metis signed_word_eqI)
    have "in_state i t c"
    proof (cases c)
      case Free
      with c ne show ?thesis by (auto simp: db)
    next
      case Gone
      with c False show ?thesis by (simp add: db new open_ids_def used_ids_def queue_ids_def result_ids_def)
    qed (use c in \<open>auto simp: db new\<close>)
    then show ?thesis by blast
  qed
qed

text \<open>A commit publishes the rows of one transaction, open or prepared.\<close>

lemma in_state_commit:
  assumes inv: "rows_inv s" and c: "in_state i s c"
    and db: "sy_db t = insert_queue rows (sy_db s)"
    and rows: "set rows \<subseteq> open_rows s" "open_rows s \<subseteq> open_rows t \<union> set rows" "open_rows t \<subseteq> open_rows s"
  shows "\<exists>c'. in_state i t c' \<and> (life lib W F i)\<^sup>=\<^sup>= c c'"
proof (cases "\<exists>row. c = Open row \<and> row \<in> set rows")
  case True
  then obtain row where row: "c = Open row" "row \<in> set rows" by blast
  with c have "in_state i t (Queued row)" by (simp add: db insert_queue_def)
  with row(1) life_commit show ?thesis by blast
next
  case False
  have "in_state i t c"
  proof (cases c)
    case (Open row)
    with c False rows(2) show ?thesis by auto
  next
    case Gone
    have "qr_id ` set rows \<subseteq> open_ids s" "open_ids t \<subseteq> open_ids s"
      using rows unfolding open_ids_def by blast+
    moreover have "used_ids (sy_db t) = used_ids (sy_db s) \<union> qr_id ` set rows"
      by (auto simp: db used_ids_def)
    moreover have "next_id (sy_db t) = next_id (sy_db s)" by (simp add: db insert_queue_def)
    ultimately show ?thesis using c Gone by auto
  qed (use c in \<open>auto simp: db insert_queue_def\<close>)
  then show ?thesis by blast
qed

text \<open>The worker commits: rows leave the queue with an answer, old results expire.\<close>

lemma in_state_tables:
  assumes inv: "rows_inv s" and c: "in_state i s c"
    and bes: "open_rows t = open_rows s" and nxt: "next_id (sy_db t) = next_id (sy_db s)"
    and queue: "set (call_queue (sy_db t)) \<subseteq> set (call_queue (sy_db s))"
    and ans: "\<And>row. row \<in> set (call_queue (sy_db s)) \<Longrightarrow> row \<notin> set (call_queue (sy_db t)) \<Longrightarrow>
        \<exists>r now. answers lib W row r
          \<and> (result_row_of now r \<in> set (call_results (sy_db t)) \<or> F \<and> qr_id row \<notin> result_ids (sy_db t))"
    and used: "used_ids (sy_db t) \<subseteq> used_ids (sy_db s)"
    and res: "\<And>a. a \<in> set (call_results (sy_db t)) \<Longrightarrow> res_id a \<in> result_ids (sy_db s) \<Longrightarrow> a \<in> set (call_results (sy_db s))"
  shows "\<exists>c'. in_state i t c' \<and> (life lib W F i)\<^sup>=\<^sup>= c c'"
proof (cases c)
  case (Queued row)
  show ?thesis
  proof (cases "row \<in> set (call_queue (sy_db t))")
    case True
    with c Queued have "in_state i t c" by simp
    then show ?thesis by blast
  next
    case False
    with ans [of row] c Queued obtain r now where r: "answers lib W row r"
        "result_row_of now r \<in> set (call_results (sy_db t)) \<or> F \<and> qr_id row \<notin> result_ids (sy_db t)"
      by auto
    show ?thesis
    proof (cases "result_row_of now r \<in> set (call_results (sy_db t))")
      case True
      with c Queued r(1) have "in_state i t (Answered (result_row_of now r))" by (simp add: answers_def)
      with Queued r(1) life_answer show ?thesis by blast
    next
      case lapsed: False
      have id: "qr_id row = i" "row \<in> set (call_queue (sy_db s))" using c Queued by auto
      have i: "i \<in> queue_ids (sy_db s)" using id_memberships(1) [OF id(2)] id(1) by simp
      have "i \<notin> queue_ids (sy_db t)"
      proof
        assume "i \<in> queue_ids (sy_db t)"
        then obtain row' where row': "row' \<in> set (call_queue (sy_db t))" "qr_id row' = i"
          by (auto simp: queue_ids_def)
        with queue inj_onD [OF rows_inv_parts(5) [OF inv], of row' row] id False show False by auto
      qed
      moreover have "i \<notin> result_ids (sy_db t)" using r(2) lapsed id(1) by blast
      moreover have "i \<notin> open_ids s" using rows_inv_disjoint(2) [OF inv, of i] i by blast
      ultimately have "in_state i t Gone"
        using in_range [OF inv, of i] i bes by (simp add: nxt used_ids_def open_ids_def)
      moreover have "life lib W F i (Queued row) Gone" using r lapsed by (intro life_lapse) auto
      ultimately show ?thesis using Queued by blast
    qed
  qed
next
  case (Answered a)
  show ?thesis
  proof (cases "a \<in> set (call_results (sy_db t))")
    case True
    with c Answered have "in_state i t c" by simp
    then show ?thesis by blast
  next
    case False
    from c Answered have a: "res_id a = i" "a \<in> set (call_results (sy_db s))" by auto
    have i: "i \<in> result_ids (sy_db s)" using id_memberships(2) [OF a(2)] a(1) by simp
    have "i \<notin> result_ids (sy_db t)"
    proof
      assume "i \<in> result_ids (sy_db t)"
      then obtain a' where a': "a' \<in> set (call_results (sy_db t))" "res_id a' = i" by (auto simp: result_ids_def)
      with res i have "in_state i s (Answered a')" by auto
      from state_unique [OF inv c this] Answered have "a' = a" by simp
      with a' False show False by simp
    qed
    moreover have "i \<notin> queue_ids (sy_db t)"
      using rows_inv_disjoint(1) [OF inv, of i] i queue by (auto simp: queue_ids_def)
    moreover have "i \<notin> open_ids s" using rows_inv_disjoint(2) [OF inv, of i] i by blast
    ultimately have "in_state i t Gone"
      using in_range [OF inv, of i] i bes by (simp add: nxt used_ids_def open_ids_def)
    with Answered life_expire show ?thesis by blast
  qed
next
  case Gone
  with c used bes have "in_state i t c" by (auto simp: nxt open_ids_def)
  then show ?thesis by blast
next
  case Free
  with c have "in_state i t c" by (simp add: nxt)
  then show ?thesis by blast
next
  case (Open row)
  with c have "in_state i t c" by (simp add: bes)
  then show ?thesis by blast
qed

text \<open>The clean-up after an empty dequeue, and the commit of a batch.\<close>

lemma in_state_clean:
  assumes inv: "rows_inv s" and c: "in_state i s c"
    and cl: "clean_up pg g now (sy_db s) = Ok (sy_db t)" and bes: "open_rows t = open_rows s"
  shows "\<exists>c'. in_state i t c' \<and> (life lib W F i)\<^sup>=\<^sup>= c c'"
proof -
  note keeps = clean_up_keeps [OF cl]
  have "used_ids (sy_db t) \<subseteq> used_ids (sy_db s)"
    using keeps by (auto simp: used_ids_def queue_ids_def result_ids_def)
  with keeps show ?thesis by (intro in_state_tables [OF inv c bes]) auto
qed

text \<open>The cutoff of some clean-up lies after its own transaction.\<close>

definition future_cutoff :: "pg_api \<Rightarrow> string \<Rightarrow> bool" where
  "future_cutoff pg ttl \<longleftrightarrow> (\<exists>now c. pg_cutoff pg now ttl = Spi_Ok c \<and> now < c)"

lemma in_state_store:
  assumes inv: "rows_inv s" and c: "in_state i s c" and bes: "open_rows t = open_rows s"
    and rows: "set rows \<subseteq> set (call_queue (sy_db s))" "distinct (map qr_id rows)"
    and own: "mset joined = mset rows" "list_all2 (answers lib W) joined results"
    and store: "store_batch pg g now results (delete_ids (qr_id ` set rows) (sy_db s)) = Ok (sy_db t)"
  shows "\<exists>c'. in_state i t c' \<and> (life lib W (future_cutoff pg (guc_ttl g)) i)\<^sup>=\<^sup>= c c'"
proof -
  have ok: "db_ok (sy_db s)" using inv by (simp add: rows_inv_def)
  have sub: "qr_id ` set rows \<subseteq> queue_ids (sy_db s)" using rows(1) by (auto simp: queue_ids_def)
  have "map cr_id results = map qr_id joined"
    using own(2) by (induction joined results rule: list_all2_induct) (auto simp: answers_def)
  then have out: "mset (map cr_id results) = mset (map qr_id rows)" using own(1) by simp
  note eff = store_batch_effect [OF ok sub rows(2) out store]
  let ?db = "delete_ids (qr_id ` set rows) (sy_db s)"
  obtain db1 where ins: "insert_results (pg_jsonb pg) results now ?db = Ok db1"
      and cl: "clean_up pg g now db1 = Ok (sy_db t)"
    using store by (auto simp: store_batch_def bind_result_Ok)
  have db1: "call_results db1 = call_results (sy_db s) @ map (result_row_of now) results"
    using ins by (simp add: insert_results_Ok delete_ids_def)
  have origins: "a \<in> set (call_results (sy_db s)) \<or> (\<exists>r \<in> set results. a = result_row_of now r)"
    if "a \<in> set (call_results (sy_db t))" for a
    using that clean_up_keeps [OF cl] db1 by auto
  have queue: "set (call_queue (sy_db t)) = {row \<in> set (call_queue (sy_db s)). qr_id row \<notin> qr_id ` set rows}"
    using eff by (auto simp: delete_ids_def)
  have res_ids: "cr_id ` set results = qr_id ` set rows" by (rule batch_ids_of_rows(1) [OF out])
  have not_old: "qr_id row \<notin> result_ids (sy_db s)" if "row \<in> set rows" for row
    using that sub rows_inv_disjoint(1) [OF inv] by blast
  have inj: "inj_on cr_id (set results)"
    using batch_ids_of_rows(2) [OF out] rows(2) by (simp add: distinct_map)
  show ?thesis
  proof (rule in_state_tables [OF inv c bes])
    show "next_id (sy_db t) = next_id (sy_db s)" using eff by simp
    show "set (call_queue (sy_db t)) \<subseteq> set (call_queue (sy_db s))" using queue by auto
    show "used_ids (sy_db t) \<subseteq> used_ids (sy_db s)"
      using eff sub queue by (auto simp: used_ids_def queue_ids_def)
  next
    fix row
    assume row: "row \<in> set (call_queue (sy_db s))" "row \<notin> set (call_queue (sy_db t))"
    then obtain row' where row': "row' \<in> set rows" "qr_id row' = qr_id row" using queue by auto
    have same: "row' = row" using inj_onD [OF rows_inv_parts(5) [OF inv] row'(2)] row(1) row'(1) rows(1) by blast
    with own_result [OF own row'(1)] obtain r where r: "answers lib W row r" "r \<in> set results" by blast
    have "result_row_of now r \<in> set (call_results (sy_db t)) \<or> future_cutoff pg (guc_ttl g)"
      using store_batch_kept [OF store r(2)] unfolding future_cutoff_def by blast
    moreover have "qr_id row \<notin> result_ids (sy_db t)" if gone: "result_row_of now r \<notin> set (call_results (sy_db t))"
    proof
      assume "qr_id row \<in> result_ids (sy_db t)"
      then obtain a where a: "a \<in> set (call_results (sy_db t))" "res_id a = qr_id row" by (auto simp: result_ids_def)
      from a not_old [of row] row' same id_memberships(2) [of a "sy_db s"] origins [OF a(1)]
      obtain r' where r': "r' \<in> set results" "a = result_row_of now r'" by auto
      have "cr_id r' = cr_id r" using a(2) r(1) r'(2) by (simp add: answers_def)
      with inj_onD [OF inj] r' r(2) a(1) gone show False by blast
    qed
    ultimately show "\<exists>r now. answers lib W row r
        \<and> (result_row_of now r \<in> set (call_results (sy_db t))
             \<or> future_cutoff pg (guc_ttl g) \<and> qr_id row \<notin> result_ids (sy_db t))"
      using r(1) by blast
  next
    fix a
    assume a: "a \<in> set (call_results (sy_db t))" "res_id a \<in> result_ids (sy_db s)"
    moreover have False if "r \<in> set results" "a = result_row_of now r" for r
    proof -
      have "res_id a \<in> qr_id ` set rows" using that res_ids by auto
      with not_old a(2) show False by auto
    qed
    ultimately show "a \<in> set (call_results (sy_db s))" using origins by blast
  qed
qed

section \<open>The system implements the automaton\<close>

text \<open>The networks of the system, and whether its clean-up can reach into the future at all.\<close>

abbreviation sys_world :: "('p, 'f, 'd, 'm) grpc_lib \<Rightarrow> 'ch wake_env \<Rightarrow> ('ch, 'p) world" where
  "sys_world lib env \<equiv> env_world lib (we_net env)"

definition lapses :: "pg_api \<Rightarrow> bool" where
  "lapses pg \<longleftrightarrow> (\<exists>ttl. future_cutoff pg ttl)"

definition service_inv :: "('p, 'f, 'd, 'm) grpc_lib \<Rightarrow> 'ch wake_env \<Rightarrow> ('ch, 'p) system \<Rightarrow> bool" where
  "service_inv lib env s \<longleftrightarrow>
     rows_inv s \<and> caches_known lib (we_net env) (sy_caches s)
     \<and> (\<forall>n rows. sy_worker s = W_Batch n rows \<longrightarrow> set rows \<subseteq> set (call_queue (sy_db s)))"

lemma service_inv_step:
  assumes st: "step lib env s t" and inv: "service_inv lib env s"
  shows "service_inv lib env t"
proof -
  have rows: "rows_inv s" and known: "caches_known lib (we_net env) (sy_caches s)"
    and batch: "\<And>n rows. sy_worker s = W_Batch n rows \<Longrightarrow> set rows \<subseteq> set (call_queue (sy_db s))"
    using inv by (auto simp: service_inv_def)
  have "rows_inv t" by (rule rows_inv_step [OF st rows])
  moreover have "caches_known lib (we_net env) (sy_caches t)"
    using st
  proof (cases rule: step.cases)
    case (w_store n rows evs results caches now db')
    from run_batch_env [OF w_store(4) known] w_store show ?thesis by simp
  qed (use known in \<open>auto split: if_splits\<close>)
  moreover have "set rows \<subseteq> set (call_queue (sy_db t))" if "sy_worker t = W_Batch n rows" for n rows
    using st
  proof (cases rule: step.cases)
    case (w_dequeue n arrange rows db1)
    with that dequeue_rows(1) [of arrange n "sy_db s" rows db1] show ?thesis by auto
  next
    case (be_commit b be)
    with that batch show ?thesis by (auto simp: insert_queue_def)
  next
    case (be_commit_prepared b be before rows after)
    with that batch show ?thesis by (auto simp: insert_queue_def)
  qed (use that batch in \<open>auto split: if_splits\<close>)
  ultimately show ?thesis by (simp add: service_inv_def)
qed

lemma service_rows: "service_inv lib env s \<Longrightarrow> rows_inv s"
  by (simp add: service_inv_def)

lemma service_inv_boot: "first_boot s \<Longrightarrow> service_inv lib env s"
  by (auto simp: service_inv_def rows_inv_boot) (auto simp: first_boot_def boot_def)

lemma open_rows_upd:
  assumes "sy_backends t = (sy_backends s)(b := be)" and "sy_prepared t = sy_prepared s"
  shows "set (be_rows be) = set (be_rows (sy_backends s b)) \<Longrightarrow> open_rows t = open_rows s"
    and "set (be_rows be) \<subseteq> set (be_rows (sy_backends s b)) \<Longrightarrow> open_rows t \<subseteq> open_rows s"
    and "set (be_rows be) = insert row (set (be_rows (sy_backends s b))) \<Longrightarrow> open_rows t = insert row (open_rows s)"
    and "open_rows s \<subseteq> open_rows t \<union> set (be_rows (sy_backends s b))"
proof -
  let ?rows = "\<lambda>s c. set (be_rows (sy_backends s c))" and ?prep = "set (concat (sy_prepared s))"
  have t: "open_rows t = (\<Union>c \<in> - {b}. ?rows s c) \<union> set (be_rows be) \<union> ?prep"
    unfolding open_rows_def assms by (auto split: if_splits)
  have s: "open_rows s = (\<Union>c \<in> - {b}. ?rows s c) \<union> ?rows s b \<union> ?prep"
    unfolding open_rows_def by blast
  show "set (be_rows be) = ?rows s b \<Longrightarrow> open_rows t = open_rows s" unfolding s t by blast
  show "set (be_rows be) \<subseteq> ?rows s b \<Longrightarrow> open_rows t \<subseteq> open_rows s" unfolding s t by blast
  show "set (be_rows be) = insert row (?rows s b) \<Longrightarrow> open_rows t = insert row (open_rows s)" unfolding s t by blast
  show "open_rows s \<subseteq> open_rows t \<union> ?rows s b" unfolding s t by blast
qed

lemma open_rows_same:
  "sy_backends t = sy_backends s \<Longrightarrow> sy_prepared t = sy_prepared s \<Longrightarrow> open_rows t = open_rows s"
  by (simp add: open_rows_def)

text \<open>Each step takes a call along at most one edge, with the \<open>ttl\<close> then in force.\<close>

lemma life_step:
  fixes s t :: "('ch, 'p) system"
  assumes st: "step lib env s t" and inv: "service_inv lib env s" and c: "in_state i s c"
  shows "\<exists>c'. in_state i t c'
     \<and> (life lib (sys_world lib env :: ('ch, 'p) world) (future_cutoff (we_pg env) (guc_ttl (sy_guc s))) i)\<^sup>=\<^sup>= c c'"
proof -
  have rows: "rows_inv s" and known: "caches_known lib (we_net env) (sy_caches s)"
    and batch: "\<And>n rows. sy_worker s = W_Batch n rows \<Longrightarrow> set rows \<subseteq> set (call_queue (sy_db s))"
    using inv by (auto simp: service_inv_def)
  let ?life = "life lib (sys_world lib env :: ('ch, 'p) world) (future_cutoff (we_pg env) (guc_ttl (sy_guc s))) i"
  have same: "\<exists>c'. in_state i t c' \<and> ?life\<^sup>=\<^sup>= c c'" if "sy_db t = sy_db s" "open_rows t = open_rows s"
    using in_state_same [OF c that] by blast
  have still: "\<exists>c'. in_state i t c' \<and> ?life\<^sup>=\<^sup>= c c'"
    if "sy_db t = sy_db s \<and> sy_backends t = sy_backends s \<and> sy_prepared t = sy_prepared s"
    by (rule same [OF conjunct1 [OF that] open_rows_same [OF conjunct1 conjunct2, OF conjunct2 conjunct2, OF that that]])
  show ?thesis
    using st
  proof (cases rule: step.cases)
    case (be_enqueue b be ep m rq md os call_id db' w)
    let ?row = "last (call_queue db')"
    have "qr_id ?row = word_of_int (next_id (sy_db s))" "next_id (sy_db s) \<le> i64_max"
        "next_id db' = next_id (sy_db s) + 1"
      using be_enqueue by (auto simp: grpc_call_async_Ok next_call_id_Ok insert_queue_def)
    moreover have "open_rows t = insert ?row (open_rows s)"
      using be_enqueue by (intro open_rows_upd(3) [of t s b]) auto
    ultimately show ?thesis
      by (intro in_state_enqueue [OF rows c, of ?row t]) (use be_enqueue in auto)
  next
    case (be_rollback_to_savepoint b be k)
    then have "open_rows t \<subseteq> open_rows s" by (intro open_rows_upd(2) [of t s b]) (auto dest: in_set_takeD)
    with be_rollback_to_savepoint show ?thesis by (intro in_state_drop [OF rows c]) auto
  next
    case (be_commit b be)
    have "set (be_rows be) \<subseteq> open_rows s" using be_commit by (auto simp: open_rows_def)
    moreover have "open_rows s \<subseteq> open_rows t \<union> set (be_rows be)"
      using open_rows_upd(4) [of t s b] be_commit by auto
    moreover have "open_rows t \<subseteq> open_rows s" using be_commit by (intro open_rows_upd(2) [of t s b]) auto
    ultimately show ?thesis by (intro in_state_commit [OF rows c, of t "be_rows be"]) (use be_commit in auto)
  next
    case (be_callback b be w sw signal)
    then have "open_rows t = open_rows s" unfolding open_rows_def by (auto split: if_splits)
    with be_callback show ?thesis by (intro same) auto
  next
    case (be_abort b be w sw signal)
    then have "open_rows t \<subseteq> open_rows s" by (intro open_rows_upd(2) [of t s b]) auto
    with be_abort show ?thesis by (intro in_state_drop [OF rows c]) auto
  next
    case (be_read_latch b be)
    then have "open_rows t = open_rows s" unfolding open_rows_def by (auto split: if_splits)
    with be_read_latch show ?thesis by (intro same) auto
  next
    case (be_set_latch b be ptr)
    then have "open_rows t = open_rows s" unfolding open_rows_def by (auto split: if_splits)
    with be_set_latch show ?thesis by (intro same) auto
  next
    case (be_prepare b be w sw signal)
    then have "open_rows t = open_rows s" unfolding open_rows_def by (auto split: if_splits)
    with be_prepare show ?thesis by (intro same) auto
  next
    case (be_commit_prepared b be before rws after)
    then have "be_rows (sy_backends t c) = be_rows (sy_backends s c)" for c by simp
    then have "set rws \<subseteq> open_rows s" "open_rows s \<subseteq> open_rows t \<union> set rws" "open_rows t \<subseteq> open_rows s"
      using be_commit_prepared unfolding open_rows_def by auto
    then show ?thesis by (intro in_state_commit [OF rows c, of t rws]) (use be_commit_prepared in auto)
  next
    case (be_rollback_prepared b be before rws after)
    then have "open_rows t \<subseteq> open_rows s" unfolding open_rows_def by auto
    with be_rollback_prepared show ?thesis by (intro in_state_drop [OF rows c]) auto
  next
    case (w_clean now db')
    then have "open_rows t = open_rows s" by (intro open_rows_same) simp_all
    with w_clean show ?thesis by (intro in_state_clean [OF rows c, of "we_pg env" "sy_guc s" now]) simp_all
  next
    case (w_store n rws evs results caches now db')
    obtain joined where own: "mset joined = mset rws"
        "list_all2 (answers lib (sys_world lib env :: ('ch, 'p) world)) joined results"
      using run_batch_env [OF w_store(4) known] w_store(3) by blast
    have dist: "distinct (map qr_id rws)" using rows_inv_facts(9) [OF rows w_store(2)] by blast
    have "open_rows t = open_rows s" using w_store by (intro open_rows_same) simp_all
    with w_store show ?thesis
      by (intro in_state_store [OF rows c _ batch [OF w_store(2)] dist own, of t "we_pg env" "sy_guc s" now]) simp_all
  qed (rule still, simp split: if_splits)+
qed

lemma life_step_any:
  fixes s t :: "('ch, 'p) system"
  assumes "step lib env s t" and "service_inv lib env s" and "in_state i s c"
  shows "\<exists>c'. in_state i t c' \<and> (life lib (sys_world lib env :: ('ch, 'p) world) (lapses (we_pg env)) i)\<^sup>=\<^sup>= c c'"
proof -
  have "lapses (we_pg env)" if "future_cutoff (we_pg env) (guc_ttl (sy_guc s))" using that by (auto simp: lapses_def)
  with life_step [OF assms] life_mono show ?thesis by (metis sup2CI sup2E)
qed

interpretation life: simulation first_boot "step lib env" "service_inv lib env :: ('ch, 'p) system \<Rightarrow> bool"
  "in_state i" "life lib (sys_world lib env :: ('ch, 'p) world) (lapses (we_pg env)) i"
proof (unfold_locales, goal_cases)
  case (1 s) then show ?case by (rule service_inv_boot)
next
  case (2 s t) then show ?case by (rule service_inv_step)
next
  case (3 s) then show ?case by (intro state_total service_rows)
next
  case (4 s a b) then show ?case by (intro state_unique [OF service_rows])
next
  case (5 s t a) then show ?case by (intro life_step_any)
qed

text \<open>Along any run a call only moves forward.\<close>

lemma call_moves_forward:
  fixes s t :: "('ch, 'p) system"
  assumes "reachable first_boot (step lib env) s" and "(step lib env)\<^sup>*\<^sup>* s t"
    and "in_state i s c" and "in_state i t c'"
  shows "c \<le> c'"
  using life.sim_steps_to [OF assms] by (rule life_le)

section \<open>Theorems\<close>



lemma sample_answer:
  assumes "answers sample_lib (sys_world sample_lib sample_env) sample_call r" and "cr_outcome r = Outcome_Success v"
  shows "v = JString ''hello''"
proof -
  from assms obtain opts where
      "reply_of sample_lib (sys_world sample_lib sample_env) (row_args sample_call opts) (Ok v)"
    by (auto simp: answers_def)
  from sample_reply [OF this] show ?thesis
    by (simp add: env_world_def sample_env_def row_args_def call_row_def)
qed

text \<open>
  C3: the system refines the automaton: whatever step a backend, the worker or the server takes, prepared
  transactions included, each id stays where it is or moves along one edge of its life.  A queued call
  leaves the queue only when its own result is stored in the same step: the reply of one of the networks to its own
  request, over a channel dialled for its own endpoint and TLS settings, or an error, timeout or panic of its own.  The one way to miss that
  answer is a \<open>ttl\<close> then in force whose cutoff can lie in the future (a negative interval), which removes
  the result in the transaction that stores it.  No call is answered twice or comes back.
\<close>

theorem system_refines_life:
  fixes s t :: "('ch, 'p) system"
  assumes "reachable first_boot (step lib env) s" and "step lib env s t"
    and "in_state i s c" and "in_state i t c'"
  shows "c' = c
     \<or> life lib (env_world lib (we_net env) :: ('ch, 'p) world) (future_cutoff (we_pg env) (guc_ttl (sy_guc s))) i c c'"
proof -
  have inv: "service_inv lib env s" by (rule life.reachable_inv [OF assms(1)])
  have inv_t: "service_inv lib env t" by (rule service_inv_step [OF assms(2) inv])
  from life_step [OF assms(2) inv assms(3)] obtain d where d: "in_state i t d"
      "(life lib (sys_world lib env :: ('ch, 'p) world) (future_cutoff (we_pg env) (guc_ttl (sy_guc s))) i)\<^sup>=\<^sup>= c d"
    by blast
  have "c' = d" by (rule state_unique [OF service_rows [OF inv_t] assms(4) d(1)])
  with d(2) show ?thesis by auto
qed

theorem system_refines_life_witness:
  "\<exists>t now r. sstep sample_env batch_state t \<and> in_state 1 batch_state (Queued sample_call)
     \<and> in_state 1 t (Answered (result_row_of now r))
     \<and> answers sample_lib (env_world sample_lib sample_nets :: (nat, (string \<times> string list) list) world) sample_call r
     \<and> (case cr_outcome r of Outcome_Success v \<Rightarrow> v = JString ''hello'' | Outcome_Error m \<Rightarrow> True)"
proof -
  let ?evs = "round_robin sample_net [sample_call]"
  have w: "sy_worker batch_state = W_Batch 200 [sample_call]" by (simp add: sys_def)
  have nets: "\<forall>t net. Poll t net \<in> set ?evs \<longrightarrow> we_net sample_env net"
    using round_robin_polls by (auto simp: sample_env_def)
  obtain results caches where run:
      "run_batch sample_lib ?evs [sample_call] (sy_caches batch_state) = Some (results, caches)"
    using round_robin_finishes [of sample_lib sample_net "[sample_call]" "sy_caches batch_state"] by auto
  have known: "caches_known sample_lib (we_net sample_env) (sy_caches batch_state)" by (simp add: sys_def)
  from run_batch_env [OF run known] nets obtain joined where joined: "mset joined = mset [sample_call]"
      "list_all2 (answers sample_lib (sys_world sample_lib sample_env)) joined results"
    by blast
  have "replies_fit sample_lib sample_pg (sys_world sample_lib sample_env) (set [sample_call])"
    using sample_replies_fit [of "set [sample_call]"] by (simp add: sample_env_def call_row_def)
  from batch_storable [OF this joined]
  have fits: "\<forall>r \<in> set results. storable (pg_jsonb (we_pg sample_env)) r" by (simp add: sample_env_def)
  obtain r where r: "r \<in> set results" "answers sample_lib (sys_world sample_lib sample_env) sample_call r"
    using own_result [OF joined, of sample_call] by auto
  have out: "mset (map cr_id results) = mset (map qr_id [sample_call])" using run by (rule run_batch_ids)
  have ok: "db_ok (sy_db batch_state)" and sub: "qr_id ` set [sample_call] \<subseteq> queue_ids (sy_db batch_state)"
      "distinct (map qr_id [sample_call])"
    using rows_inv_facts(1,9) [OF rows.reachable_inv [OF sample_batch_reached]] w by blast+
  have cut: "cutoff_past (pg_cutoff (we_pg sample_env)) (guc_ttl (sy_guc batch_state)) 100"
    using six_hours_past by (simp add: sample_env_def sample_pg_def)
  obtain db' where db': "store_batch (we_pg sample_env) (sy_guc batch_state) 100 results
        (delete_ids (qr_id ` set [sample_call]) (sy_db batch_state)) = Ok db'"
      "\<forall>r \<in> set results. result_row_of 100 r \<in> set (call_results db')"
    using store_batch_fits [OF ok sub out fits cut] by blast
  let ?t = "batch_state\<lparr>sy_db := db', sy_caches := caches, sy_worker := W_Drain 200\<rparr>"
  note st = step.w_store [OF w nets run db'(1)]
  have c: "in_state 1 batch_state (Queued sample_call)" by (simp add: sys_def db_committed_def call_row_def)
  have "cr_id r = 1" using r(2) by (simp add: answers_def call_row_def)
  then have c': "in_state 1 ?t (Answered (result_row_of 100 r))" using r db'(2) by simp
  from system_refines_life [OF sample_batch_reached st c c'] obtain r' now' where
      own: "answers sample_lib (env_world sample_lib (we_net sample_env)) sample_call r'"
        "result_row_of 100 r = result_row_of now' r'"
    by (auto elim: life_from_Queued)
  have "case cr_outcome r' of Outcome_Success v \<Rightarrow> v = JString ''hello'' | Outcome_Error m \<Rightarrow> True"
    using sample_answer [OF own(1)] by (simp split: call_outcome.splits)
  moreover have "we_net sample_env = sample_nets" by (simp add: sample_env_def)
  ultimately show ?thesis using st c c' own
    by (intro exI [of _ ?t] exI [of _ now'] exI [of _ r']) simp
qed



end
