(* ===== verification/Spec2Isabelle.thy ===== *)
theory Spec2Isabelle
  imports Lifecycle
begin

text \<open>
  A model of \<open>pg_grpc\<close>, the PostgreSQL extension that makes unary gRPC calls from SQL, and the proofs
  that make it correct.  All paths below are under \<open>src/src/\<close>.

  \<^bold>\<open>The program.\<close>  A backend calls a gRPC method synchronously (\<open>grpc_call\<close>) or puts the call in a table
  (\<open>grpc_call_async\<close>).  A background worker, woken through shared memory when the enqueueing transaction
  commits, takes the queued rows in batches, runs each batch as tokio tasks on one thread, stores the
  results in a second table and removes old ones; \<open>grpc_call_result\<close> reads that table.  A call resolves
  its method in a descriptor pool, from the registry of the process (compiled from staged sources, or
  kept from an earlier reflection) or fetched by server reflection, over a channel from the channel
  cache of the process.

  \<^bold>\<open>Theories and sources.\<close>
  \<^item> \<open>Prelude\<close>: Rust's \<open>Result\<close> and \<open>?\<close>, a future under a deadline, \<open>HashMap\<close>, the interfaces of the
    process-global maps, inductive invariants and forward simulation, as locales.
  \<^item> \<open>Rust_Str\<close>, \<open>Json_Value\<close>: what the code uses of \<open>str\<close>, \<open>CString\<close> and \<open>serde_json::Value\<close>.
  \<^item> \<open>Grpc_Error\<close> (\<open>error.rs\<close>), \<open>Endpoint\<close> (\<open>endpoint.rs\<close>), \<open>Tls\<close> (\<open>tls.rs\<close>), \<open>Options\<close> (\<open>options.rs\<close>),
    \<open>Guc\<close> (\<open>guc.rs\<close>): errors, validation and settings.
  \<^item> \<open>Proto_Staging\<close>, \<open>Proto_Registry\<close>, \<open>Channel_Cache\<close> (the files of those names): the three maps of a
    process, each an interpretation of an interface of \<open>Prelude\<close>.
  \<^item> \<open>Proto\<close> (\<open>proto.rs\<close>): pools by reflection and by compilation, and the well-known types.
  \<^item> \<open>Call\<close> (\<open>call.rs\<close>): a call, cut at its awaits into segments, and in direct style.
  \<^item> \<open>Queue\<close> (\<open>queue.rs\<close>, \<open>async_schema.rs\<close>): the two tables with their constraints, and the statements.
  \<^item> \<open>Join_Set\<close> (\<open>call_async_row\<close> of \<open>call.rs\<close>, the \<open>JoinSet\<close> of \<open>worker.rs\<close>): a batch under any schedule.
  \<^item> \<open>Provenance\<close>: where each result of a batch comes from.
  \<^item> \<open>Worker\<close> (\<open>worker.rs\<close>, inner loop): cycles and drains.
  \<^item> \<open>Sql_Api\<close> (\<open>lib.rs\<close>): the SQL functions.
  \<^item> \<open>Wake\<close> (\<open>lib.rs\<close>: \<open>_PG_init\<close> and the transaction callback; \<open>shmem.rs\<close>; \<open>worker.rs\<close>, outer loop): backends,
    shared memory and worker as interleaved steps.
  \<^item> \<open>Lifecycle\<close>: the automaton a call goes through, and the simulation that \<open>Wake\<close> implements it.
  \<^item> this theory: a queued call from end to end.

  \<^bold>\<open>Correspondence.\<close>  A definition has the name of the function it models where HOL leaves it free.  Structs
  are records, enums datatypes, \<open>i32\<close>, \<open>u32\<close>, \<open>i64\<close>, \<open>u64\<close> words of that width with the casts written out
  (\<open>ucast\<close>, \<open>scast\<close>).  A fallible function returns \<open>result\<close>; one that awaits returns \<open>poll\<close>, with
  \<open>Elapsed\<close> where the deadline passes at an await.  The state of a process is passed and returned; a
  statement of SQL maps the tables to the tables; an SQL error or a panic in the worker ends its
  transaction.  Code outside the repository is a parameter: \<open>grpc_lib\<close> (tonic's checks, prost,
  prost-reflect, \<open>serde_json\<close>), \<open>protox_api\<close>, \<open>grpc_net\<close> (what the network answers), \<open>wake_env\<close> and the
  inputs of a cycle (PostgreSQL and pgrx: row order, transaction start, interval arithmetic, SIGTERM,
  schedules).  Laws assumed of such code are named hypotheses (\<open>pool_laws\<close>, \<open>arranges\<close>, \<open>cutoff_past\<close>,
  \<open>no_expiry\<close>, \<open>env_ok\<close>, \<open>service_env\<close>), each met by a concrete instance in a witness.

  \<^bold>\<open>What is shown.\<close>
  \<^item> Asynchronous path: an accepted call is answered after a drain, with the reply to its own request
    (\<open>async_call_answered\<close>); no commit is forgotten by a sleeping worker (\<open>no_lost_wakeup\<close>); every step of
    the system moves a call along its life (\<open>system_refines_life\<close>) and a stored answer is never replaced
    (\<open>lookup_over_time\<close>); a queued call does what the synchronous one does (\<open>async_agrees_with_sync\<close>).
  \<^item> Batches: any schedule ends within six events per row, each row gets its own result, the caches only
    grow.
  \<^item> Tables: constraints, order of dequeue, round trip of results, clean-up, and what a lookup across two
    snapshots can miss.
  \<^item> Calls: the segmented call is the function as written; caches, reflection, metadata, timeouts.
  \<^item> Input: what the parsers of options, TLS settings, endpoints and method paths accept, exactly.

  \<^bold>\<open>Bounds.\<close>  A call is polled at most four times and a row at most five (\<open>polls_left\<close>,
  \<open>row_polls_left\<close>), so \<open>call_run\<close> and \<open>row_run\<close> are total and a batch takes at most six events per row, the
  join included (\<open>run_batch_terminates\<close>).  \<open>drain\<close> is given one input per cycle; one more than the queue
  has rows is enough (\<open>drain_empties_queue\<close>).  The loop of \<open>grpc_call_result\<close> may run for ever and is a
  \<open>partial_function\<close>; \<open>grpc_call_result_waits\<close> says exactly when it returns.

  \<^bold>\<open>Not modelled.\<close>  The index on \<open>created\<close> (it does not change what a statement returns), the normalisation
  of numbers and keys by \<open>jsonb\<close>, the locks around the process-global maps (a process is single-threaded,
  and no lock is held across an await), the installation of the TLS crypto provider, the runtime of the
  worker (a failure to build it ends the process after its latch is published, as any crash does),
  privileges, crash recovery that resets shared memory, tests, packaging and documentation.
\<close>

section \<open>A queued call from end to end\<close>

text \<open>What a lookup shows of a stored result.\<close>

definition shown :: "call_result \<Rightarrow> result_record" where
  "shown r =
     (case cr_outcome r of
        Outcome_Success v \<Rightarrow> (cr_id r, ''SUCCESS'', None, Some v)
      | Outcome_Error msg \<Rightarrow> (cr_id r, ''ERROR'', Some msg, None))"

lemma grpc_call_result_stored:
  assumes "distinct (map res_id (call_results db))" and "result_row_of now r \<in> set (call_results db)"
  shows "grpc_call_result (cr_id r) is_async (\<lambda>k. (db, db)) intr = Some (Ok [shown r])"
proof -
  have look: "lookup (cr_id r) db db = \<lparr>lr_id = cr_id r, lr_status = lookup_status_of (result_row_of now r)\<rparr>"
    using lookup_stored [OF assms, of db] by simp
  then have "poll_result (cr_id r) (\<lambda>k. (db, db)) intr 0 = Some (Ok (lookup (cr_id r) db db))"
    by (subst poll_result.simps) (simp add: lookup_status_result_row_of split: call_outcome.splits)
  with look show ?thesis
    by (simp add: grpc_call_result_def result_record_of_def shown_def lookup_status_result_row_of
        split: call_outcome.splits)
qed

text \<open>
  C1: a queued call from end to end.  A call that \<open>grpc_call_async\<close> accepts is, once the worker has
  drained the queue, answered by \<open>grpc_call_result\<close> under the id that was returned, whether the caller
  waits or not, never as pending and never as unknown: with the decoded reply to the request it was made
  with, which one of the networks the tasks were polled against gave over a channel dialled for the
  call's endpoint and TLS settings, to that request encoded for the call's method; or with the text of an
  error the call itself can meet, of its own timeout, or of a panic.  The drain is taken to see no
  SIGTERM, batches that finish, a \<open>ttl\<close> that does not raise and does not expire the results meanwhile,
  and replies that \<open>jsonb\<close> accepts (\<open>refused_reply_blocks_batch\<close> shows what happens otherwise).
\<close>

theorem async_call_answered:
  fixes lib :: "('p, 'f, 'd, 'm) grpc_lib" and st :: "('ch, 'p) proc_state"
  assumes "grpc_call_async ep m rq md os db w = Ok (i, db1, w')" and "db_ok db" and "0 < next_id db"
    and "\<forall>inp \<in> set inps. input_ok lib nets inp \<and> \<not> ci_sigterm inp \<and> cutoff_past (pg_cutoff pg) (guc_ttl g) (ci_now inp)"
    and "no_expiry (pg_cutoff pg) (guc_ttl g) (ci_now ` set inps)"
    and "replies_fit lib pg (env_world lib nets :: ('ch, 'p) world) (set (call_queue db1))"
    and "caches_known lib nets st"
    and "batch_size_ok g" and "length (call_queue db1) < length inps"
  shows "\<exists>db2 st' r opts. drain_pass lib pg g inps db1 st = Some (Drained, db2, st')
     \<and> (\<forall>is_async intr. grpc_call_result i is_async (\<lambda>k. (db2, db2)) intr = Some (Ok [shown r]))
     \<and> cr_id r = i \<and> parse_options os = Ok opts
     \<and> (case cr_outcome r of
          Outcome_Success v \<Rightarrow>
            reply_of lib (env_world lib nets :: ('ch, 'p) world) (call_args_of ep m rq md opts) (Ok v)
        | Outcome_Error msg \<Rightarrow>
            (\<exists>e. outcome_of lib (env_world lib nets :: ('ch, 'p) world) (call_args_of ep m rq md opts) (Err e)
               \<and> msg = display_error e)
            \<or> msg = ''timeout after '' @ show_u64 (timeout_of opts) @ ''ms'' \<or> msg = ''task panicked'')"
proof -
  let ?W = "env_world lib nets :: ('ch, 'p) world"
  from assms(1) obtain opts db0 where opts: "parse_options os = Ok opts" "uint (timeout_of opts) \<le> i32_max"
      and db1: "db1 = insert_queue [call_row i ep m rq md os (ucast (timeout_of opts))] db0"
    by (auto simp: grpc_call_async_Ok)
  let ?row = "call_row i ep m rq md os (ucast (timeout_of opts))"
  have row: "?row \<in> set (call_queue db1)" by (simp add: db1 insert_queue_def)
  have time: "row_timeout ?row = timeout_of opts" using timeout_roundtrip(2) [OF opts(2)] by simp
  have ok1: "db_ok db1" using enqueue_db_ok [OF assms(2,3,1)] by blast
  obtain db2 st' where drained: "drain_pass lib pg g inps db1 st = Some (Drained, db2, st')" "db_ok db2"
      "\<forall>row \<in> set (call_queue db1). \<exists>now r. answers lib ?W row r \<and> result_row_of now r \<in> set (call_results db2)"
    using drain_runs [OF assms(4,5) subset_refl ok1 _ assms(9,7,6), of "guc_batch_size g"] assms(8)
    by (auto simp: drain_pass_def batch_size_ok_def)
  with row obtain now r where r: "answers lib ?W ?row r" "result_row_of now r \<in> set (call_results db2)" by blast
  have id: "cr_id r = i" using r(1) by (simp add: answers_def)
  have "distinct (map res_id (call_results db2))" using drained(2) by (simp add: db_ok_def)
  from grpc_call_result_stored [OF this r(2)] drained(1) id r(1) opts(1) time show ?thesis
    by (intro exI [of _ db2] exI [of _ st'] exI [of _ r] exI [of _ opts])
       (auto simp: answers_def split: call_outcome.splits)
qed

theorem async_call_answered_witness:
  "\<exists>db1 db2 st' r. grpc_call_async ''h:1'' ''pkg.S/M'' (JString ''hello'') None sample_options empty_db False = Ok (1, db1, True)
     \<and> drain_pass sample_lib sample_pg guc_initial (map sample_input [100, 160]) db1
         \<lparr>ps_channels = [], ps_registry = []\<rparr> = Some (Drained, db2, st')
     \<and> grpc_call_result 1 False (\<lambda>k. (db2, db2)) (\<lambda>k. False) = Some (Ok [shown r])
     \<and> (case cr_outcome r of Outcome_Success v \<Rightarrow> v = JString ''hello'' | Outcome_Error msg \<Rightarrow> True)"
proof -
  let ?inps = "map sample_input [100, 160]" and ?st = "\<lparr>ps_channels = [] :: nat channels, ps_registry = []\<rparr>"
  let ?W = "env_world sample_lib sample_nets :: (nat, (string \<times> string list) list) world"
  let ?db1 = "empty_db\<lparr>call_queue := [sample_call], next_id := 2\<rparr>"
  have n: "0 < next_id empty_db" by (simp add: empty_db_def)
  have a: "\<forall>inp \<in> set ?inps. input_ok sample_lib sample_nets inp \<and> \<not> ci_sigterm inp
      \<and> cutoff_past (pg_cutoff sample_pg) (guc_ttl guc_initial) (ci_now inp)"
    using sample_input_ok six_hours_past by (simp add: sample_pg_def)
  have b: "no_expiry (pg_cutoff sample_pg) (guc_ttl guc_initial) (ci_now ` set ?inps)"
    by (simp add: no_expiry_def six_hours_def sample_input_def sample_pg_def)
  have f: "replies_fit sample_lib sample_pg ?W (set (call_queue ?db1))"
    by (rule sample_replies_fit) (simp add: call_row_def)
  have l: "length (call_queue ?db1) < length ?inps" by simp
  have success: "case c of Outcome_Success v \<Rightarrow> P v | Outcome_Error msg \<Rightarrow> True"
    if "case c of Outcome_Success v \<Rightarrow> P v | Outcome_Error msg \<Rightarrow> Q msg" for c P Q
    using that by (cases c) simp_all
  from async_call_answered [OF sample_enqueue db_ok_empty n a b f caches_known_empty guc_initial_batch_ok l]
  show ?thesis
  proof (elim exE conjE, goal_cases)
    case (1 db2 st' r opts)
    have "case cr_outcome r of Outcome_Success v \<Rightarrow> v = JString ''hello'' | Outcome_Error msg \<Rightarrow> True"
      using success [OF 1(5)]
      by (auto simp: env_world_def call_args_of_def dest!: sample_reply split: call_outcome.splits)
    with 1(1,2) sample_enqueue show ?case by blast
  qed
qed

end
